(* ===== verification/IDHAN_Prelude.thy ===== *)
theory IDHAN_Prelude
  imports Main "HOL-Library.Word"
begin

text \<open>
  Shared vocabulary of the development: the machine types of the C++ sources, the result type that
  stands for \<open>std::expected\<close> and for exceptions, and the facts on lists and maps that several
  components use. The collection \<open>idhan_step\<close> gathers the facts that describe one operation of a
  component on its abstraction.
\<close>

named_theorems idhan_step

section \<open>Machine types\<close>

type_synonym byte = "8 word"
type_synonym u16 = "16 word"
type_synonym u32 = "32 word"
type_synonym u64 = "64 word"

text \<open>\<open>std::expected<'a, 'e>\<close> and functions that throw: \<open>Inl\<close> is the error.\<close>

type_synonym ('e, 'a) result = "'e + 'a"

section \<open>Lists\<close>

lemma filter_neq_notin [simp]: "k \<notin> f ` set xs \<Longrightarrow> filter (\<lambda>x. f x \<noteq> k) xs = xs"
  by (induction xs) auto

lemma length_filter_distinct_key:
  "distinct (map f xs) \<Longrightarrow> k \<in> f ` set xs \<Longrightarrow> Suc (length (filter (\<lambda>x. f x \<noteq> k) xs)) = length xs"
  by (induction xs) auto

text \<open>Removing one key commutes with keeping a prefix, up to the one slot that becomes free.\<close>

lemma take_filter_distinct_key:
  "distinct (map f xs) \<Longrightarrow>
   take n (filter (\<lambda>x. f x \<noteq> k) (take (Suc n) xs)) = take n (filter (\<lambda>x. f x \<noteq> k) xs)"
proof (induction xs arbitrary: n)
  case Nil
  then show ?case by simp
next
  case (Cons x xs)
  show ?case
  proof (cases "f x = k")
    case True
    with Cons.prems have "k \<notin> f ` set xs" by auto
    then have xs: "filter (\<lambda>x. f x \<noteq> k) xs = xs" by simp
    from \<open>k \<notin> f ` set xs\<close> have "k \<notin> f ` set (take n xs)" by (auto dest: in_set_takeD)
    then have "filter (\<lambda>x. f x \<noteq> k) (take n xs) = take n xs" by simp
    with True xs show ?thesis by simp
  next
    case False
    then show ?thesis
      using Cons by (cases n) auto
  qed
qed

lemma map_of_filter_key:
  "map_of (filter (\<lambda>p. fst p \<noteq> k) xs) k' = (if k' = k then None else map_of xs k')"
  by (induction xs) auto

lemma find_None_key: "find (\<lambda>x. f x = k) xs = None \<longleftrightarrow> k \<notin> f ` set xs"
  by (auto simp: find_None_iff)

lemma find_distinct_key:
  "distinct (map f xs) \<Longrightarrow> x \<in> set xs \<Longrightarrow> find (\<lambda>y. f y = f x) xs = Some x"
  by (induction xs) (auto simp: rev_image_eqI)

lemma map_of_mem_distinct:
  "distinct (map fst xs) \<Longrightarrow> map_of xs k = Some v \<longleftrightarrow> (k, v) \<in> set xs"
  by (simp add: map_of_eq_Some_iff)

end
