(* ===== verification/LRU_Cache.thy ===== *)
theory LRU_Cache
  imports IDHAN_Prelude
begin

text \<open>
  The bounded caches of \<open>IDHANServer/src/caching/LRUCache.hpp\<close> and their clients in
  \<open>recordCaches.hpp\<close>. A cache is a doubly linked list in recency order and a hash index from keys to
  list iterators. The model keeps the iterators: a list node carries an identity that survives
  splicing, and the index maps a key to the identity of its node. The invariant says that the index
  and the list describe each other; the abstraction is the plain association list in recency order.
\<close>

section \<open>State\<close>

text \<open>A list node: its identity (what an iterator denotes), its key and its value.\<close>

type_synonym ('k, 'v) lru_node = "nat \<times> 'k \<times> 'v"

record ('k, 'v) lru_cache =
  max_entries :: nat
  order :: "('k, 'v) lru_node list"
  index :: "'k \<rightharpoonup> nat"
  next_node :: nat

section \<open>Operations\<close>

text \<open>\<open>kBytesPerEntry\<close> for keys of \<open>key_size\<close> bytes and list payloads of \<open>node_size\<close> bytes, with
  eight byte pointers.\<close>

definition kPtr :: nat where
  "kPtr = 8"

definition kAllocOverhead :: nat where
  "kAllocOverhead = 16"

definition kBytesPerEntry :: "nat \<Rightarrow> nat \<Rightarrow> nat" where
  "kBytesPerEntry key_size node_size =
     (let kListNode = 2 * kPtr + node_size + kAllocOverhead;
          kMapNode = kPtr + key_size + kPtr + kAllocOverhead;
          kMapBucket = kPtr
      in kListNode + kMapNode + kMapBucket)"

definition LRUCache :: "nat \<Rightarrow> nat \<Rightarrow> nat \<Rightarrow> ('k, 'v) lru_cache" where
  "LRUCache key_size node_size byte_capacity =
     \<lparr>max_entries = byte_capacity div kBytesPerEntry key_size node_size,
      order = [], index = Map.empty, next_node = 0\<rparr>"

text \<open>\<open>order.splice(order.begin(), order, it)\<close> and \<open>it->second\<close>.\<close>

definition splice_front :: "nat \<Rightarrow> ('k, 'v) lru_node list \<Rightarrow> ('k, 'v) lru_node list" where
  "splice_front it xs =
     (case find (\<lambda>n. fst n = it) xs of
        None \<Rightarrow> xs
      | Some n \<Rightarrow> n # filter (\<lambda>m. fst m \<noteq> it) xs)"

definition deref :: "nat \<Rightarrow> ('k, 'v) lru_node list \<Rightarrow> 'v option" where
  "deref it xs = map_option (\<lambda>n. snd (snd n)) (find (\<lambda>n. fst n = it) xs)"

definition assign :: "nat \<Rightarrow> 'v \<Rightarrow> ('k, 'v) lru_node list \<Rightarrow> ('k, 'v) lru_node list" where
  "assign it v xs = map (\<lambda>(i, k, w). if i = it then (i, k, v) else (i, k, w)) xs"

definition lru_value :: "('k, 'v) lru_cache \<Rightarrow> 'k \<Rightarrow> 'v option \<times> ('k, 'v) lru_cache" where
  "lru_value c key =
     (case index c key of
        None \<Rightarrow> (None, c)
      | Some it \<Rightarrow>
          let c' = c\<lparr>order := splice_front it (order c)\<rparr>
          in (deref it (order c'), c'))"

definition lru_add :: "('k, 'v) lru_cache \<Rightarrow> 'k \<Rightarrow> 'v \<Rightarrow> ('k, 'v) lru_cache" where
  "lru_add c key v =
     (if max_entries c = 0 then c
      else case index c key of
        Some it \<Rightarrow> c\<lparr>order := splice_front it (assign it v (order c))\<rparr>
      | None \<Rightarrow>
          let node = next_node c;
              c' = c\<lparr>order := (node, key, v) # order c, index := (index c)(key \<mapsto> node),
                     next_node := Suc node\<rparr>
          in if length (order c') > max_entries c'
             then c'\<lparr>index := (index c')(fst (snd (last (order c'))) := None),
                     order := butlast (order c')\<rparr>
             else c')"

definition lru_size :: "('k, 'v) lru_cache \<Rightarrow> nat" where
  "lru_size c = length (order c)"

definition lru_capacity :: "('k, 'v) lru_cache \<Rightarrow> nat" where
  "lru_capacity c = max_entries c"

definition lru_clear :: "('k, 'v) lru_cache \<Rightarrow> ('k, 'v) lru_cache" where
  "lru_clear c = c\<lparr>order := [], index := Map.empty\<rparr>"

text \<open>\<open>ValidLRUCache\<close>: the same structure without values, so its nodes carry \<open>()\<close>.\<close>

definition ValidLRUCache :: "nat \<Rightarrow> nat \<Rightarrow> ('k, unit) lru_cache" where
  "ValidLRUCache key_size byte_capacity =
     \<lparr>max_entries = byte_capacity div kBytesPerEntry key_size key_size,
      order = [], index = Map.empty, next_node = 0\<rparr>"

definition valid_exists :: "('k, unit) lru_cache \<Rightarrow> 'k \<Rightarrow> bool \<times> ('k, unit) lru_cache" where
  "valid_exists c key =
     (case index c key of
        None \<Rightarrow> (False, c)
      | Some it \<Rightarrow> (True, c\<lparr>order := splice_front it (order c)\<rparr>))"

definition valid_add :: "('k, unit) lru_cache \<Rightarrow> 'k \<Rightarrow> ('k, unit) lru_cache" where
  "valid_add c key =
     (if max_entries c = 0 then c
      else case index c key of
        Some it \<Rightarrow> c\<lparr>order := splice_front it (order c)\<rparr>
      | None \<Rightarrow>
          let node = next_node c;
              c' = c\<lparr>order := (node, key, ()) # order c, index := (index c)(key \<mapsto> node),
                     next_node := Suc node\<rparr>
          in if length (order c') > max_entries c'
             then c'\<lparr>index := (index c')(fst (snd (last (order c'))) := None),
                     order := butlast (order c')\<rparr>
             else c')"

text \<open>The two caches of \<open>recordCaches.hpp\<close>: record id to hash, and the ids known to exist. A record id
  takes four bytes, a hash thirty-two.\<close>

type_synonym record_id = "32 word"
type_synonym sha256 = "byte list"

definition kRecordCacheBytes :: nat where
  "kRecordCacheBytes = 64 * 1024 * 1024"

definition recordSha256Cache :: "(record_id, sha256) lru_cache" where
  "recordSha256Cache = LRUCache 4 36 kRecordCacheBytes"

definition sha256_get :: "(record_id, sha256) lru_cache \<Rightarrow> record_id \<Rightarrow>
    sha256 option \<times> (record_id, sha256) lru_cache" where
  "sha256_get c i = lru_value c i"

definition sha256_put :: "(record_id, sha256) lru_cache \<Rightarrow> record_id \<Rightarrow> sha256 \<Rightarrow>
    (record_id, sha256) lru_cache" where
  "sha256_put c i h = lru_add c i h"

definition recordExistsCache :: "(record_id, unit) lru_cache" where
  "recordExistsCache = ValidLRUCache 4 kRecordCacheBytes"

definition exists_contains :: "(record_id, unit) lru_cache \<Rightarrow> record_id \<Rightarrow>
    bool \<times> (record_id, unit) lru_cache" where
  "exists_contains c i = valid_exists c i"

definition exists_insert :: "(record_id, unit) lru_cache \<Rightarrow> record_id \<Rightarrow> (record_id, unit) lru_cache" where
  "exists_insert c i = valid_add c i"

text \<open>A history of calls on one cache, and the answers its reads gave, oldest first.\<close>

datatype ('k, 'v) lru_op = Get 'k | Put 'k 'v

fun op_key :: "('k, 'v) lru_op \<Rightarrow> 'k" where
  "op_key (Get k) = k"
| "op_key (Put k v) = k"

fun lru_exec :: "('k, 'v) lru_cache \<Rightarrow> ('k, 'v) lru_op \<Rightarrow> ('k, 'v) lru_cache" where
  "lru_exec c (Get k) = snd (lru_value c k)"
| "lru_exec c (Put k v) = lru_add c k v"

fun lru_run :: "('k, 'v) lru_cache \<Rightarrow> ('k, 'v) lru_op list \<Rightarrow> ('k, 'v) lru_cache" where
  "lru_run c [] = c"
| "lru_run c (x # xs) = lru_run (lru_exec c x) xs"

fun lru_answers :: "('k, 'v) lru_cache \<Rightarrow> ('k, 'v) lru_op list \<Rightarrow> ('k \<times> 'v) list" where
  "lru_answers c [] = []"
| "lru_answers c (Get k # xs) =
     (case fst (lru_value c k) of
        None \<Rightarrow> lru_answers (lru_exec c (Get k)) xs
      | Some v \<Rightarrow> (k, v) # lru_answers (lru_exec c (Get k)) xs)"
| "lru_answers c (Put k v # xs) = lru_answers (lru_exec c (Put k v)) xs"

section \<open>Invariant and abstraction\<close>

definition lru_keys :: "('k, 'v) lru_cache \<Rightarrow> 'k list" where
  "lru_keys c = map (\<lambda>n. fst (snd n)) (order c)"

definition lru_contents :: "('k, 'v) lru_cache \<Rightarrow> ('k \<times> 'v) list" where
  "lru_contents c = map snd (order c)"

text \<open>Node identities and keys are unique, the index holds exactly the iterators of the listed nodes,
  no identity is reused, and the list never exceeds the capacity.\<close>

definition lru_inv :: "('k, 'v) lru_cache \<Rightarrow> bool" where
  "lru_inv c \<longleftrightarrow>
     distinct (map fst (order c)) \<and>
     distinct (lru_keys c) \<and>
     index c = map_of (map (\<lambda>n. (fst (snd n), fst n)) (order c)) \<and>
     (\<forall>n \<in> set (order c). fst n < next_node c) \<and>
     length (order c) \<le> max_entries c"

text \<open>The reference behaviour: an association list in recency order, cut at the capacity.\<close>

definition lru_spec_get :: "('k \<times> 'v) list \<Rightarrow> 'k \<Rightarrow> ('k \<times> 'v) list" where
  "lru_spec_get xs k =
     (case map_of xs k of None \<Rightarrow> xs | Some v \<Rightarrow> (k, v) # filter (\<lambda>p. fst p \<noteq> k) xs)"

definition lru_spec_add :: "nat \<Rightarrow> ('k \<times> 'v) list \<Rightarrow> 'k \<Rightarrow> 'v \<Rightarrow> ('k \<times> 'v) list" where
  "lru_spec_add cap xs k v = take cap ((k, v) # filter (\<lambda>p. fst p \<noteq> k) xs)"

lemma lru_invD:
  assumes "lru_inv c"
  shows "distinct (map fst (order c))" "distinct (map (\<lambda>n. fst (snd n)) (order c))"
    "index c = map_of (map (\<lambda>n. (fst (snd n), fst n)) (order c))"
    "n \<in> set (order c) \<Longrightarrow> fst n < next_node c" "length (order c) \<le> max_entries c"
  using assms by (auto simp: lru_inv_def lru_keys_def)

text \<open>An index hit denotes a listed node that carries the key.\<close>

lemma lru_hit:
  assumes "lru_inv c" and "index c key = Some it"
  obtains v where "(it, key, v) \<in> set (order c)"
    and "find (\<lambda>n. fst n = it) (order c) = Some (it, key, v)"
    and "map_of (lru_contents c) key = Some v"
proof -
  from assms have "map_of (map (\<lambda>n. (fst (snd n), fst n)) (order c)) key = Some it"
    by (simp add: lru_invD(3))
  then have "(key, it) \<in> set (map (\<lambda>n. (fst (snd n), fst n)) (order c))" by (rule map_of_SomeD)
  then obtain v where v: "(it, key, v) \<in> set (order c)" by auto
  have "find (\<lambda>n. fst n = fst (it, key, v)) (order c) = Some (it, key, v)"
    by (rule find_distinct_key[OF lru_invD(1)[OF assms(1)] v])
  moreover have "map_of (lru_contents c) key = Some v"
    using v lru_invD(2)[OF assms(1)]
    by (subst map_of_mem_distinct) (auto simp: lru_contents_def comp_def intro: rev_image_eqI)
  ultimately show thesis using v that by simp
qed

lemma lru_miss:
  assumes "lru_inv c" and "index c key = None"
  shows "map_of (lru_contents c) key = None" and "key \<notin> set (lru_keys c)"
proof -
  from assms have "map_of (map (\<lambda>n. (fst (snd n), fst n)) (order c)) key = None"
    by (simp add: lru_invD(3))
  then have "key \<notin> fst ` set (map (\<lambda>n. (fst (snd n), fst n)) (order c))"
    by (simp add: map_of_eq_None_iff)
  then have k: "key \<notin> (\<lambda>n. fst (snd n)) ` set (order c)" by (auto simp: image_image)
  then show "key \<notin> set (lru_keys c)" by (simp add: lru_keys_def)
  from k show "map_of (lru_contents c) key = None"
    by (force simp: map_of_eq_None_iff lru_contents_def)
qed

text \<open>Removing a node by identity is removing it by key.\<close>

lemma filter_node_key:
  assumes "lru_inv c" and "(it, key, v) \<in> set (order c)"
  shows "filter (\<lambda>m. fst m \<noteq> it) (order c) = filter (\<lambda>m. fst (snd m) \<noteq> key) (order c)"
proof (rule filter_cong[OF refl])
  fix m assume m: "m \<in> set (order c)"
  have "inj_on fst (set (order c))" "inj_on (\<lambda>n. fst (snd n)) (set (order c))"
    using lru_invD(1,2)[OF assms(1)] by (auto simp: distinct_map)
  with m assms(2) show "(fst m \<noteq> it) = (fst (snd m) \<noteq> key)"
    by (metis (no_types, lifting) fst_conv inj_on_def snd_conv)
qed

lemma filter_map_snd:
  "map snd (filter (\<lambda>m. fst (snd m) \<noteq> k) xs) = filter (\<lambda>p. fst p \<noteq> k) (map snd xs)"
  by (induction xs) auto

lemma index_move_front:
  assumes "distinct (map (\<lambda>n. fst (snd n)) xs)" and "(it, key, v) \<in> set xs"
  shows "map_of (map (\<lambda>n. (fst (snd n), fst n)) ((it, key, w) # filter (\<lambda>m. fst (snd m) \<noteq> key) xs))
       = map_of (map (\<lambda>n. (fst (snd n), fst n)) xs)"
proof
  fix k
  have *: "map (\<lambda>n. (fst (snd n), fst n)) (filter (\<lambda>m. fst (snd m) \<noteq> key) xs)
         = filter (\<lambda>p. fst p \<noteq> key) (map (\<lambda>n. (fst (snd n), fst n)) xs)"
    by (induction xs) auto
  have "map_of (map (\<lambda>n. (fst (snd n), fst n)) xs) key = Some it"
    using assms by (subst map_of_mem_distinct) (auto simp: comp_def intro: rev_image_eqI)
  then show "map_of (map (\<lambda>n. (fst (snd n), fst n)) ((it, key, w) # filter (\<lambda>m. fst (snd m) \<noteq> key) xs)) k
       = map_of (map (\<lambda>n. (fst (snd n), fst n)) xs) k"
    by (simp add: * map_of_filter_key)
qed


text \<open>A hit moves the node to the front, with the stored or the overwritten value.\<close>

lemma splice_hit:
  assumes "lru_inv c" and "(it, key, v) \<in> set (order c)"
  shows "splice_front it (order c) = (it, key, v) # filter (\<lambda>m. fst (snd m) \<noteq> key) (order c)"
  using find_distinct_key[OF lru_invD(1)[OF assms(1)] assms(2)] filter_node_key[OF assms]
  by (simp add: splice_front_def)

lemma splice_assign_hit:
  assumes "lru_inv c" and "(it, key, v) \<in> set (order c)"
  shows "splice_front it (assign it w (order c))
       = (it, key, w) # filter (\<lambda>m. fst (snd m) \<noteq> key) (order c)"
proof -
  have "map fst (assign it w (order c)) = map fst (order c)"
    by (auto simp: assign_def)
  then have "distinct (map fst (assign it w (order c)))" using lru_invD(1)[OF assms(1)] by simp
  moreover have "(it, key, w) \<in> set (assign it w (order c))"
    using assms(2) by (force simp: assign_def)
  ultimately have "find (\<lambda>n. fst n = it) (assign it w (order c)) = Some (it, key, w)"
    using find_distinct_key[of fst _ "(it, key, w)"] by simp
  moreover have "filter (\<lambda>m. fst m \<noteq> it) (assign it w xs) = filter (\<lambda>m. fst m \<noteq> it) xs"
    for xs :: "('a, 'b) lru_node list"
    by (induction xs) (auto simp: assign_def split: if_splits)
  ultimately show ?thesis using filter_node_key[OF assms] by (simp add: splice_front_def)
qed

lemma lru_inv_move_front:
  assumes inv: "lru_inv c" and mem: "(it, key, v) \<in> set (order c)"
  shows "lru_inv (c\<lparr>order := (it, key, w) # filter (\<lambda>m. fst (snd m) \<noteq> key) (order c)\<rparr>)"
proof -
  note D = lru_invD[OF inv]
  have len: "Suc (length (filter (\<lambda>m. fst (snd m) \<noteq> key) (order c))) = length (order c)"
    by (rule length_filter_distinct_key[OF D(2)]) (use mem in force)
  have it: "it \<notin> fst ` set (filter (\<lambda>m. fst (snd m) \<noteq> key) (order c))"
    unfolding filter_node_key[OF assms, symmetric] by auto
  have dist: "distinct (map f (filter P xs))" if "distinct (map f xs)" for f P xs
    using that by (simp add: distinct_map_filter)
  show ?thesis
    unfolding lru_inv_def lru_keys_def
    using D(1,2,4,5) it len mem index_move_front[OF D(2) mem, of w] D(3) dist[OF D(1)] dist[OF D(2)]
    by (auto dest!: D(4))
qed


lemma lru_evict_inv:
  assumes inv: "lru_inv c" and miss: "index c key = None"
    and d: "d = c\<lparr>order := (next_node c, key, v) # order c,
                 index := (index c)(key \<mapsto> next_node c), next_node := Suc (next_node c)\<rparr>"
    and full: "length (order d) > max_entries d"
  shows "lru_inv (d\<lparr>index := (index d)(fst (snd (last (order d))) := None),
                    order := butlast (order d)\<rparr>)"
proof -
  note D = lru_invD[OF inv]
  define ys where "ys = butlast (order d)"
  define z where "z = last (order d)"
  have od: "order d = ys @ [z]" unfolding ys_def z_def using d by simp
  have fresh: "next_node c \<notin> fst ` set (order c)" using D(4) by fastforce
  have new: "key \<notin> (\<lambda>n. fst (snd n)) ` set (order c)"
    using lru_miss(2)[OF inv miss] by (simp add: lru_keys_def)
  have dd: "distinct (map fst (ys @ [z]))" "distinct (map (\<lambda>n. fst (snd n)) (ys @ [z]))"
    unfolding od[symmetric] using D(1,2) fresh new d by auto
  have idx: "index d = map_of (map (\<lambda>n. (fst (snd n), fst n)) (ys @ [z]))"
    unfolding od[symmetric] using d D(3) by simp
  have lt: "\<forall>n \<in> set (ys @ [z]). fst n < next_node d"
    unfolding od[symmetric] using d D(4) by (auto intro: less_SucI)
  have len: "length ys \<le> max_entries d"
    using D(5) d by (simp add: ys_def)
  have "map_of (map (\<lambda>n. (fst (snd n), fst n)) ys) (fst (snd z)) = None"
    using dd(2) by (auto simp: map_of_eq_None_iff image_image)
  then have "(index d)(fst (snd z) := None) = map_of (map (\<lambda>n. (fst (snd n), fst n)) ys)"
    unfolding idx by (auto simp: fun_eq_iff map_add_def split: option.splits)
  then show ?thesis
    using dd lt len unfolding ys_def[symmetric] z_def[symmetric]
    by (simp add: lru_inv_def lru_keys_def)
qed

lemma lru_insert_inv:
  assumes inv: "lru_inv c" and miss: "index c key = None" and room: "length (order c) < max_entries c"
  shows "lru_inv (c\<lparr>order := (next_node c, key, v) # order c,
                 index := (index c)(key \<mapsto> next_node c), next_node := Suc (next_node c)\<rparr>)"
proof -
  note D = lru_invD[OF inv]
  have "next_node c \<notin> fst ` set (order c)" using D(4) by fastforce
  then show ?thesis
    using D lru_miss(2)[OF inv miss] room
    by (auto simp: lru_inv_def lru_keys_def intro: less_SucI)
qed

section \<open>Refinement of the association list\<close>

lemma lru_value_inv [idhan_step]:
  assumes "lru_inv c"
  shows "lru_inv (snd (lru_value c key))"
proof (cases "index c key")
  case (Some it)
  from lru_hit[OF assms Some] obtain v where v: "(it, key, v) \<in> set (order c)" by blast
  show ?thesis
    using lru_inv_move_front[OF assms v, of v] splice_hit[OF assms v] Some
    by (simp add: lru_value_def Let_def)
qed (use assms in \<open>simp add: lru_value_def\<close>)

lemma lru_add_inv [idhan_step]:
  assumes "lru_inv c"
  shows "lru_inv (lru_add c key w)"
proof (cases "index c key")
  case (Some it)
  from lru_hit[OF assms Some] obtain v where v: "(it, key, v) \<in> set (order c)" by blast
  show ?thesis
    using lru_inv_move_front[OF assms v, of w] splice_assign_hit[OF assms v] Some assms
    by (simp add: lru_add_def)
next
  case None
  show ?thesis
    using lru_evict_inv[OF assms None refl, of w] lru_insert_inv[OF assms None, of w] assms None
    by (auto simp: lru_add_def Let_def)
qed

lemma lru_value_contents [idhan_step]:
  assumes "lru_inv c"
  shows "fst (lru_value c key) = map_of (lru_contents c) key"
    and "lru_contents (snd (lru_value c key)) = lru_spec_get (lru_contents c) key"
proof -
  have "fst (lru_value c key) = map_of (lru_contents c) key \<and>
        lru_contents (snd (lru_value c key)) = lru_spec_get (lru_contents c) key"
  proof (cases "index c key")
    case (Some it)
    from lru_hit[OF assms Some] obtain v where v: "(it, key, v) \<in> set (order c)"
      and m: "map_of (lru_contents c) key = Some v" by blast
    show ?thesis
      using splice_hit[OF assms v] Some m
      by (simp add: lru_value_def Let_def deref_def lru_spec_get_def lru_contents_def filter_map_snd)
  next
    case None
    then show ?thesis using lru_miss(1)[OF assms None] by (simp add: lru_value_def lru_spec_get_def)
  qed
  then show "fst (lru_value c key) = map_of (lru_contents c) key"
    and "lru_contents (snd (lru_value c key)) = lru_spec_get (lru_contents c) key" by auto
qed

lemma lru_add_contents [idhan_step]:
  assumes inv: "lru_inv c"
  shows "lru_contents (lru_add c key w) = lru_spec_add (max_entries c) (lru_contents c) key w"
proof (cases "max_entries c = 0")
  case True
  then show ?thesis
    using lru_invD(5)[OF inv] by (simp add: lru_add_def lru_spec_add_def lru_contents_def)
next
  case False
  note len = lru_invD(5)[OF inv]
  show ?thesis
  proof (cases "index c key")
    case (Some it)
    from lru_hit[OF inv Some] obtain v where v: "(it, key, v) \<in> set (order c)" by blast
    have "Suc (length (filter (\<lambda>m. fst (snd m) \<noteq> key) (order c))) = length (order c)"
      by (rule length_filter_distinct_key[OF lru_invD(2)[OF inv]]) (use v in force)
    then show ?thesis
      using False Some splice_assign_hit[OF inv v, of w] len
      by (simp add: lru_add_def lru_spec_add_def lru_contents_def flip: filter_map_snd)
  next
    case None
    have "key \<notin> fst ` set (map snd (order c))"
      using lru_miss(2)[OF inv None] by (auto simp: lru_keys_def rev_image_eqI)
    then have flt: "filter (\<lambda>p. fst p \<noteq> key) (map snd (order c)) = map snd (order c)"
      by simp
    show ?thesis
    proof (cases "length (order c) = max_entries c")
      case True
      then show ?thesis
        using False None flt
        by (simp add: lru_add_def Let_def lru_contents_def lru_spec_add_def butlast_conv_take
            take_Cons' take_map)
    next
      case neq: False
      with len have "length (order c) < max_entries c" by simp
      then show ?thesis
        using False None flt
        by (auto simp: lru_add_def Let_def lru_contents_def lru_spec_add_def take_Cons')
    qed
  qed
qed


section \<open>The interface the clients rely on\<close>

text \<open>A cache is a partial map that may forget: a read answers from the map and keeps it, a write makes
  no other binding than the written one. A client that only ever writes what a ground truth says
  reads nothing else.\<close>

locale forgetful_cache =
  fixes get :: "'s \<Rightarrow> 'k \<Rightarrow> 'v option \<times> 's"
    and put :: "'s \<Rightarrow> 'k \<Rightarrow> 'v \<Rightarrow> 's"
    and bindings :: "'s \<Rightarrow> 'k \<rightharpoonup> 'v"
    and invar :: "'s \<Rightarrow> bool"
  assumes get_value: "invar s \<Longrightarrow> fst (get s k) = bindings s k"
    and get_bindings: "invar s \<Longrightarrow> bindings (snd (get s k)) = bindings s"
    and put_bindings: "invar s \<Longrightarrow> bindings (put s k v) \<subseteq>\<^sub>m (bindings s)(k \<mapsto> v)"
    and invar_get: "invar s \<Longrightarrow> invar (snd (get s k))"
    and invar_put: "invar s \<Longrightarrow> invar (put s k v)"
begin

definition coherent :: "('k \<Rightarrow> 'v) \<Rightarrow> 's \<Rightarrow> bool" where
  "coherent truth s \<longleftrightarrow> invar s \<and> (\<forall>k v. bindings s k = Some v \<longrightarrow> v = truth k)"

lemma coherent_get:
  assumes "coherent truth s"
  shows "coherent truth (snd (get s k))" and "fst (get s k) = Some v \<Longrightarrow> v = truth k"
  using assms by (auto simp: coherent_def get_value get_bindings invar_get)

lemma coherent_put:
  assumes "coherent truth s"
  shows "coherent truth (put s k (truth k))"
proof -
  from assms have s: "invar s" "\<And>k v. bindings s k = Some v \<Longrightarrow> v = truth k"
    by (auto simp: coherent_def)
  have "v = truth k'" if "bindings (put s k (truth k)) k' = Some v" for k' v
  proof -
    from that put_bindings[OF s(1), of k "truth k"] have "((bindings s)(k \<mapsto> truth k)) k' = Some v"
      by (auto simp: map_le_def dom_def)
    then show ?thesis using s(2) by (auto split: if_splits)
  qed
  with s(1) show ?thesis by (simp add: coherent_def invar_put)
qed

end

lemma map_of_spec_get: "map_of (lru_spec_get xs k) = map_of xs"
  by (auto simp: lru_spec_get_def fun_eq_iff map_of_filter_key split: option.splits)

lemma map_of_take_le: "distinct (map fst xs) \<Longrightarrow> map_of (take n xs) \<subseteq>\<^sub>m map_of xs"
proof (unfold map_le_def, intro ballI)
  fix k assume d: "distinct (map fst xs)" and "k \<in> dom (map_of (take n xs))"
  then obtain v where v: "map_of (take n xs) k = Some v" by auto
  then have "(k, v) \<in> set xs" by (auto dest!: map_of_SomeD in_set_takeD)
  with d v show "map_of (take n xs) k = map_of xs k" by simp
qed

lemma distinct_contents [idhan_step]: "lru_inv c \<Longrightarrow> distinct (map fst (lru_contents c))"
  by (simp add: lru_inv_def lru_keys_def lru_contents_def comp_def)

lemma map_of_spec_add:
  assumes "distinct (map fst xs)"
  shows "map_of (lru_spec_add cap xs k v) \<subseteq>\<^sub>m (map_of xs)(k \<mapsto> v)"
proof -
  have "distinct (map fst ((k, v) # filter (\<lambda>p. fst p \<noteq> k) xs))"
    using assms by (auto simp: distinct_map_filter)
  from map_of_take_le[OF this, of cap]
  have "map_of (lru_spec_add cap xs k v) \<subseteq>\<^sub>m map_of ((k, v) # filter (\<lambda>p. fst p \<noteq> k) xs)"
    by (simp add: lru_spec_add_def)
  also have "map_of ((k, v) # filter (\<lambda>p. fst p \<noteq> k) xs) = (map_of xs)(k \<mapsto> v)"
    by (auto simp: fun_eq_iff map_of_filter_key)
  finally show ?thesis .
qed

interpretation lru: forgetful_cache lru_value lru_add "\<lambda>c. map_of (lru_contents c)" lru_inv
  by unfold_locales
    (simp_all add: lru_value_contents lru_value_inv lru_add_inv lru_add_contents map_of_spec_get
      map_of_spec_add distinct_contents)


section \<open>Histories\<close>

lemma lru_exec_inv: "lru_inv c \<Longrightarrow> lru_inv (lru_exec c x)"
  by (cases x) (simp_all add: lru_value_inv lru_add_inv)

lemma lru_run_inv: "lru_inv c \<Longrightarrow> lru_inv (lru_run c xs)"
  by (induction xs arbitrary: c) (simp_all add: lru_exec_inv)

lemma lru_max_entries [simp]:
  "max_entries (snd (lru_value c k)) = max_entries c" "max_entries (lru_add c k v) = max_entries c"
  by (simp_all add: lru_value_def lru_add_def Let_def split: option.split)

lemma lru_run_max_entries [simp]: "max_entries (lru_run c xs) = max_entries c"
proof (induction xs arbitrary: c)
  case (Cons x xs)
  then show ?case by (cases x) simp_all
qed simp

lemma lru_inv_empty: "lru_inv (LRUCache ks ns cap)" "lru_inv (ValidLRUCache ks cap)"
  by (simp_all add: lru_inv_def lru_keys_def LRUCache_def ValidLRUCache_def)

text \<open>A key stays cached while fewer than \<open>max_entries\<close> other keys are touched: a split of the contents
  at the key, with every more recent entry among the keys touched since.\<close>

definition recent :: "'k \<Rightarrow> 'k set \<Rightarrow> ('k \<times> 'v) list \<Rightarrow> bool" where
  "recent k touched xs \<longleftrightarrow>
     (\<exists>pre v post. xs = pre @ (k, v) # post \<and> fst ` set pre \<subseteq> touched)"

lemma recent_front: "recent k T ((k, v) # xs)"
  by (force simp: recent_def)

lemma recent_move:
  assumes "recent k T xs" and "k' \<noteq> k"
  shows "recent k (insert k' T) ((k', v') # filter (\<lambda>p. fst p \<noteq> k') xs)"
proof -
  from assms(1) obtain pre v post where xs: "xs = pre @ (k, v) # post" and pre: "fst ` set pre \<subseteq> T"
    by (auto simp: recent_def)
  let ?pre = "(k', v') # filter (\<lambda>p. fst p \<noteq> k') pre"
  have "(k', v') # filter (\<lambda>p. fst p \<noteq> k') xs = ?pre @ (k, v) # filter (\<lambda>p. fst p \<noteq> k') post"
    using xs assms(2) by auto
  moreover have "fst ` set ?pre \<subseteq> insert k' T" using pre by auto
  ultimately show ?thesis unfolding recent_def by blast
qed

lemma recent_take:
  assumes "recent k T xs" and "distinct (map fst xs)" and "finite T" and "card (T - {k}) < cap"
  shows "recent k T (take cap xs)"
proof -
  from assms(1) obtain pre v post where xs: "xs = pre @ (k, v) # post" and pre: "fst ` set pre \<subseteq> T"
    by (auto simp: recent_def)
  have "fst ` set pre \<subseteq> T - {k}" using assms(2) xs pre by auto
  then have "card (fst ` set pre) \<le> card (T - {k})" using assms(3) by (intro card_mono) auto
  moreover have "card (fst ` set pre) = length pre"
    using assms(2) xs distinct_card[of "map fst pre"] by simp
  ultimately have "length pre < cap" using assms(4) by simp
  then have "take cap xs = pre @ (k, v) # take (cap - Suc (length pre)) post"
    using xs by (auto simp: take_Cons')
  then show ?thesis using pre unfolding recent_def by blast
qed

lemma recent_mono: "recent k T xs \<Longrightarrow> T \<subseteq> U \<Longrightarrow> recent k U xs"
  by (auto simp: recent_def)

lemma recent_exec:
  assumes "lru_inv c" and "recent k T (lru_contents c)" and "finite T"
    and "card (insert (op_key x) T - {k}) < max_entries c"
  shows "recent k (insert (op_key x) T) (lru_contents (lru_exec c x))"
proof (cases x)
  case (Get k')
  show ?thesis
  proof (cases "map_of (lru_contents c) k'")
    case None
    then show ?thesis
      using Get assms(1,2) by (auto simp: lru_value_contents lru_spec_get_def intro: recent_mono)
  next
    case (Some v)
    then show ?thesis
      using Get assms(1,2) recent_move[OF assms(2), of k'] recent_front
      by (cases "k' = k") (auto simp: lru_value_contents lru_spec_get_def)
  qed
next
  case (Put k' v')
  let ?ys = "(k', v') # filter (\<lambda>p. fst p \<noteq> k') (lru_contents c)"
  have "recent k (insert k' T) ?ys"
    using recent_move[OF assms(2), of k' v'] recent_front[of k "insert k' T" v'] by (cases "k' = k") auto
  moreover have "distinct (map fst ?ys)"
    using distinct_contents[OF assms(1)] by (auto simp: distinct_map_filter)
  ultimately have "recent k (insert k' T) (take (max_entries c) ?ys)"
    using assms(3,4) Put by (intro recent_take) simp_all
  then show ?thesis using Put assms(1) by (simp add: lru_add_contents lru_spec_add_def)
qed

lemma recent_run:
  assumes "lru_inv c" and "recent k T (lru_contents c)" and "finite T"
    and "card (op_key ` set xs \<union> T - {k}) < max_entries c"
  shows "recent k (op_key ` set xs \<union> T) (lru_contents (lru_run c xs))"
  using assms
proof (induction xs arbitrary: c T)
  case (Cons x xs)
  have fin: "finite (op_key ` set (x # xs) \<union> T - {k})" using Cons.prems(3) by simp
  have "card (insert (op_key x) T - {k}) \<le> card (op_key ` set (x # xs) \<union> T - {k})"
    by (rule card_mono[OF fin]) auto
  then have "recent k (insert (op_key x) T) (lru_contents (lru_exec c x))"
    using Cons.prems by (intro recent_exec) auto
  moreover have "max_entries (lru_exec c x) = max_entries c" by (cases x) simp_all
  ultimately show ?case
    using Cons.IH[of "lru_exec c x" "insert (op_key x) T"] Cons.prems lru_exec_inv[OF Cons.prems(1), of x]
    by simp
qed simp


lemma binding_exec:
  assumes "lru_inv c" and "\<And>w. map_of (lru_contents c) k = Some w \<Longrightarrow> w = v"
    and "\<And>u. x \<noteq> Put k u" and "map_of (lru_contents (lru_exec c x)) k = Some w"
  shows "w = v"
proof (cases x)
  case (Get k')
  then show ?thesis using assms lru.get_bindings[OF assms(1)] by simp
next
  case (Put k' v')
  with assms(3) have "k' \<noteq> k" by blast
  have "map_of (lru_contents (lru_add c k' v')) \<subseteq>\<^sub>m (map_of (lru_contents c))(k' \<mapsto> v')"
    by (rule lru.put_bindings[OF assms(1)])
  with Put assms(4) have "((map_of (lru_contents c))(k' \<mapsto> v')) k = Some w"
    by (auto simp: map_le_def dom_def)
  with \<open>k' \<noteq> k\<close> assms(2) show ?thesis by simp
qed

lemma binding_run:
  assumes "lru_inv c" and "\<And>w. map_of (lru_contents c) k = Some w \<Longrightarrow> w = v"
    and "\<And>u. Put k u \<notin> set xs" and "map_of (lru_contents (lru_run c xs)) k = Some w"
  shows "w = v"
  using assms
proof (induction xs arbitrary: c)
  case (Cons x xs)
  have "x \<noteq> Put k u" for u using Cons.prems(3)[of u] by auto
  then have b: "\<And>w. map_of (lru_contents (lru_exec c x)) k = Some w \<Longrightarrow> w = v"
    using binding_exec[OF Cons.prems(1,2)] by blast
  show ?case
    by (rule Cons.IH[OF lru_exec_inv[OF Cons.prems(1), of x] b])
      (use Cons.prems(3,4) in auto)
qed simp

lemma recent_hit: "recent k T xs \<Longrightarrow> \<exists>w. map_of xs k = Some w"
  by (auto simp: recent_def map_add_def split: option.split)

lemma answers_coherent:
  assumes "lru.coherent truth c" and "\<And>k v. Put k v \<in> set xs \<Longrightarrow> v = truth k"
    and "(k, v) \<in> set (lru_answers c xs)"
  shows "v = truth k"
  using assms
proof (induction c xs rule: lru_answers.induct)
  case (2 c k' xs)
  show ?case
  proof (cases "fst (lru_value c k')")
    case None
    then show ?thesis using 2 lru.coherent_get(1)[OF "2.prems"(1)] by simp
  next
    case (Some w)
    then show ?thesis
      using 2 lru.coherent_get[OF "2.prems"(1)] by (auto simp: Some)
  qed
next
  case (3 c k' v' xs)
  then show ?case using lru.coherent_put[OF "3.prems"(1), of k'] by auto
qed simp

lemma assign_unit [simp]: "assign it () xs = xs"
  by (induction xs) (auto simp: assign_def)

text \<open>\<open>ValidLRUCache\<close> is \<open>LRUCache\<close> at the unit type.\<close>

lemma valid_add_eq [idhan_step]: "valid_add c k = lru_add c k ()"
  by (simp add: valid_add_def lru_add_def split: option.split)

lemma valid_exists_eq [idhan_step]:
  "lru_inv c \<Longrightarrow> valid_exists c k = (fst (lru_value c k) \<noteq> None, snd (lru_value c k))"
  by (auto simp: valid_exists_def lru_value_def Let_def splice_front_def deref_def
      split: option.split elim!: lru_hit)

section \<open>Properties\<close>

text \<open>C5. After any history of reads and writes a cache built for a byte budget answers and changes
  exactly like the association list in recency order that is cut at the budget's number of entries:
  a read returns the list's binding and moves a hit to the front, a write puts its binding in front
  and drops whatever exceeds the capacity, so the entry dropped is the least recently used one.\<close>

theorem lru_refines_recency_list:
  "let c = lru_run (LRUCache ks ns bytes) ops; xs = lru_contents c;
       cap = bytes div kBytesPerEntry ks ns
   in lru_inv c \<and> lru_capacity c = cap \<and> lru_size c \<le> cap \<and>
      fst (lru_value c k) = map_of xs k \<and>
      lru_contents (snd (lru_value c k)) = lru_spec_get xs k \<and>
      lru_contents (lru_add c k v) = lru_spec_add cap xs k v \<and>
      lru_contents (lru_clear c) = []"
proof -
  define c where "c = lru_run (LRUCache ks ns bytes) ops"
  have inv: "lru_inv c" unfolding c_def by (rule lru_run_inv[OF lru_inv_empty(1)])
  have cap: "max_entries c = bytes div kBytesPerEntry ks ns"
    by (simp add: c_def LRUCache_def)
  show ?thesis
    unfolding c_def[symmetric] Let_def
    using inv cap lru_invD(5)[OF inv]
    by (simp add: idhan_step lru_capacity_def lru_size_def) (simp add: lru_clear_def lru_contents_def)
qed

text \<open>Working set: a value that was written is still served after any number of later calls that
  do not overwrite it, as long as those calls touch fewer distinct other keys than the cache has
  entries.\<close>

theorem lru_working_set:
  assumes "\<And>u. Put k u \<notin> set later"
    and "card (op_key ` set later - {k}) < bytes div kBytesPerEntry ks ns"
  shows "fst (lru_value (lru_run (lru_add (lru_run (LRUCache ks ns bytes) before) k v) later) k) = Some v"
proof -
  define c where "c = lru_add (lru_run (LRUCache ks ns bytes) before) k v"
  have b: "lru_inv (lru_run (LRUCache ks ns bytes) before)"
    by (rule lru_run_inv[OF lru_inv_empty(1)])
  have inv: "lru_inv c" unfolding c_def by (rule lru_add_inv[OF b])
  have cap: "max_entries c = bytes div kBytesPerEntry ks ns"
    by (simp add: c_def LRUCache_def)
  from assms(2) cap have pos: "0 < max_entries c" by simp
  have front: "lru_contents c = (k, v) # take (max_entries c - 1)
      (filter (\<lambda>p. fst p \<noteq> k) (lru_contents (lru_run (LRUCache ks ns bytes) before)))"
    using pos b by (simp add: c_def lru_add_contents lru_spec_add_def take_Cons')
  have "recent k (op_key ` set later \<union> {}) (lru_contents (lru_run c later))"
    by (rule recent_run[OF inv]) (use front recent_front assms(2) cap in simp_all)
  then obtain w where w: "map_of (lru_contents (lru_run c later)) k = Some w"
    by (auto dest!: recent_hit)
  moreover have "w = v"
    by (rule binding_run[OF inv _ assms(1) w]) (simp add: front)
  ultimately show ?thesis
    using lru_value_contents(1)[OF lru_run_inv[OF inv]] by (simp add: c_def)
qed

theorem lru_working_set_witness:
  "fst (lru_value (lru_run (lru_add (lru_run (LRUCache 4 4 240) []) (1::nat) ''a'')
      [Put 2 ''b'', Get 3]) 1) = Some ''a''"
  by (rule lru_working_set) (simp_all add: kBytesPerEntry_def kPtr_def kAllocOverhead_def)

text \<open>The record hash cache is coherent with the database: when every hash a caller stores is the
  hash of that record, every hash the cache ever answers is too, whatever was evicted in between.\<close>

theorem record_sha256_cache_coherent:
  assumes "\<And>i h. Put i h \<in> set ops \<Longrightarrow> h = hash_of i"
    and "(i, h) \<in> set (lru_answers recordSha256Cache ops)"
  shows "h = hash_of i"
proof (rule answers_coherent[OF _ assms])
  show "lru.coherent hash_of recordSha256Cache"
    unfolding lru.coherent_def
    by (simp add: recordSha256Cache_def lru_inv_empty) (simp add: LRUCache_def lru_contents_def)
qed

theorem record_sha256_cache_coherent_witness:
  "(7, [1, 2]) \<in> set (lru_answers recordSha256Cache [Put 7 [1, 2], Get 7]) \<and>
   ([1, 2] :: sha256) = (if (7 :: record_id) = 7 then [1, 2] else [])"
proof -
  have hit: "(7, [1, 2]) \<in> set (lru_answers recordSha256Cache [Put 7 [1, 2], Get 7])"
    by (simp add: recordSha256Cache_def LRUCache_def lru_add_def lru_value_def Let_def
        splice_front_def deref_def kRecordCacheBytes_def kBytesPerEntry_def kPtr_def kAllocOverhead_def)
  have "([1, 2] :: sha256) = (if (7 :: record_id) = 7 then [1, 2] else [])"
    by (rule record_sha256_cache_coherent[where hash_of = "\<lambda>i. if i = 7 then [1, 2] else []", OF _ hit])
      (simp split: if_splits)
  with hit show ?thesis by simp
qed

end
