(* ===== verification/Search_Set.thy ===== *)
theory Search_Set
  imports IDHAN_Prelude "HOL-Library.List_Lexorder"
begin

text \<open>
  The record sets of the search engine: \<open>IDHANServer/src/core/search/Set.cpp\<close>, \<open>Set.hpp\<close>,
  \<open>SortKey.cpp\<close>, \<open>SortKey.hpp\<close> and \<open>SearchTypes.hpp\<close>. A set keeps its record ids, the sort keys and
  optionally the hashes in parallel columns, ordered by (key, id), and a flag that says that it
  denotes the complement. Boolean operators merge the columns in one pass over indices.
  Floating point sort keys are values of any linear order (the database yields no NaN), hashes are
  byte lists under the lexicographic order of \<open>std::array\<close>.
\<close>

section \<open>Sort keys\<close>

datatype SortKeyType = None_key | Integer_key | Real_key | Hash_key

datatype 'r SortKeyColumn =
    NoKeys
  | IntKeys "int list"
  | RealKeys "'r list"
  | HashKeys "byte list list"

fun emptyColumn :: "SortKeyType \<Rightarrow> 'r SortKeyColumn" where
  "emptyColumn None_key = NoKeys"
| "emptyColumn Integer_key = IntKeys []"
| "emptyColumn Real_key = RealKeys []"
| "emptyColumn Hash_key = HashKeys []"

fun emptyColumnLike :: "'r SortKeyColumn \<Rightarrow> 'r SortKeyColumn" where
  "emptyColumnLike NoKeys = NoKeys"
| "emptyColumnLike (IntKeys _) = IntKeys []"
| "emptyColumnLike (RealKeys _) = RealKeys []"
| "emptyColumnLike (HashKeys _) = HashKeys []"

fun columnType :: "'r SortKeyColumn \<Rightarrow> SortKeyType" where
  "columnType (IntKeys _) = Integer_key"
| "columnType (RealKeys _) = Real_key"
| "columnType (HashKeys _) = Hash_key"
| "columnType NoKeys = None_key"

section \<open>Sets\<close>

datatype MergeOp = Intersect | Union | Difference | SymmetricDifference

text \<open>One monomorphic view of a set, as the visitor of \<open>merge\<close> sees it after the column type is known:
  \<open>None\<close> in the key column is \<open>std::monostate\<close>.\<close>

record 'k rows =
  row_ids :: "int list"
  row_keys :: "'k list option"
  row_hashes :: "byte list list option"

record 'r search_set =
  m_ids :: "int list"
  m_keys :: "'r SortKeyColumn"
  m_hashes :: "byte list list option"
  m_inverted :: bool

definition emptyOf :: "SortKeyType \<Rightarrow> 'r search_set" where
  "emptyOf t = \<lparr>m_ids = [], m_keys = emptyColumn t, m_hashes = None, m_inverted = False\<rparr>"

definition compositeLess :: "'k::linorder list option \<Rightarrow> int list \<Rightarrow> nat \<Rightarrow>
    'k list option \<Rightarrow> int list \<Rightarrow> nat \<Rightarrow> bool" where
  "compositeLess lhs_keys lhs_ids lhs_index rhs_keys rhs_ids rhs_index =
     (case (lhs_keys, rhs_keys) of
        (Some lk, Some rk) \<Rightarrow>
          if lk ! lhs_index < rk ! rhs_index then True
          else if rk ! rhs_index < lk ! lhs_index then False
          else lhs_ids ! lhs_index < rhs_ids ! rhs_index
      | _ \<Rightarrow> lhs_ids ! lhs_index < rhs_ids ! rhs_index)"

text \<open>\<open>emit\<close> appends one row of \<open>from\<close>. The hash is appended only when both the output and the operand
  carry hashes.\<close>

definition emit :: "'k rows \<Rightarrow> nat \<Rightarrow> 'k rows \<Rightarrow> 'k rows" where
  "emit from i out =
     \<lparr>row_ids = row_ids out @ [row_ids from ! i],
      row_keys = (case (row_keys out, row_keys from) of
          (Some ok, Some fk) \<Rightarrow> Some (ok @ [fk ! i]) | _ \<Rightarrow> row_keys out),
      row_hashes = (case (row_hashes out, row_hashes from) of
          (Some oh, Some fh) \<Rightarrow> Some (oh @ [fh ! i]) | _ \<Rightarrow> row_hashes out)\<rparr>"

function merge_loop :: "MergeOp \<Rightarrow> 'k::linorder rows \<Rightarrow> 'k rows \<Rightarrow> nat \<Rightarrow> nat \<Rightarrow> 'k rows \<Rightarrow>
    nat \<times> nat \<times> 'k rows" where
  "merge_loop mop lhs rhs i j out =
     (if i < length (row_ids lhs) \<and> j < length (row_ids rhs) then
        if compositeLess (row_keys lhs) (row_ids lhs) i (row_keys rhs) (row_ids rhs) j then
          merge_loop mop lhs rhs (Suc i) j (if mop \<noteq> Intersect then emit lhs i out else out)
        else if compositeLess (row_keys rhs) (row_ids rhs) j (row_keys lhs) (row_ids lhs) i then
          merge_loop mop lhs rhs i (Suc j)
            (if mop = Union \<or> mop = SymmetricDifference then emit rhs j out else out)
        else
          merge_loop mop lhs rhs (Suc i) (Suc j)
            (if mop = Intersect \<or> mop = Union then emit lhs i out else out)
      else (i, j, out))"
  by pat_completeness auto
termination
  by (relation "measure (\<lambda>(mop, lhs, rhs, i, j, out).
        (length (row_ids lhs) - i) + (length (row_ids rhs) - j))") auto

function drain_left :: "MergeOp \<Rightarrow> 'k rows \<Rightarrow> nat \<Rightarrow> 'k rows \<Rightarrow> 'k rows" where
  "drain_left mop lhs i out =
     (if i < length (row_ids lhs)
      then drain_left mop lhs (Suc i) (if mop \<noteq> Intersect then emit lhs i out else out)
      else out)"
  by pat_completeness auto
termination
  by (relation "measure (\<lambda>(mop, lhs, i, out). length (row_ids lhs) - i)") auto

function drain_right :: "MergeOp \<Rightarrow> 'k rows \<Rightarrow> nat \<Rightarrow> 'k rows \<Rightarrow> 'k rows" where
  "drain_right mop rhs j out =
     (if j < length (row_ids rhs)
      then drain_right mop rhs (Suc j)
             (if mop = Union \<or> mop = SymmetricDifference then emit rhs j out else out)
      else out)"
  by pat_completeness auto
termination
  by (relation "measure (\<lambda>(mop, rhs, j, out). length (row_ids rhs) - j)") auto

definition merge_rows :: "MergeOp \<Rightarrow> 'k::linorder rows \<Rightarrow> 'k rows \<Rightarrow> 'k rows \<Rightarrow> 'k rows" where
  "merge_rows mop lhs rhs out =
     (let (i, j, out1) = merge_loop mop lhs rhs 0 0 out;
          out2 = drain_left mop lhs i out1
      in drain_right mop rhs j out2)"

text \<open>The visitor: operands of one column type are merged, any other pair is the \<open>std::logic_error\<close>.\<close>

datatype set_error = DifferentSortTypes

definition merge_typed :: "(('k list option) \<Rightarrow> 'r SortKeyColumn) \<Rightarrow> 'r search_set \<Rightarrow> 'r search_set \<Rightarrow>
    ('k::linorder) list option \<Rightarrow> 'k list option \<Rightarrow> MergeOp \<Rightarrow> bool \<Rightarrow> 'r search_set" where
  "merge_typed mk lhs rhs lk rk mop inverted =
     (let hashes = (if m_hashes lhs \<noteq> None \<or> m_hashes rhs \<noteq> None then Some [] else None);
          out = merge_rows mop
                  \<lparr>row_ids = m_ids lhs, row_keys = lk, row_hashes = m_hashes lhs\<rparr>
                  \<lparr>row_ids = m_ids rhs, row_keys = rk, row_hashes = m_hashes rhs\<rparr>
                  \<lparr>row_ids = [], row_keys = map_option (\<lambda>_. []) lk, row_hashes = hashes\<rparr>
      in \<lparr>m_ids = row_ids out, m_keys = mk (row_keys out), m_hashes = row_hashes out,
          m_inverted = inverted\<rparr>)"

definition column_of :: "('k list \<Rightarrow> 'r SortKeyColumn) \<Rightarrow> 'k list option \<Rightarrow> 'r SortKeyColumn" where
  "column_of con ks = (case ks of None \<Rightarrow> NoKeys | Some xs \<Rightarrow> con xs)"

fun merge_columns :: "'r::linorder search_set \<Rightarrow> 'r search_set \<Rightarrow> 'r SortKeyColumn \<Rightarrow> 'r SortKeyColumn \<Rightarrow>
    MergeOp \<Rightarrow> bool \<Rightarrow> (set_error, 'r search_set) result" where
  "merge_columns lhs rhs NoKeys NoKeys mop inverted =
     Inr (merge_typed (column_of IntKeys) lhs rhs None None mop inverted)"
| "merge_columns lhs rhs (IntKeys a) (IntKeys b) mop inverted =
     Inr (merge_typed (column_of IntKeys) lhs rhs (Some a) (Some b) mop inverted)"
| "merge_columns lhs rhs (RealKeys a) (RealKeys b) mop inverted =
     Inr (merge_typed (column_of RealKeys) lhs rhs (Some a) (Some b) mop inverted)"
| "merge_columns lhs rhs (HashKeys a) (HashKeys b) mop inverted =
     Inr (merge_typed (column_of HashKeys) lhs rhs (Some a) (Some b) mop inverted)"
| "merge_columns lhs rhs _ _ mop inverted = Inl DifferentSortTypes"

definition set_merge :: "'r::linorder search_set \<Rightarrow> 'r search_set \<Rightarrow> MergeOp \<Rightarrow> bool \<Rightarrow>
    (set_error, 'r search_set) result" where
  "set_merge lhs rhs mop inverted = merge_columns lhs rhs (m_keys lhs) (m_keys rhs) mop inverted"

definition set_and :: "'r::linorder search_set \<Rightarrow> 'r search_set \<Rightarrow> (set_error, 'r search_set) result" where
  "set_and s other =
     (if \<not> m_inverted s \<and> \<not> m_inverted other then set_merge s other Intersect False
      else if \<not> m_inverted s \<and> m_inverted other then set_merge s other Difference False
      else if m_inverted s \<and> \<not> m_inverted other then set_merge other s Difference False
      else set_merge s other Union True)"

definition set_or :: "'r::linorder search_set \<Rightarrow> 'r search_set \<Rightarrow> (set_error, 'r search_set) result" where
  "set_or s other =
     (if \<not> m_inverted s \<and> \<not> m_inverted other then set_merge s other Union False
      else if \<not> m_inverted s \<and> m_inverted other then set_merge other s Difference True
      else if m_inverted s \<and> \<not> m_inverted other then set_merge s other Difference True
      else set_merge s other Intersect True)"

definition set_xor :: "'r::linorder search_set \<Rightarrow> 'r search_set \<Rightarrow> (set_error, 'r search_set) result" where
  "set_xor s other = set_merge s other SymmetricDifference (m_inverted s \<noteq> m_inverted other)"

definition set_not :: "'r search_set \<Rightarrow> 'r search_set" where
  "set_not s = s\<lparr>m_inverted := \<not> m_inverted s\<rparr>"

text \<open>Operations on the finished result: reversal, shuffling by a permutation of the indices that the
  random generator drew, and cutting out one page.\<close>

fun map_column :: "('r list \<Rightarrow> 'r list) \<Rightarrow> (int list \<Rightarrow> int list) \<Rightarrow> (byte list list \<Rightarrow> byte list list) \<Rightarrow>
    'r SortKeyColumn \<Rightarrow> 'r SortKeyColumn" where
  "map_column fr fi fh NoKeys = NoKeys"
| "map_column fr fi fh (IntKeys a) = IntKeys (fi a)"
| "map_column fr fi fh (RealKeys a) = RealKeys (fr a)"
| "map_column fr fi fh (HashKeys a) = HashKeys (fh a)"

definition set_reverse :: "'r search_set \<Rightarrow> 'r search_set" where
  "set_reverse s = s\<lparr>m_ids := rev (m_ids s), m_keys := map_column rev rev rev (m_keys s),
                     m_hashes := map_option rev (m_hashes s)\<rparr>"

definition applyPermutation :: "nat list \<Rightarrow> 'a list \<Rightarrow> 'a list" where
  "applyPermutation ord values = map (\<lambda>i. values ! i) ord"

definition set_shuffle :: "nat list \<Rightarrow> 'r search_set \<Rightarrow> 'r search_set" where
  "set_shuffle ord s =
     (if length (m_ids s) < 2 then s
      else s\<lparr>m_ids := applyPermutation ord (m_ids s),
             m_hashes := map_option (applyPermutation ord) (m_hashes s),
             m_keys := map_column (applyPermutation ord) (applyPermutation ord) (applyPermutation ord)
               (m_keys s)\<rparr>)"

definition trim_page :: "nat \<Rightarrow> nat \<Rightarrow> 'a list \<Rightarrow> 'a list" where
  "trim_page offset fin values = drop offset (take fin values)"

definition set_slice :: "nat \<Rightarrow> nat option \<Rightarrow> 'r search_set \<Rightarrow> 'r search_set" where
  "set_slice offset limit s =
     (if offset \<ge> length (m_ids s)
      then s\<lparr>m_ids := [], m_keys := emptyColumnLike (m_keys s), m_hashes := map_option (\<lambda>_. []) (m_hashes s)\<rparr>
      else
        let remaining = length (m_ids s) - offset;
            kept = (case limit of Some l \<Rightarrow> min remaining l | None \<Rightarrow> remaining);
            fin = offset + kept
        in s\<lparr>m_ids := trim_page offset fin (m_ids s),
             m_hashes := map_option (trim_page offset fin) (m_hashes s),
             m_keys := map_column (trim_page offset fin) (trim_page offset fin) (trim_page offset fin)
               (m_keys s)\<rparr>)"

section \<open>Merging ordered id lists\<close>

text \<open>The reference for the index loops: a structural merge of two id lists under a strict order.\<close>

fun merge_ids :: "(int \<Rightarrow> int \<Rightarrow> bool) \<Rightarrow> MergeOp \<Rightarrow> int list \<Rightarrow> int list \<Rightarrow> int list" where
  "merge_ids lt mop [] ys = (if mop = Union \<or> mop = SymmetricDifference then ys else [])"
| "merge_ids lt mop (x # xs) [] = (if mop \<noteq> Intersect then x # xs else [])"
| "merge_ids lt mop (x # xs) (y # ys) =
     (if lt x y then (if mop \<noteq> Intersect then [x] else []) @ merge_ids lt mop xs (y # ys)
      else if lt y x then
        (if mop = Union \<or> mop = SymmetricDifference then [y] else []) @ merge_ids lt mop (x # xs) ys
      else (if mop = Intersect \<or> mop = Union then [x] else []) @ merge_ids lt mop xs ys)"

fun set_op :: "MergeOp \<Rightarrow> 'a set \<Rightarrow> 'a set \<Rightarrow> 'a set" where
  "set_op Intersect A B = A \<inter> B"
| "set_op Union A B = A \<union> B"
| "set_op Difference A B = A - B"
| "set_op SymmetricDifference A B = (A - B) \<union> (B - A)"

lemma set_merge_ids_subset: "set (merge_ids lt mop xs ys) \<subseteq> set xs \<union> set ys"
  by (induction lt mop xs ys rule: merge_ids.induct) auto

locale id_order =
  fixes lt :: "int \<Rightarrow> int \<Rightarrow> bool"
  assumes lt_irrefl: "\<not> lt x x"
    and lt_trans: "lt x y \<Longrightarrow> lt y z \<Longrightarrow> lt x z"
    and lt_total: "x \<noteq> y \<Longrightarrow> lt x y \<or> lt y x"
begin

lemma lt_asym: "lt x y \<Longrightarrow> \<not> lt y x"
  using lt_trans lt_irrefl by blast


lemma below_all: "sorted_wrt lt (y # ys) \<Longrightarrow> lt x y \<Longrightarrow> z \<in> set (y # ys) \<Longrightarrow> lt x z"
  using lt_trans by auto

lemma sorted_distinct: "sorted_wrt lt xs \<Longrightarrow> distinct xs"
  by (induction xs) (auto simp: lt_irrefl)

lemma order_cases:
  obtains (less) "lt x y" "\<not> lt y x" "x \<noteq> y" | (greater) "\<not> lt x y" "lt y x" "x \<noteq> y"
    | (equal) "\<not> lt x y" "\<not> lt y x" "x = y"
  using lt_total lt_asym lt_irrefl by metis

lemma set_merge_ids:
  "sorted_wrt lt xs \<Longrightarrow> sorted_wrt lt ys \<Longrightarrow>
   set (merge_ids lt mop xs ys) = set_op mop (set xs) (set ys)"
proof (induction xs arbitrary: ys)
  case Nil
  then show ?case by (cases mop) auto
next
  case (Cons x xs)
  note IHx = Cons.IH
  have sx: "sorted_wrt lt xs" and nx: "x \<notin> set xs" using Cons.prems(1) lt_irrefl by auto
  from Cons.prems show ?case
  proof (induction ys)
    case Nil
    then show ?case by (cases mop) auto
  next
    case (Cons y ys)
    have sy: "sorted_wrt lt ys" and ny: "y \<notin> set ys" using Cons.prems(2) lt_irrefl by auto
    show ?case
    proof (cases rule: order_cases[of x y])
      case less
      then have "x \<notin> set (y # ys)" using below_all[OF Cons.prems(2) less(1)] lt_irrefl by blast
      then show ?thesis using less IHx[OF sx Cons.prems(2)] nx by (cases mop) auto
    next
      case greater
      then have "y \<notin> set (x # xs)" using below_all[OF Cons.prems(1) greater(2)] lt_irrefl by blast
      then show ?thesis using greater Cons.IH[OF Cons.prems(1) sy] ny by (cases mop) auto
    next
      case equal
      then show ?thesis using IHx[OF sx sy] nx ny by (cases mop) auto
    qed
  qed
qed

lemma sorted_merge_ids:
  "sorted_wrt lt xs \<Longrightarrow> sorted_wrt lt ys \<Longrightarrow> sorted_wrt lt (merge_ids lt mop xs ys)"
proof (induction xs arbitrary: ys)
  case (Cons x xs)
  note IHx = Cons.IH
  have sx: "sorted_wrt lt xs" "\<forall>z \<in> set xs. lt x z" using Cons.prems(1) by auto
  from Cons.prems show ?case
  proof (induction ys)
    case (Cons y ys)
    have sy: "sorted_wrt lt ys" "\<forall>z \<in> set ys. lt y z" using Cons.prems(2) by auto
    show ?case
    proof (cases rule: order_cases[of x y])
      case less
      have "\<forall>z \<in> set (merge_ids lt mop xs (y # ys)). lt x z"
        using set_merge_ids_subset[of lt mop xs "y # ys"] sx below_all[OF Cons.prems(2) less(1)] by blast
      then show ?thesis using less IHx[OF sx(1) Cons.prems(2)] by (cases mop) auto
    next
      case greater
      have "\<forall>z \<in> set (merge_ids lt mop (x # xs) ys). lt y z"
        using set_merge_ids_subset[of lt mop "x # xs" ys] sy below_all[OF Cons.prems(1) greater(2)] by blast
      then show ?thesis using greater Cons.IH[OF Cons.prems(1) sy(1)] by (cases mop) auto
    next
      case equal
      have "\<forall>z \<in> set (merge_ids lt mop xs ys). lt x z"
        using set_merge_ids_subset[of lt mop xs ys] sx sy equal by blast
      then show ?thesis using equal IHx[OF sx(1) sy(1)] by (cases mop) auto
    qed
  qed simp
qed simp

end

text \<open>The composite order of the columns: by key, then by id.\<close>

definition key_less :: "(int \<Rightarrow> 'k::linorder) \<Rightarrow> int \<Rightarrow> int \<Rightarrow> bool" where
  "key_less f x y \<longleftrightarrow> f x < f y \<or> f x = f y \<and> x < y"

interpretation key_order: id_order "key_less f" for f :: "int \<Rightarrow> 'k::linorder"
  by unfold_locales (auto simp: key_less_def)

interpretation plain_order: id_order "(<) :: int \<Rightarrow> int \<Rightarrow> bool"
  by unfold_locales auto

section \<open>The index loops implement the reference merge\<close>

text \<open>Columns that agree with a key function and a hash function of the id.\<close>

definition rowset :: "(int \<Rightarrow> 'k) \<Rightarrow> bool \<Rightarrow> (int \<Rightarrow> byte list) \<Rightarrow> bool \<Rightarrow> int list \<Rightarrow> 'k rows" where
  "rowset f keyed h hashed ids =
     \<lparr>row_ids = ids, row_keys = (if keyed then Some (map f ids) else None),
      row_hashes = (if hashed then Some (map h ids) else None)\<rparr>"

definition row_less :: "(int \<Rightarrow> 'k::linorder) \<Rightarrow> bool \<Rightarrow> int \<Rightarrow> int \<Rightarrow> bool" where
  "row_less f keyed = (if keyed then key_less f else (<))"

lemma rowset_ids [simp]: "row_ids (rowset f keyed h hashed ids) = ids"
  by (simp add: rowset_def)

lemma emit_rowset [simp]:
  "i < length ids \<Longrightarrow> (ho \<Longrightarrow> hl) \<Longrightarrow>
   emit (rowset f keyed h hl ids) i (rowset f keyed h ho os) = rowset f keyed h ho (os @ [ids ! i])"
  by (auto simp: emit_def rowset_def)

lemma compositeLess_rowset [simp]:
  "i < length xs \<Longrightarrow> j < length ys \<Longrightarrow>
   compositeLess (row_keys (rowset f keyed h hl xs)) xs i (row_keys (rowset f keyed h hr ys)) ys j
     = row_less f keyed (xs ! i) (ys ! j)"
  by (auto simp: compositeLess_def rowset_def row_less_def key_less_def)

declare merge_loop.simps [simp del] drain_left.simps [simp del] drain_right.simps [simp del]

lemma drain_left_rowset:
  assumes "xs \<noteq> [] \<Longrightarrow> ho \<Longrightarrow> hl"
  shows "drain_left mop (rowset f keyed h hl xs) i (rowset f keyed h ho os)
       = rowset f keyed h ho (os @ (if mop \<noteq> Intersect then drop i xs else []))"
proof (induction "length xs - i" arbitrary: i os)
  case 0
  then show ?case by (subst drain_left.simps) simp
next
  case (Suc n)
  then have i: "i < length xs" by simp
  then have "ho \<Longrightarrow> hl" using assms by (cases xs) auto
  with i show ?case
    using Suc.hyps(1)[of "Suc i"] Suc.hyps(2)
    by (subst drain_left.simps) (auto simp flip: Cons_nth_drop_Suc)
qed

lemma drain_right_rowset:
  assumes "ys \<noteq> [] \<Longrightarrow> ho \<Longrightarrow> hr"
  shows "drain_right mop (rowset f keyed h hr ys) j (rowset f keyed h ho os)
       = rowset f keyed h ho (os @ (if mop = Union \<or> mop = SymmetricDifference then drop j ys else []))"
proof (induction "length ys - j" arbitrary: j os)
  case 0
  then show ?case by (subst drain_right.simps) simp
next
  case (Suc n)
  then have j: "j < length ys" by simp
  then have "ho \<Longrightarrow> hr" using assms by (cases ys) auto
  with j show ?case
    using Suc.hyps(1)[of "Suc j"] Suc.hyps(2)
    by (subst drain_right.simps) (auto simp flip: Cons_nth_drop_Suc)
qed

lemma merge_loop_rowset:
  assumes "xs \<noteq> [] \<Longrightarrow> ho \<Longrightarrow> hl" and "ys \<noteq> [] \<Longrightarrow> ho \<Longrightarrow> hr"
    and "merge_loop mop (rowset f keyed h hl xs) (rowset f keyed h hr ys) i j (rowset f keyed h ho os)
         = (i', j', out)"
  shows "drain_right mop (rowset f keyed h hr ys) j' (drain_left mop (rowset f keyed h hl xs) i' out)
       = rowset f keyed h ho (os @ merge_ids (row_less f keyed) mop (drop i xs) (drop j ys))"
  using assms(3)
proof (induction "(length xs - i) + (length ys - j)" arbitrary: i j os rule: less_induct)
  case less
  show ?case
  proof (cases "i < length xs \<and> j < length ys")
    case False
    then have "(i', j', out) = (i, j, rowset f keyed h ho os)"
      using less.prems[unfolded merge_loop.simps[of mop _ _ i j]] by (auto split: if_splits)
    moreover have "drop i xs = [] \<or> drop j ys = []" using False by auto
    ultimately show ?thesis
      using assms(1,2) by (cases "drop i xs") (auto simp: drain_left_rowset drain_right_rowset)
  next
    case True
    then have dx: "drop i xs = xs ! i # drop (Suc i) xs" and dy: "drop j ys = ys ! j # drop (Suc j) ys"
      by (simp_all add: Cons_nth_drop_Suc)
    have ne: "xs \<noteq> []" "ys \<noteq> []" using True by auto
    have dec: "length xs - Suc i + (length ys - j) < length xs - i + (length ys - j)"
      "length xs - i + (length ys - Suc j) < length xs - i + (length ys - j)"
      "length xs - Suc i + (length ys - Suc j) < length xs - i + (length ys - j)"
      using True by auto
    note prem = less.prems[unfolded merge_loop.simps[of mop _ _ i j]]
    consider (l) "row_less f keyed (xs ! i) (ys ! j)"
      | (r) "\<not> row_less f keyed (xs ! i) (ys ! j)" "row_less f keyed (ys ! j) (xs ! i)"
      | (b) "\<not> row_less f keyed (xs ! i) (ys ! j)" "\<not> row_less f keyed (ys ! j) (xs ! i)"
      by blast
    then show ?thesis
    proof cases
      case l
      then have "merge_loop mop (rowset f keyed h hl xs) (rowset f keyed h hr ys) (Suc i) j
          (rowset f keyed h ho (os @ (if mop \<noteq> Intersect then [xs ! i] else []))) = (i', j', out)"
        using prem True assms(1)[OF ne(1)] by (auto split: if_splits)
      from less.hyps[OF dec(1) this] show ?thesis using l by (auto simp: dx dy)
    next
      case r
      then have "merge_loop mop (rowset f keyed h hl xs) (rowset f keyed h hr ys) i (Suc j)
          (rowset f keyed h ho (os @ (if mop = Union \<or> mop = SymmetricDifference then [ys ! j] else [])))
          = (i', j', out)"
        using prem True assms(2)[OF ne(2)] by (auto split: if_splits)
      from less.hyps[OF dec(2) this] show ?thesis using r by (auto simp: dx dy)
    next
      case b
      then have "merge_loop mop (rowset f keyed h hl xs) (rowset f keyed h hr ys) (Suc i) (Suc j)
          (rowset f keyed h ho (os @ (if mop = Intersect \<or> mop = Union then [xs ! i] else [])))
          = (i', j', out)"
        using prem True assms(1)[OF ne(1)] by (auto split: if_splits)
      from less.hyps[OF dec(3) this] show ?thesis using b by (auto simp: dx dy)
    qed
  qed
qed

lemma merge_rows_rowset:
  assumes "xs \<noteq> [] \<Longrightarrow> ho \<Longrightarrow> hl" and "ys \<noteq> [] \<Longrightarrow> ho \<Longrightarrow> hr"
  shows "merge_rows mop (rowset f keyed h hl xs) (rowset f keyed h hr ys) (rowset f keyed h ho [])
       = rowset f keyed h ho (merge_ids (row_less f keyed) mop xs ys)"
proof -
  obtain i j out where l: "merge_loop mop (rowset f keyed h hl xs) (rowset f keyed h hr ys) 0 0
      (rowset f keyed h ho []) = (i, j, out)" by (metis prod_cases3)
  show ?thesis
    using merge_loop_rowset[OF assms l] by (simp add: merge_rows_def l)
qed

section \<open>Well-formed sets and what they denote\<close>

text \<open>What the database says of each record: its sort key in every key type, and its hash.\<close>

record 'r catalogue =
  int_key :: "int \<Rightarrow> int"
  real_key :: "int \<Rightarrow> 'r"
  hash_key :: "int \<Rightarrow> byte list"
  sha_of :: "int \<Rightarrow> byte list"

fun column_ok :: "'r catalogue \<Rightarrow> 'r SortKeyColumn \<Rightarrow> int list \<Rightarrow> bool" where
  "column_ok cat NoKeys ids = True"
| "column_ok cat (IntKeys a) ids = (a = map (int_key cat) ids)"
| "column_ok cat (RealKeys a) ids = (a = map (real_key cat) ids)"
| "column_ok cat (HashKeys a) ids = (a = map (hash_key cat) ids)"

fun id_less :: "'r::linorder catalogue \<Rightarrow> SortKeyType \<Rightarrow> int \<Rightarrow> int \<Rightarrow> bool" where
  "id_less cat None_key = (<)"
| "id_less cat Integer_key = key_less (int_key cat)"
| "id_less cat Real_key = key_less (real_key cat)"
| "id_less cat Hash_key = key_less (hash_key cat)"

definition hashes_ok :: "'r catalogue \<Rightarrow> 'r search_set \<Rightarrow> bool" where
  "hashes_ok cat s \<longleftrightarrow> (m_hashes s = None \<or> m_hashes s = Some (map (sha_of cat) (m_ids s)))"

definition set_wf :: "'r::linorder catalogue \<Rightarrow> 'r search_set \<Rightarrow> bool" where
  "set_wf cat s \<longleftrightarrow>
     column_ok cat (m_keys s) (m_ids s) \<and>
     sorted_wrt (id_less cat (columnType (m_keys s))) (m_ids s) \<and> hashes_ok cat s"

text \<open>Two operands of one search: same sort, and hashes fetched for both (a set without rows, such as
  \<open>emptyOf\<close>, carries no hashes to miss).\<close>

definition combinable :: "'r search_set \<Rightarrow> 'r search_set \<Rightarrow> bool" where
  "combinable l r \<longleftrightarrow>
     columnType (m_keys l) = columnType (m_keys r) \<and>
     (m_hashes l = None \<longrightarrow> m_hashes r = None \<or> m_ids l = []) \<and>
     (m_hashes r = None \<longrightarrow> m_hashes l = None \<or> m_ids r = [])"

definition denotes :: "'r search_set \<Rightarrow> int set" where
  "denotes s = (if m_inverted s then - set (m_ids s) else set (m_ids s))"

interpretation cat_order: id_order "id_less cat t" for cat :: "'r::linorder catalogue" and t
  by (unfold_locales; cases t)
    (use key_order.lt_irrefl key_order.lt_trans key_order.lt_total in \<open>auto, blast+\<close>)

lemma combinable_sym: "combinable l r \<Longrightarrow> combinable r l"
  by (auto simp: combinable_def)

lemma merge_typed_rowset:
  assumes h: "hashes_ok cat l" "hashes_ok cat r" and c: "combinable l r"
    and lk: "lk = (if keyed then Some (map f (m_ids l)) else None)"
    and rk: "rk = (if keyed then Some (map f (m_ids r)) else None)"
  shows "merge_typed mk l r lk rk mop inverted =
    (let ids = merge_ids (row_less f keyed) mop (m_ids l) (m_ids r)
     in \<lparr>m_ids = ids, m_keys = mk (if keyed then Some (map f ids) else None),
         m_hashes = (if m_hashes l \<noteq> None \<or> m_hashes r \<noteq> None then Some (map (sha_of cat) ids) else None),
         m_inverted = inverted\<rparr>)"
proof -
  let ?hl = "m_hashes l \<noteq> None" and ?hr = "m_hashes r \<noteq> None"
  have l: "\<lparr>row_ids = m_ids l, row_keys = lk, row_hashes = m_hashes l\<rparr>
      = rowset f keyed (sha_of cat) ?hl (m_ids l)"
    using h(1) by (auto simp: rowset_def lk hashes_ok_def)
  have r: "\<lparr>row_ids = m_ids r, row_keys = rk, row_hashes = m_hashes r\<rparr>
      = rowset f keyed (sha_of cat) ?hr (m_ids r)"
    using h(2) by (auto simp: rowset_def rk hashes_ok_def)
  have o: "\<lparr>row_ids = [], row_keys = map_option (\<lambda>_. []) lk,
        row_hashes = (if ?hl \<or> ?hr then Some [] else None)\<rparr>
      = rowset f keyed (sha_of cat) (?hl \<or> ?hr) []"
    by (auto simp: rowset_def lk)
  have "merge_rows mop (rowset f keyed (sha_of cat) ?hl (m_ids l)) (rowset f keyed (sha_of cat) ?hr (m_ids r))
      (rowset f keyed (sha_of cat) (?hl \<or> ?hr) [])
    = rowset f keyed (sha_of cat) (?hl \<or> ?hr) (merge_ids (row_less f keyed) mop (m_ids l) (m_ids r))"
    by (rule merge_rows_rowset) (use c in \<open>auto simp: combinable_def\<close>)
  then show ?thesis
    unfolding merge_typed_def Let_def l r o by (simp add: rowset_def)
qed

text \<open>Every merge of combinable well-formed sets yields a well-formed set with the expected ids.\<close>

lemma set_merge_correct:
  fixes l r :: "'r::linorder search_set"
  assumes wf: "set_wf cat l" "set_wf cat r" and c: "combinable l r"
  obtains out where "set_merge l r mop inverted = Inr out" and "set_wf cat out"
    and "columnType (m_keys out) = columnType (m_keys l)" and "m_inverted out = inverted"
    and "set (m_ids out) = set_op mop (set (m_ids l)) (set (m_ids r))"
    and "m_hashes out \<noteq> None \<longleftrightarrow> m_hashes l \<noteq> None \<or> m_hashes r \<noteq> None"
proof -
  define t where "t = columnType (m_keys l)"
  define ids where "ids = merge_ids (id_less cat t) mop (m_ids l) (m_ids r)"
  have tr: "columnType (m_keys r) = t" using c by (simp add: combinable_def t_def)
  have h: "hashes_ok cat l" "hashes_ok cat r" using wf by (simp_all add: set_wf_def)
  have so: "sorted_wrt (id_less cat t) (m_ids l)" "sorted_wrt (id_less cat t) (m_ids r)"
    using wf tr by (simp_all add: set_wf_def t_def)
  note typed = merge_typed_rowset[OF h c refl refl, where mop = mop and inverted = inverted]
  have "\<exists>out. set_merge l r mop inverted = Inr out \<and> m_ids out = ids \<and> column_ok cat (m_keys out) ids \<and>
      columnType (m_keys out) = t \<and> m_inverted out = inverted \<and>
      m_hashes out = (if m_hashes l \<noteq> None \<or> m_hashes r \<noteq> None then Some (map (sha_of cat) ids) else None)"
  proof (cases t)
    case None_key
    then have k: "m_keys l = NoKeys" "m_keys r = NoKeys"
      using tr by (cases "m_keys l"; cases "m_keys r"; simp add: t_def)+
    show ?thesis
      using typed[where keyed = False and f = "\<lambda>i. i"] None_key k
      by (auto simp: set_merge_def ids_def row_less_def column_of_def Let_def)
  next
    case Integer_key
    then obtain a b where k: "m_keys l = IntKeys a" "m_keys r = IntKeys b"
      using tr by (cases "m_keys l"; cases "m_keys r"; simp add: t_def)
    then have "a = map (int_key cat) (m_ids l)" "b = map (int_key cat) (m_ids r)"
      using wf by (simp_all add: set_wf_def)
    then show ?thesis
      using typed[where keyed = True and f = "int_key cat"] Integer_key k
      by (auto simp: set_merge_def ids_def row_less_def column_of_def Let_def)
  next
    case Real_key
    then obtain a b where k: "m_keys l = RealKeys a" "m_keys r = RealKeys b"
      using tr by (cases "m_keys l"; cases "m_keys r"; simp add: t_def)
    then have "a = map (real_key cat) (m_ids l)" "b = map (real_key cat) (m_ids r)"
      using wf by (simp_all add: set_wf_def)
    then show ?thesis
      using typed[where keyed = True and f = "real_key cat"] Real_key k
      by (auto simp: set_merge_def ids_def row_less_def column_of_def Let_def)
  next
    case Hash_key
    then obtain a b where k: "m_keys l = HashKeys a" "m_keys r = HashKeys b"
      using tr by (cases "m_keys l"; cases "m_keys r"; simp add: t_def)
    then have "a = map (hash_key cat) (m_ids l)" "b = map (hash_key cat) (m_ids r)"
      using wf by (simp_all add: set_wf_def)
    then show ?thesis
      using typed[where keyed = True and f = "hash_key cat"] Hash_key k
      by (auto simp: set_merge_def ids_def row_less_def column_of_def Let_def)
  qed
  then obtain out where o: "set_merge l r mop inverted = Inr out" "m_ids out = ids"
    "column_ok cat (m_keys out) ids" "columnType (m_keys out) = t" "m_inverted out = inverted"
    "m_hashes out = (if m_hashes l \<noteq> None \<or> m_hashes r \<noteq> None then Some (map (sha_of cat) ids) else None)"
    by blast
  have "set ids = set_op mop (set (m_ids l)) (set (m_ids r))"
    unfolding ids_def by (rule cat_order.set_merge_ids[OF so])
  moreover have "set_wf cat out"
    using o cat_order.sorted_merge_ids[OF so, of mop] by (simp add: set_wf_def hashes_ok_def ids_def)
  ultimately show thesis using that o by (auto simp: t_def)
qed

lemma column_ok_trim:
  "column_ok cat col ids \<Longrightarrow>
   column_ok cat (map_column (trim_page a b) (trim_page a b) (trim_page a b) col) (trim_page a b ids)"
  by (cases col) (simp_all add: trim_page_def take_map drop_map)

lemma column_ok_permute:
  "column_ok cat col ids \<Longrightarrow> \<forall>i \<in> set ord. i < length ids \<Longrightarrow>
   column_ok cat (map_column (applyPermutation ord) (applyPermutation ord) (applyPermutation ord) col)
     (applyPermutation ord ids)"
  by (cases col) (simp_all add: applyPermutation_def)

lemma column_ok_rev: "column_ok cat col ids \<Longrightarrow> column_ok cat (map_column rev rev rev col) (rev ids)"
  by (cases col) (simp_all add: rev_map)

lemma column_ok_empty: "column_ok cat (emptyColumnLike col) []"
  by (cases col) simp_all

lemma columnType_map [simp]: "columnType (map_column f g h col) = columnType col"
  by (cases col) simp_all

lemma columnType_like [simp]: "columnType (emptyColumnLike col) = columnType col"
  by (cases col) simp_all

lemma set_slice_ids [idhan_step]:
  "m_ids (set_slice offset limit s) =
     (case limit of None \<Rightarrow> drop offset (m_ids s) | Some n \<Rightarrow> take n (drop offset (m_ids s)))"
  by (auto simp: set_slice_def trim_page_def Let_def min_def drop_take split: option.split)

lemma set_slice_wf [idhan_step]:
  assumes "set_wf cat s"
  shows "set_wf cat (set_slice offset limit s)"
proof (cases "length (m_ids s) \<le> offset")
  case True
  with assms show ?thesis
    by (auto simp: set_slice_def set_wf_def column_ok_empty hashes_ok_def)
next
  case False
  define fin where "fin = offset + (case limit of Some l \<Rightarrow> min (length (m_ids s) - offset) l
    | None \<Rightarrow> length (m_ids s) - offset)"
  have "set_slice offset limit s = s\<lparr>m_ids := trim_page offset fin (m_ids s),
      m_hashes := map_option (trim_page offset fin) (m_hashes s),
      m_keys := map_column (trim_page offset fin) (trim_page offset fin) (trim_page offset fin) (m_keys s)\<rparr>"
    using False by (simp add: set_slice_def fin_def Let_def)
  then show ?thesis
    using assms column_ok_trim[of cat "m_keys s" "m_ids s" offset fin]
    by (auto simp: set_wf_def hashes_ok_def trim_page_def take_map drop_map sorted_wrt_take sorted_wrt_drop)
qed

lemma concat_pages:
  "concat (map (\<lambda>p. take n (drop (p * n) xs)) [0..<k]) = take (k * n) xs"
proof (induction k)
  case (Suc k)
  then show ?case by (simp add: take_add add.commute[of n "k * n"])
qed simp

lemma set_merge_denotes:
  fixes l r :: "'r::linorder search_set"
  assumes "set_wf cat l" and "set_wf cat r" and "combinable l r"
    and "(if inverted then - set_op mop (set (m_ids l)) (set (m_ids r))
          else set_op mop (set (m_ids l)) (set (m_ids r))) = D"
  shows "\<exists>out. set_merge l r mop inverted = Inr out \<and> set_wf cat out \<and> denotes out = D"
proof -
  obtain out where out: "set_merge l r mop inverted = Inr out" "set_wf cat out"
    "m_inverted out = inverted" "set (m_ids out) = set_op mop (set (m_ids l)) (set (m_ids r))"
    by (rule set_merge_correct[OF assms(1-3), of mop inverted])
  have "denotes out = D" unfolding denotes_def out(3,4) by (rule assms(4))
  with out(1,2) show ?thesis by blast
qed

lemma set_and_denotes:
  fixes l r :: "'r::linorder search_set"
  assumes "set_wf cat l" and "set_wf cat r" and "combinable l r"
  shows "\<exists>a. set_and l r = Inr a \<and> set_wf cat a \<and> denotes a = denotes l \<inter> denotes r"
proof (cases "m_inverted l"; cases "m_inverted r")
  assume "\<not> m_inverted l" "\<not> m_inverted r"
  then show ?thesis
    unfolding set_and_def by simp (rule set_merge_denotes[OF assms], simp add: denotes_def)
next
  assume "\<not> m_inverted l" "m_inverted r"
  then show ?thesis
    unfolding set_and_def by simp (rule set_merge_denotes[OF assms], auto simp: denotes_def)
next
  assume "m_inverted l" "\<not> m_inverted r"
  then show ?thesis
    unfolding set_and_def
    by simp (rule set_merge_denotes[OF assms(2,1) combinable_sym[OF assms(3)]], auto simp: denotes_def)
next
  assume "m_inverted l" "m_inverted r"
  then show ?thesis
    unfolding set_and_def by simp (rule set_merge_denotes[OF assms], simp add: denotes_def)
qed

lemma set_or_denotes:
  fixes l r :: "'r::linorder search_set"
  assumes "set_wf cat l" and "set_wf cat r" and "combinable l r"
  shows "\<exists>a. set_or l r = Inr a \<and> set_wf cat a \<and> denotes a = denotes l \<union> denotes r"
proof (cases "m_inverted l"; cases "m_inverted r")
  assume "\<not> m_inverted l" "\<not> m_inverted r"
  then show ?thesis
    unfolding set_or_def by simp (rule set_merge_denotes[OF assms], simp add: denotes_def)
next
  assume "\<not> m_inverted l" "m_inverted r"
  then show ?thesis
    unfolding set_or_def
    by simp (rule set_merge_denotes[OF assms(2,1) combinable_sym[OF assms(3)]], auto simp: denotes_def)
next
  assume "m_inverted l" "\<not> m_inverted r"
  then show ?thesis
    unfolding set_or_def by simp (rule set_merge_denotes[OF assms], auto simp: denotes_def)
next
  assume "m_inverted l" "m_inverted r"
  then show ?thesis
    unfolding set_or_def by simp (rule set_merge_denotes[OF assms], simp add: denotes_def)
qed

lemma set_xor_denotes:
  fixes l r :: "'r::linorder search_set"
  assumes "set_wf cat l" and "set_wf cat r" and "combinable l r"
  shows "\<exists>a. set_xor l r = Inr a \<and> set_wf cat a \<and>
           denotes a = (denotes l - denotes r) \<union> (denotes r - denotes l)"
  unfolding set_xor_def
  by (rule set_merge_denotes[OF assms])
    (cases "m_inverted l"; cases "m_inverted r"; simp add: denotes_def; blast)

lemma set_not_denotes: "set_wf cat l \<Longrightarrow> set_wf cat (set_not l) \<and> denotes (set_not l) = - denotes l"
  by (auto simp: set_not_def set_wf_def hashes_ok_def denotes_def)

section \<open>Properties\<close>

text \<open>C7. The search operators are the boolean algebra of record sets: on well-formed operands of one
  search, \<open>&\<close>, \<open>|\<close>, \<open>^\<close> and \<open>~\<close> return a set, never an error, that denotes the intersection, the union,
  the symmetric difference and the complement (with negation carried by the inverted flag in every
  combination), keeps ids ordered by sort key and then id, and keeps the key and hash columns aligned
  with the ids.\<close>

theorem search_operators_denote:
  fixes l r :: "'r::linorder search_set"
  assumes "set_wf cat l" and "set_wf cat r" and "combinable l r"
  shows "(\<exists>a. set_and l r = Inr a \<and> set_wf cat a \<and> denotes a = denotes l \<inter> denotes r) \<and>
    (\<exists>b. set_or l r = Inr b \<and> set_wf cat b \<and> denotes b = denotes l \<union> denotes r) \<and>
    (\<exists>c. set_xor l r = Inr c \<and> set_wf cat c \<and>
           denotes c = (denotes l - denotes r) \<union> (denotes r - denotes l)) \<and>
    set_wf cat (set_not l) \<and> denotes (set_not l) = - denotes l"
  using set_and_denotes[OF assms] set_or_denotes[OF assms] set_xor_denotes[OF assms]
    set_not_denotes[OF assms(1)] by blast

definition ex_cat :: "int catalogue" where
  "ex_cat = \<lparr>int_key = (\<lambda>i. - i), real_key = (\<lambda>i. i), hash_key = (\<lambda>i. [of_int i]), sha_of = (\<lambda>i. [of_int i])\<rparr>"

definition ex_set :: "int list \<Rightarrow> bool \<Rightarrow> int search_set" where
  "ex_set ids neg = \<lparr>m_ids = ids, m_keys = IntKeys (map uminus ids),
     m_hashes = Some (map (\<lambda>i. [of_int i]) ids), m_inverted = neg\<rparr>"

theorem search_operators_denote_witness:
  "\<exists>a. set_and (ex_set [5, 3, 1] False) (ex_set [4, 3] True) = Inr a \<and> denotes a = {5, 1}"
proof -
  have "set_wf ex_cat (ex_set [5, 3, 1] False)" "set_wf ex_cat (ex_set [4, 3] True)"
    "combinable (ex_set [5, 3, 1] False) (ex_set [4, 3] True)"
    by (simp_all add: ex_cat_def ex_set_def set_wf_def hashes_ok_def combinable_def key_less_def)
  note * = search_operators_denote[OF this]
  have "denotes (ex_set [5, 3, 1] False) \<inter> denotes (ex_set [4, 3] True) = {5, 1}"
    by (auto simp: denotes_def ex_set_def)
  with * show ?thesis by auto
qed

text \<open>C29. Combining sets built for different sort types is refused with the logic error by every binary
  operator, and combining sets of one sort type never is.\<close>

theorem search_operators_type_error:
  fixes l r :: "'r::linorder search_set"
  shows "(set_and l r = Inl DifferentSortTypes) = (columnType (m_keys l) \<noteq> columnType (m_keys r)) \<and>
    (set_or l r = Inl DifferentSortTypes) = (columnType (m_keys l) \<noteq> columnType (m_keys r)) \<and>
    (set_xor l r = Inl DifferentSortTypes) = (columnType (m_keys l) \<noteq> columnType (m_keys r))"
proof -
  have "(set_merge l r mop neg = Inl DifferentSortTypes) = (columnType (m_keys l) \<noteq> columnType (m_keys r))"
    for l r :: "'r search_set" and mop neg
    by (cases "m_keys l"; cases "m_keys r") (simp_all add: set_merge_def)
  then show ?thesis
    by (auto simp: set_and_def set_or_def set_xor_def)
qed

text \<open>Paging loses and repeats nothing: cutting a result into consecutive pages of any positive size
  and joining the pages gives the result back, every page is itself a well-formed result with aligned
  columns, and no page is longer than asked for.\<close>

theorem search_pages_partition:
  fixes s :: "'r::linorder search_set"
  assumes "set_wf cat s" and "0 < n"
  shows "concat (map (\<lambda>p. m_ids (set_slice (p * n) (Some n) s)) [0..<Suc (length (m_ids s) div n)]) = m_ids s \<and>
    (\<forall>p. set_wf cat (set_slice (p * n) (Some n) s) \<and> length (m_ids (set_slice (p * n) (Some n) s)) \<le> n)"
proof -
  have "length (m_ids s) \<le> Suc (length (m_ids s) div n) * n"
    using assms(2) by (metis add.commute div_mult_mod_eq less_imp_le mod_less_divisor
        add_le_cancel_right mult_Suc)
  then show ?thesis
    using assms concat_pages[of n "m_ids s" "Suc (length (m_ids s) div n)"]
    by (simp add: idhan_step del: upt_Suc mult_Suc)
qed

theorem search_pages_partition_witness:
  "map (\<lambda>p. m_ids (set_slice (p * 2) (Some 2) (ex_set [5, 3, 1] False))) [0..<2] = [[5, 3], [1]] \<and>
   concat (map (\<lambda>p. m_ids (set_slice (p * 2) (Some 2) (ex_set [5, 3, 1] False)))
     [0..<Suc (length (m_ids (ex_set [5, 3, 1] False)) div 2)]) = m_ids (ex_set [5, 3, 1] False)"
proof -
  have "set_wf ex_cat (ex_set [5, 3, 1] False)"
    by (simp add: ex_cat_def ex_set_def set_wf_def hashes_ok_def key_less_def)
  note * = search_pages_partition[OF this, of 2]
  have "map (\<lambda>p. m_ids (set_slice (p * 2) (Some 2) (ex_set [5, 3, 1] False))) [0..<2] = [[5, 3], [1]]"
    by (simp add: set_slice_ids ex_set_def upt_rec)
  with * show ?thesis by simp
qed

text \<open>Presenting a result: reversing it turns the ascending order into the descending one, and
  shuffling by any permutation of the indices keeps exactly the same records; both keep the key and
  hash columns aligned with the ids.\<close>

theorem search_presentation:
  fixes s :: "'r::linorder search_set"
  assumes "set_wf cat s" and "distinct ord" and "set ord = {0..<length (m_ids s)}"
  shows "sorted_wrt (\<lambda>x y. id_less cat (columnType (m_keys s)) y x) (m_ids (set_reverse s)) \<and>
    column_ok cat (m_keys (set_reverse s)) (m_ids (set_reverse s)) \<and> hashes_ok cat (set_reverse s) \<and>
    distinct (m_ids (set_shuffle ord s)) \<and> set (m_ids (set_shuffle ord s)) = set (m_ids s) \<and>
    column_ok cat (m_keys (set_shuffle ord s)) (m_ids (set_shuffle ord s)) \<and>
    hashes_ok cat (set_shuffle ord s)"
proof -
  have wf: "column_ok cat (m_keys s) (m_ids s)" "hashes_ok cat s"
    "sorted_wrt (id_less cat (columnType (m_keys s))) (m_ids s)"
    using assms(1) by (simp_all add: set_wf_def)
  have dist: "distinct (m_ids s)"
    by (rule cat_order.sorted_distinct[OF wf(3)])
  have "sorted_wrt (\<lambda>x y. id_less cat (columnType (m_keys s)) y x) (m_ids (set_reverse s))"
    using wf(3) by (simp add: set_reverse_def sorted_wrt_rev)
  moreover have "column_ok cat (m_keys (set_reverse s)) (m_ids (set_reverse s))" "hashes_ok cat (set_reverse s)"
    using wf column_ok_rev by (auto simp: set_reverse_def hashes_ok_def rev_map)
  moreover have "distinct (m_ids (set_shuffle ord s))"
    using dist assms(2,3) by (auto simp: set_shuffle_def applyPermutation_def distinct_map inj_on_def
        nth_eq_iff_index_eq)
  moreover have "set (m_ids (set_shuffle ord s)) = set (m_ids s)"
    using assms(3) by (simp add: set_shuffle_def applyPermutation_def nth_image)
  moreover have "column_ok cat (m_keys (set_shuffle ord s)) (m_ids (set_shuffle ord s))"
    using wf(1) column_ok_permute[OF wf(1), of ord] assms(3) by (auto simp: set_shuffle_def)
  moreover have "hashes_ok cat (set_shuffle ord s)"
    using wf(2) assms(3) by (auto simp: set_shuffle_def hashes_ok_def applyPermutation_def)
  ultimately show ?thesis by blast
qed

theorem search_presentation_witness:
  "set (m_ids (set_shuffle [2, 0, 1] (ex_set [5, 3, 1] False))) = {5, 3, 1} \<and>
   m_ids (set_reverse (ex_set [5, 3, 1] False)) = [1, 3, 5]"
proof -
  have "set_wf ex_cat (ex_set [5, 3, 1] False)"
    by (simp add: ex_cat_def ex_set_def set_wf_def hashes_ok_def key_less_def)
  moreover have "distinct [2, 0, 1 :: nat]" "set [2, 0, 1] = {0..<length (m_ids (ex_set [5, 3, 1] False))}"
    by (auto simp: ex_set_def)
  ultimately have "set (m_ids (set_shuffle [2, 0, 1] (ex_set [5, 3, 1] False))) = set (m_ids (ex_set [5, 3, 1] False))"
    using search_presentation by blast
  then show ?thesis by (simp add: ex_set_def set_reverse_def)
qed

end
