(* ===== verification/Search_Sort.thy ===== *)
theory Search_Sort
  imports Search_Set
begin

text \<open>
  The sort types of a search (\<open>SearchTypes.hpp\<close>) and the key each one sorts by (\<open>SortKey.cpp\<close>): which
  SQL expression supplies the key, which joins it needs, the type of the key column and whether
  records without a key are left out. \<open>hyToIDHANSortType\<close> maps the sorts of Hydrus clients onto them.
\<close>

datatype SortType =
    FILESIZE | IMPORT_TIME | RECORD_CREATION_TIME | FILE_MODIFIED_TIME | FILE_CREATED_TIME | MIME
  | HASH | RANDOM | DURATION | FRAMERATE | HAS_AUDIO | WIDTH | HEIGHT | RATIO | NUM_PIXELS | NUM_TAGS

text \<open>\<open>SortType::DEFAULT\<close> and \<open>SortType::UNSUPPORTED\<close> are aliases of \<open>FILESIZE\<close>.\<close>

abbreviation SORT_UNSUPPORTED :: SortType where
  "SORT_UNSUPPORTED \<equiv> FILESIZE"

datatype HydrusSortType =
    HY_FILESIZE | HY_DURATION | HY_IMPORT_TIME | HY_MIME | HY_RANDOM | HY_WIDTH | HY_HEIGHT | HY_RATIO
  | HY_NUM_PIXELS | HY_NUM_TAGS | HY_MEDIA_VIEWS | HY_MEDIA_VIEWTIME | HY_APPROX_BITRATE | HY_HAS_AUDIO
  | HY_FILE_MODIFIED_TIMESTAMP | HY_FRAMERATE | HY_NUM_FRAMES | HY_NUM_COLLECTION_FILES
  | HY_LAST_VIEWED_TIME | HY_ARCHIVED_TIMESTAMP | HY_HASH | HY_PIXEL_HASH | HY_BLURHASH

datatype HydrusDisplayType = STORED | DISPLAY

fun hyToIDHANSortType :: "HydrusSortType \<Rightarrow> SortType" where
  "hyToIDHANSortType HY_FILESIZE = FILESIZE"
| "hyToIDHANSortType HY_DURATION = DURATION"
| "hyToIDHANSortType HY_IMPORT_TIME = IMPORT_TIME"
| "hyToIDHANSortType HY_MIME = MIME"
| "hyToIDHANSortType HY_RANDOM = RANDOM"
| "hyToIDHANSortType HY_WIDTH = WIDTH"
| "hyToIDHANSortType HY_HEIGHT = HEIGHT"
| "hyToIDHANSortType HY_RATIO = RATIO"
| "hyToIDHANSortType HY_NUM_PIXELS = NUM_PIXELS"
| "hyToIDHANSortType HY_NUM_TAGS = NUM_TAGS"
| "hyToIDHANSortType HY_MEDIA_VIEWS = SORT_UNSUPPORTED"
| "hyToIDHANSortType HY_MEDIA_VIEWTIME = SORT_UNSUPPORTED"
| "hyToIDHANSortType HY_APPROX_BITRATE = SORT_UNSUPPORTED"
| "hyToIDHANSortType HY_HAS_AUDIO = HAS_AUDIO"
| "hyToIDHANSortType HY_FILE_MODIFIED_TIMESTAMP = FILE_MODIFIED_TIME"
| "hyToIDHANSortType HY_FRAMERATE = FRAMERATE"
| "hyToIDHANSortType HY_NUM_FRAMES = SORT_UNSUPPORTED"
| "hyToIDHANSortType HY_NUM_COLLECTION_FILES = SORT_UNSUPPORTED"
| "hyToIDHANSortType HY_LAST_VIEWED_TIME = SORT_UNSUPPORTED"
| "hyToIDHANSortType HY_ARCHIVED_TIMESTAMP = SORT_UNSUPPORTED"
| "hyToIDHANSortType HY_HASH = HASH"
| "hyToIDHANSortType HY_PIXEL_HASH = SORT_UNSUPPORTED"
| "hyToIDHANSortType HY_BLURHASH = SORT_UNSUPPORTED"

section \<open>Key expressions\<close>

definition resolution_joins :: string where
  "resolution_joins =
     '' LEFT JOIN image_metadata im USING (record_id)'' @
     '' LEFT JOIN video_metadata vm USING (record_id)'' @
     '' LEFT JOIN image_project_metadata ipm USING (record_id)''"

definition width_expr :: string where
  "width_expr = ''COALESCE(im.width, vm.width, ipm.width)::BIGINT''"

definition height_expr :: string where
  "height_expr = ''COALESCE(im.height, vm.height, ipm.height)::BIGINT''"

definition num_pixels_expr :: string where
  "num_pixels_expr =
     ''(COALESCE(im.width, vm.width, ipm.width)::BIGINT'' @
     '' * COALESCE(im.height, vm.height, ipm.height)::BIGINT)''"

definition ratio_expr :: string where
  "ratio_expr =
     ''(COALESCE(im.width, vm.width, ipm.width)::FLOAT'' @
     '' / NULLIF(COALESCE(im.height, vm.height, ipm.height), 0))''"

definition store_time_expr :: string where
  "store_time_expr = ''(EXTRACT(EPOCH FROM fi.cluster_store_time) * 1000000)::BIGINT''"

definition file_mtime_expr :: string where
  "file_mtime_expr = ''(EXTRACT(EPOCH FROM fi.file_mtime) * 1000000)::BIGINT''"

definition file_ctime_expr :: string where
  "file_ctime_expr = ''(EXTRACT(EPOCH FROM fi.file_ctime) * 1000000)::BIGINT''"

definition record_creation_time_expr :: string where
  "record_creation_time_expr = ''(EXTRACT(EPOCH FROM rc.creation_time) * 1000000)::BIGINT''"

definition records_join :: string where
  "records_join = '' JOIN records rc USING (record_id)''"

definition video_join :: string where
  "video_join = '' LEFT JOIN video_metadata vm USING (record_id)''"

definition duration_joins :: string where
  "duration_joins =
     '' LEFT JOIN video_metadata vm USING (record_id)'' @
     '' LEFT JOIN audio_metadata am USING (record_id)'' @
     '' LEFT JOIN animation_metadata anm USING (record_id)''"

definition num_tags_join :: string where
  "num_tags_join =
     '' LEFT JOIN (SELECT record_id, COUNT(DISTINCT tag_id) AS tag_count FROM ('' @
     '' SELECT record_id, COALESCE(ideal_tag_id, tag_id) AS tag_id FROM active_tag_mappings'' @
     '' UNION ALL SELECT record_id, tag_id FROM active_tag_mappings_parents'' @
     '' ) atm GROUP BY record_id) ntc USING (record_id)''"

definition stored_num_tags_join :: string where
  "stored_num_tags_join =
     '' LEFT JOIN (SELECT record_id, COUNT(DISTINCT tag_id) AS tag_count'' @
     '' FROM tag_mappings GROUP BY record_id) ntc USING (record_id)''"

record SortKeySpec =
  joins :: string
  expression :: string
  spec_type :: SortKeyType
  exclude_null :: bool

definition key_spec :: "string \<Rightarrow> string \<Rightarrow> SortKeyType \<Rightarrow> bool \<Rightarrow> SortKeySpec" where
  "key_spec j e t x = \<lparr>joins = j, expression = e, spec_type = t, exclude_null = x\<rparr>"

fun sortKeySpec :: "SortType \<Rightarrow> HydrusDisplayType \<Rightarrow> SortKeySpec" where
  "sortKeySpec FILESIZE _ = key_spec [] ''fi.size'' Integer_key False"
| "sortKeySpec IMPORT_TIME _ = key_spec [] store_time_expr Integer_key False"
| "sortKeySpec FILE_MODIFIED_TIME _ = key_spec [] file_mtime_expr Integer_key True"
| "sortKeySpec FILE_CREATED_TIME _ = key_spec [] file_ctime_expr Integer_key True"
| "sortKeySpec MIME _ = key_spec [] ''fi.mime_id::BIGINT'' Integer_key False"
| "sortKeySpec RECORD_CREATION_TIME _ = key_spec records_join record_creation_time_expr Integer_key False"
| "sortKeySpec HASH _ = key_spec records_join ''rc.sha256'' Hash_key False"
| "sortKeySpec DURATION _ =
     key_spec duration_joins ''COALESCE(vm.duration, am.duration, anm.duration)'' Real_key True"
| "sortKeySpec FRAMERATE _ = key_spec video_join ''COALESCE(vm.framerate, 0)'' Real_key False"
| "sortKeySpec HAS_AUDIO _ =
     key_spec video_join ''COALESCE(vm.has_audio::INT, 0)::BIGINT'' Integer_key False"
| "sortKeySpec WIDTH _ = key_spec resolution_joins width_expr Integer_key True"
| "sortKeySpec HEIGHT _ = key_spec resolution_joins height_expr Integer_key True"
| "sortKeySpec NUM_PIXELS _ = key_spec resolution_joins num_pixels_expr Integer_key True"
| "sortKeySpec RATIO _ = key_spec resolution_joins ratio_expr Real_key True"
| "sortKeySpec NUM_TAGS display =
     key_spec (if display = STORED then stored_num_tags_join else num_tags_join)
       ''COALESCE(ntc.tag_count, 0)'' Integer_key False"
| "sortKeySpec RANDOM _ = key_spec [] [] None_key False"

fun sortTypeName :: "SortType \<Rightarrow> string" where
  "sortTypeName FILESIZE = ''filesize''"
| "sortTypeName IMPORT_TIME = ''import time''"
| "sortTypeName FILE_MODIFIED_TIME = ''file modified time''"
| "sortTypeName FILE_CREATED_TIME = ''file created time''"
| "sortTypeName MIME = ''mime''"
| "sortTypeName RECORD_CREATION_TIME = ''record creation time''"
| "sortTypeName HASH = ''hash''"
| "sortTypeName DURATION = ''duration''"
| "sortTypeName FRAMERATE = ''framerate''"
| "sortTypeName HAS_AUDIO = ''has audio''"
| "sortTypeName WIDTH = ''width''"
| "sortTypeName HEIGHT = ''height''"
| "sortTypeName NUM_PIXELS = ''num pixels''"
| "sortTypeName RATIO = ''ratio''"
| "sortTypeName NUM_TAGS = ''num tags''"
| "sortTypeName RANDOM = ''random''"

definition describeSortKey :: "SortType \<Rightarrow> HydrusDisplayType \<Rightarrow> string" where
  "describeSortKey type display =
     (let spec = sortKeySpec type display
      in ''sort '' @ [CHR 0x27] @ sortTypeName type @ [CHR 0x27] @ '' key='' @
         (if expression spec = [] then ''<none>'' else expression spec) @ '' joins='' @
         (if joins spec = [] then ''<none>'' else joins spec) @ '' excludes_null_keys='' @
         (if exclude_null spec then ''true'' else ''false''))"

lemma sortTypeName_inject: "sortTypeName a = sortTypeName b \<longleftrightarrow> a = b"
  by (cases a; cases b; simp)

lemma columnType_empty [simp]: "columnType (emptyColumn t) = t"
  by (cases t) simp_all

lemma sortKeySpec_type_display: "spec_type (sortKeySpec t d) = spec_type (sortKeySpec t d')"
  by (cases t) (simp_all add: key_spec_def)

end
