(* ===== verification/Cpp_Text.thy ===== *)
theory Cpp_Text
  imports IDHAN_Prelude
begin

text \<open>
  The part of the C++ standard library's text handling that several components
  share: the ASCII character classes, \<^verbatim>\<open>std::from_chars\<close> at 64 bits, decimal
  printing as \<^verbatim>\<open>std::to_string\<close> does it, searching and trimming of
  \<^verbatim>\<open>std::string_view\<close>.  A \<^verbatim>\<open>std::string\<close> is a \<^typ>\<open>string\<close>, its bytes are the
  characters.
\<close>

section \<open>Characters\<close>

definition char_code :: "char \<Rightarrow> nat" where
  "char_code c = of_char c"

definition is_digit :: "char \<Rightarrow> bool" where
  "is_digit c \<longleftrightarrow> 48 \<le> char_code c \<and> char_code c \<le> 57"

definition digit_val :: "char \<Rightarrow> nat" where
  "digit_val c = char_code c - 48"

definition digit_char :: "nat \<Rightarrow> char" where
  "digit_char n = char_of (48 + n)"

definition to_lower :: "char \<Rightarrow> char" where
  "to_lower c = (if 65 \<le> char_code c \<and> char_code c \<le> 90 then char_of (char_code c + 32) else c)"

definition lowered :: "string \<Rightarrow> string" where
  "lowered s = map to_lower s"

definition to_upper :: "char \<Rightarrow> char" where
  "to_upper c = (if 97 \<le> char_code c \<and> char_code c \<le> 122 then char_of (char_code c - 32) else c)"

definition is_space :: "char \<Rightarrow> bool" where
  "is_space c \<longleftrightarrow> char_code c = 32 \<or> 9 \<le> char_code c \<and> char_code c \<le> 13"

section \<open>Searching and trimming\<close>

text \<open>\<^verbatim>\<open>s.substr(0, s.find(c))\<close>, and \<^verbatim>\<open>s.substr(s.find(c) + 1)\<close> where \<open>c\<close> occurs.\<close>

definition before :: "char \<Rightarrow> string \<Rightarrow> string" where
  "before c s = takeWhile (\<lambda>x. x \<noteq> c) s"

definition after :: "char \<Rightarrow> string \<Rightarrow> string option" where
  "after c s = (if c \<in> set s then Some (tl (dropWhile (\<lambda>x. x \<noteq> c) s)) else None)"

fun find_char :: "char \<Rightarrow> string \<Rightarrow> nat option" where
  "find_char c [] = None"
| "find_char c (x # xs) = (if x = c then Some 0 else map_option Suc (find_char c xs))"

definition starts_with :: "string \<Rightarrow> string \<Rightarrow> bool" where
  "starts_with s p \<longleftrightarrow> take (length p) s = p"

definition ends_with :: "string \<Rightarrow> string \<Rightarrow> bool" where
  "ends_with s p \<longleftrightarrow> length p \<le> length s \<and> drop (length s - length p) s = p"

definition trim_of :: "char list \<Rightarrow> string \<Rightarrow> string" where
  "trim_of cs s = rev (dropWhile (\<lambda>c. c \<in> set cs) (rev (dropWhile (\<lambda>c. c \<in> set cs) s)))"

definition blanks :: "char list" where
  "blanks = [CHR '' '', CHR 0x09]"

section \<open>Decimal numbers\<close>

definition dec_val :: "string \<Rightarrow> nat" where
  "dec_val s = foldl (\<lambda>acc c. 10 * acc + digit_val c) 0 s"

fun to_string :: "nat \<Rightarrow> string" where
  "to_string n = (if n < 10 then [digit_char n] else to_string (n div 10) @ [digit_char (n mod 10)])"

declare to_string.simps [simp del]

definition show_int :: "int \<Rightarrow> string" where
  "show_int i = (if i < 0 then CHR ''-'' # to_string (nat (- i)) else to_string (nat i))"

datatype errc = invalid_argument | result_out_of_range

text \<open>
  \<^verbatim>\<open>std::from_chars\<close> into an unsigned 64-bit integer: the longest digit prefix,
  without a sign, or the error it reports; the second component is the text from
  the returned pointer on.  For a signed integer a minus sign may come first.
\<close>

definition from_chars_u64 :: "string \<Rightarrow> (errc, nat) result \<times> string" where
  "from_chars_u64 s =
     (let ds = takeWhile is_digit s; rest = dropWhile is_digit s in
      if ds = [] then (Inl invalid_argument, s)
      else if dec_val ds < 2 ^ 64 then (Inr (dec_val ds), rest)
      else (Inl result_out_of_range, rest))"

definition from_chars_i64 :: "string \<Rightarrow> (errc, int) result \<times> string" where
  "from_chars_i64 s =
     (let neg = (s \<noteq> [] \<and> hd s = CHR ''-'');
          body = (if neg then tl s else s);
          ds = takeWhile is_digit body; rest = dropWhile is_digit body;
          v = (if neg then - int (dec_val ds) else int (dec_val ds)) in
      if ds = [] then (Inl invalid_argument, s)
      else if - (2 ^ 63) \<le> v \<and> v < 2 ^ 63 then (Inr v, rest)
      else (Inl result_out_of_range, rest))"

text \<open>The same at 32 bits, as \<^verbatim>\<open>from_chars\<close> into an \<^verbatim>\<open>int\<close> reports it.\<close>

definition from_chars_i32 :: "string \<Rightarrow> (errc, int) result \<times> string" where
  "from_chars_i32 s =
     (case from_chars_i64 s of
        (Inr v, rest) \<Rightarrow> if - (2 ^ 31) \<le> v \<and> v < 2 ^ 31 then (Inr v, rest) else (Inl result_out_of_range, rest)
      | (Inl e, rest) \<Rightarrow> (Inl e, rest))"

definition find_sub :: "string \<Rightarrow> string \<Rightarrow> nat option" where
  "find_sub p s = List.find (\<lambda>i. starts_with (drop i s) p) [0..<Suc (length s)]"

section \<open>Lemmas\<close>

lemma char_code_bound [simp]: "char_code c < 256"
  by (simp add: char_code_def)

lemma char_code_char_of [simp]: "n < 256 \<Longrightarrow> char_code (char_of n) = n"
  by (simp add: char_code_def)

lemma char_of_char_code [simp]: "char_of (char_code c) = c"
  by (simp add: char_code_def)

lemma char_code_eq_iff: "char_code a = char_code b \<longleftrightarrow> a = b"
  by (metis char_of_char_code)

lemma digit_val_digit_char [simp]: "n < 10 \<Longrightarrow> digit_val (digit_char n) = n"
  by (simp add: digit_val_def digit_char_def)

lemma is_digit_digit_char [simp]: "n < 10 \<Longrightarrow> is_digit (digit_char n)"
  by (simp add: is_digit_def digit_char_def)

lemma digit_val_less [simp]: "is_digit c \<Longrightarrow> digit_val c < 10"
  by (auto simp: is_digit_def digit_val_def)

lemma to_lower_idem [simp]: "to_lower (to_lower c) = to_lower c"
  by (simp add: to_lower_def)

lemma lowered_idem [simp]: "lowered (lowered s) = lowered s"
  by (simp add: lowered_def)

lemma lowered_append [simp]: "lowered (a @ b) = lowered a @ lowered b"
  by (simp add: lowered_def)

lemma length_lowered [simp]: "length (lowered s) = length s"
  by (simp add: lowered_def)

lemma dec_val_snoc [simp]: "dec_val (s @ [c]) = 10 * dec_val s + digit_val c"
  by (simp add: dec_val_def)

lemma dec_val_Nil [simp]: "dec_val [] = 0"
  by (simp add: dec_val_def)

lemma to_string_digits: "list_all is_digit (to_string n)"
proof (induction n rule: to_string.induct)
  case (1 n)
  then show ?case by (subst to_string.simps) auto
qed

lemma to_string_nonempty [simp]: "to_string n \<noteq> []"
  by (subst to_string.simps) simp

lemma dec_val_to_string [simp]: "dec_val (to_string n) = n"
proof (induction n rule: to_string.induct)
  case (1 n)
  show ?case
  proof (cases "n < 10")
    case True
    then show ?thesis by (subst to_string.simps) (simp add: dec_val_def)
  next
    case False
    with 1 show ?thesis by (subst to_string.simps) simp
  qed
qed

lemma takeWhile_digits:
  assumes "list_all is_digit ds" and "rest = [] \<or> \<not> is_digit (hd rest)"
  shows "takeWhile is_digit (ds @ rest) = ds" and "dropWhile is_digit (ds @ rest) = rest"
  using assms by (induction ds; cases rest; auto)+

lemma from_chars_to_string:
  assumes "n < 2 ^ 64" and "rest = [] \<or> \<not> is_digit (hd rest)"
  shows "from_chars_u64 (to_string n @ rest) = (Inr n, rest)"
  using takeWhile_digits [OF to_string_digits assms(2), of n] assms(1)
  by (simp add: from_chars_u64_def Let_def)

lemma hd_to_string: "is_digit (hd (to_string n))"
  using to_string_digits [of n] by (cases "to_string n") auto

lemma from_chars_show_int:
  assumes "- (2 ^ 63) \<le> i" and "i < 2 ^ 63" and "rest = [] \<or> \<not> is_digit (hd rest)"
  shows "from_chars_i64 (show_int i @ rest) = (Inr i, rest)"
proof -
  have no_minus: "hd (to_string n @ rest) \<noteq> CHR ''-''" for n
    using hd_to_string [of n] by (auto simp: is_digit_def char_code_def)
  show ?thesis
    using assms(1,2) takeWhile_digits [OF to_string_digits assms(3)] no_minus
    by (auto simp: from_chars_i64_def show_int_def Let_def)
qed

lemma from_chars_u64_bound: "from_chars_u64 s = (Inr n, rest) \<Longrightarrow> n < 2 ^ 64"
  by (auto simp: from_chars_u64_def Let_def split: if_splits)

lemma find_char_None: "find_char c s = None \<longleftrightarrow> c \<notin> set s"
  by (induction s) auto

lemma find_char_Some:
  "find_char c s = Some i \<longleftrightarrow> i < length s \<and> s ! i = c \<and> c \<notin> set (take i s)"
proof (induction s arbitrary: i)
  case Nil
  then show ?case by simp
next
  case (Cons x xs)
  then show ?case by (cases i) (auto split: option.splits)
qed

lemma find_char_append:
  "c \<notin> set a \<Longrightarrow> find_char c (a @ c # b) = Some (length a)"
  by (induction a) auto

lemma starts_with_append [simp]: "starts_with (p @ s) p"
  by (simp add: starts_with_def)

lemma starts_with_iff: "starts_with s p \<longleftrightarrow> (\<exists>t. s = p @ t)"
  by (metis append_take_drop_id append_eq_conv_conj starts_with_def)

lemma ends_with_iff: "ends_with s p \<longleftrightarrow> (\<exists>t. s = t @ p)"
  by (auto simp: ends_with_def) (metis append_take_drop_id)

lemma before_append [simp]: "c \<notin> set a \<Longrightarrow> before c (a @ c # b) = a"
  by (simp add: before_def takeWhile_append)

lemma before_none [simp]: "c \<notin> set a \<Longrightarrow> before c a = a"
  by (induction a) (auto simp: before_def)

lemma after_append [simp]: "c \<notin> set a \<Longrightarrow> after c (a @ c # b) = Some b"
  by (auto simp: after_def dropWhile_append)

lemma after_none [simp]: "c \<notin> set a \<Longrightarrow> after c a = None"
  by (simp add: after_def)

lemma after_shorter: "after c s = Some r \<Longrightarrow> length r < length s"
proof -
  assume "after c s = Some r"
  then have "r = tl (dropWhile (\<lambda>x. x \<noteq> c) s)" "s \<noteq> []" by (auto simp: after_def split: if_splits)
  moreover have "length (dropWhile (\<lambda>x. x \<noteq> c) s) \<le> length s" by (rule length_dropWhile_le)
  ultimately show ?thesis by (cases s) auto
qed

lemma before_after: "after c s = Some r \<Longrightarrow> s = before c s @ c # r"
  by (induction s) (auto simp: after_def before_def split: if_splits)

end
