(* ===== verification/Lane_Policy.thy ===== *)
theory Lane_Policy
  imports Cpp_Text
begin

text \<open>
  The request policy of one downloader lane (\<^verbatim>\<open>http/LanePolicy.cpp\<close>): when the
  next request may start, how failures widen the interval, and how a host's
  \<^verbatim>\<open>Retry-After\<close> pauses the lane.  Durations and time points are nanosecond counts
  in \<^typ>\<open>int\<close>; \<open>time_max\<close> is the largest count the 64-bit representation holds and the
  theorem on representability shows that the code's arithmetic stays below it.
  Two computations are parameters: \<open>ratio_ns s r\<close>, the \<^verbatim>\<open>long double\<close> quotient
  \<^verbatim>\<open>s / r\<close> seconds cast to nanoseconds, and \<open>http_date\<close>, \<^verbatim>\<open>std::get_time\<close> followed by
  \<^verbatim>\<open>timegm\<close>, giving the timestamp and the unread text.
\<close>

section \<open>Settings and state\<close>

record RequestRate =
  requests :: nat
  seconds :: nat

datatype HttpVersion = HTTP_1_1 | HTTP_2 | HTTP_3

record LaneSettings =
  rate :: "RequestRate option"
  bytes_per_second :: nat
  keep_alive :: int
  error_backoff :: int
  concurrency :: nat
  http_version :: "HttpVersion option"
  lane_group :: "string option"

record LanePolicy =
  p_key :: string
  p_settings :: LaneSettings
  base_interval :: int
  interval :: int
  maximum_interval :: int
  error_pause :: int
  next_request :: int
  backoff_until :: int
  consecutive_failures :: u32
  generation :: u64
  advertised_limits :: string

record LaneSnapshot =
  s_key :: string
  s_group :: "string option"
  rate_requests :: nat
  rate_seconds :: nat
  s_throttled :: bool
  effective_interval :: int
  remaining :: int
  s_failures :: u32
  backed_off :: bool
  in_flight :: nat
  queued :: nat
  shards :: nat
  s_bytes_per_second :: nat
  download_bytes_per_second :: nat
  s_advertised :: string
  active :: bool

datatype policy_error = BadRate | BadMaximum

definition ns_per_second :: int where
  "ns_per_second = 1000000000"

definition time_max :: int where
  "time_max = 2 ^ 63 - 1"

section \<open>Operations\<close>

definition intervalFor :: "(nat \<Rightarrow> nat \<Rightarrow> int) \<Rightarrow> RequestRate \<Rightarrow> (policy_error, int) result" where
  "intervalFor ratio_ns r =
     (if requests r = 0 \<or> seconds r = 0 then Inl BadRate
      else Inr (max (ratio_ns (seconds r) (requests r)) 1))"

definition configured :: "LaneSettings \<Rightarrow> int \<Rightarrow> LanePolicy \<Rightarrow> LanePolicy" where
  "configured s i p = p\<lparr>p_settings := s, base_interval := i, interval := i,
     error_pause := error_backoff s * ns_per_second, next_request := 0, backoff_until := 0,
     consecutive_failures := 0, generation := generation p + 1\<rparr>"

definition configure ::
  "(nat \<Rightarrow> nat \<Rightarrow> int) \<Rightarrow> LaneSettings \<Rightarrow> LanePolicy \<Rightarrow> (policy_error, LanePolicy) result" where
  "configure ratio_ns s p =
     (case rate s of
        None \<Rightarrow> Inr (configured s 0 p)
      | Some r \<Rightarrow> (case intervalFor ratio_ns r of
                    Inl e \<Rightarrow> Inl e
                  | Inr i \<Rightarrow> Inr (configured s i p)))"

definition defaultSettings :: LaneSettings where
  "defaultSettings = \<lparr>rate = None, bytes_per_second = 0, keep_alive = 30, error_backoff = 30,
     concurrency = 0, http_version = None, lane_group = None\<rparr>"

definition blankPolicy :: "string \<Rightarrow> int \<Rightarrow> LanePolicy" where
  "blankPolicy key maximum =
     \<lparr>p_key = key, p_settings = defaultSettings, base_interval = 0, interval = 0,
      maximum_interval = maximum, error_pause = 0, next_request = 0, backoff_until = 0,
      consecutive_failures = 0, generation = 0, advertised_limits = []\<rparr>"

definition newPolicy ::
  "(nat \<Rightarrow> nat \<Rightarrow> int) \<Rightarrow> string \<Rightarrow> LaneSettings \<Rightarrow> int \<Rightarrow> (policy_error, LanePolicy) result" where
  "newPolicy ratio_ns key s maximum =
     (if maximum \<le> 0 then Inl BadMaximum
      else configure ratio_ns s (blankPolicy key maximum))"

definition throttled :: "LanePolicy \<Rightarrow> bool" where
  "throttled p = (rate (p_settings p) \<noteq> None)"

definition lane_concurrency :: "nat \<Rightarrow> nat \<Rightarrow> LanePolicy \<Rightarrow> nat" where
  "lane_concurrency unthrottled_default throttled_default p =
     (if concurrency (p_settings p) \<noteq> 0 then concurrency (p_settings p)
      else if throttled p then throttled_default else unthrottled_default)"

definition claim :: "int \<Rightarrow> LanePolicy \<Rightarrow> int option \<times> LanePolicy" where
  "claim now p =
     (if next_request p > now then (Some (next_request p - now), p)
      else let following = next_request p + interval p in
        (None, p\<lparr>next_request := (if following > now then following else now + interval p)\<rparr>))"

definition widen :: "LanePolicy \<Rightarrow> LanePolicy" where
  "widen p =
     (let widened = (if interval p = 0 then ns_per_second else interval p * 2) in
      p\<lparr>interval := min (maximum_interval p) (max (base_interval p) widened),
        consecutive_failures :=
          (if consecutive_failures p \<noteq> - 1 then consecutive_failures p + 1
           else consecutive_failures p)\<rparr>)"

definition openPause :: "int \<Rightarrow> LanePolicy \<Rightarrow> int \<times> LanePolicy" where
  "openPause now p =
     (if now < backoff_until p then (0, p)
      else let w = widen p in (max (interval w) (error_pause w), w))"

definition pause :: "int \<Rightarrow> int \<Rightarrow> LanePolicy \<Rightarrow> LanePolicy" where
  "pause cooldown now p =
     (let until = max (backoff_until p) (now + min cooldown (time_max - now)) in
      p\<lparr>backoff_until := until, next_request := max (next_request p) until\<rparr>)"

definition parseRetryAfter :: "(string \<Rightarrow> (int \<times> string) option) \<Rightarrow> string \<Rightarrow> int \<Rightarrow> int option" where
  "parseRetryAfter http_date text now =
     (let v = trim_of blanks text in
      case from_chars_u64 v of
        (Inr n, []) \<Rightarrow> Some (min (int n) time_max)
      | _ \<Rightarrow>
        (case http_date v of
           None \<Rightarrow> None
         | Some (timestamp, unread) \<Rightarrow>
             if \<not> list_all (\<lambda>c. c \<in> set (CHR '' '' # map char_of [9 :: nat, 10, 11, 12, 13])) unread
             then None
             else if timestamp = - 1 then None
             else if timestamp * ns_per_second \<le> now then Some 0
             else Some ((timestamp * ns_per_second - now + (ns_per_second - 1)) div ns_per_second)))"

definition limited ::
  "(string \<Rightarrow> (int \<times> string) option) \<Rightarrow> string option \<Rightarrow> int \<Rightarrow> int \<Rightarrow> LanePolicy \<Rightarrow> int \<times> LanePolicy"
where
  "limited http_date retry_after now wall_time p =
     (let parsed = Option.bind retry_after (\<lambda>v. parseRetryAfter http_date v wall_time);
          (opened, w) = openPause now p;
          cooldown = (case parsed of
              None \<Rightarrow> opened
            | Some s \<Rightarrow> max (base_interval w) (min s (time_max div ns_per_second) * ns_per_second));
          q = pause cooldown now w in
      (backoff_until q - now, q))"

definition failed :: "int \<Rightarrow> LanePolicy \<Rightarrow> LanePolicy" where
  "failed now p = (let (cooldown, w) = openPause now p in pause cooldown now w)"

definition advertised :: "string \<Rightarrow> LanePolicy \<Rightarrow> LanePolicy" where
  "advertised headers p = p\<lparr>advertised_limits := headers\<rparr>"

definition reset :: "LanePolicy \<Rightarrow> LanePolicy" where
  "reset p = p\<lparr>interval := base_interval p, next_request := 0, backoff_until := 0,
     consecutive_failures := 0, generation := generation p + 1\<rparr>"

definition fill :: "int \<Rightarrow> LanePolicy \<Rightarrow> LaneSnapshot \<Rightarrow> LaneSnapshot" where
  "fill now p snap = snap\<lparr>
     s_key := p_key p,
     s_group := lane_group (p_settings p),
     rate_requests := (case rate (p_settings p) of Some r \<Rightarrow> requests r | None \<Rightarrow> 0),
     rate_seconds := (case rate (p_settings p) of Some r \<Rightarrow> seconds r | None \<Rightarrow> 0),
     s_throttled := (rate (p_settings p) \<noteq> None),
     effective_interval := interval p,
     remaining := max 0 (next_request p - now),
     s_failures := consecutive_failures p,
     backed_off := (interval p > base_interval p \<or> consecutive_failures p > 0),
     s_bytes_per_second := bytes_per_second (p_settings p),
     s_advertised := advertised_limits p\<rparr>"

section \<open>Histories\<close>

text \<open>
  What a lane does with its policy over time.  Each public member function is one
  event; \<open>policy_run\<close> collects the times at which a claim was granted.
\<close>

datatype policy_event =
    Claim int
  | Limited "string option" int int
  | Failed int
  | Advertised string
  | Reset
  | Configure LaneSettings

fun policy_step ::
  "(nat \<Rightarrow> nat \<Rightarrow> int) \<Rightarrow> (string \<Rightarrow> (int \<times> string) option) \<Rightarrow> policy_event \<Rightarrow> LanePolicy \<Rightarrow> LanePolicy"
where
  "policy_step q g (Claim now) p = snd (claim now p)"
| "policy_step q g (Limited ra now wall) p = snd (limited g ra now wall p)"
| "policy_step q g (Failed now) p = failed now p"
| "policy_step q g (Advertised h) p = advertised h p"
| "policy_step q g Reset p = reset p"
| "policy_step q g (Configure s) p = (case configure q s p of Inl _ \<Rightarrow> p | Inr p' \<Rightarrow> p')"

definition policy_after ::
  "(nat \<Rightarrow> nat \<Rightarrow> int) \<Rightarrow> (string \<Rightarrow> (int \<times> string) option) \<Rightarrow> policy_event list \<Rightarrow> LanePolicy \<Rightarrow> LanePolicy"
where
  "policy_after q g evs p = fold (policy_step q g) evs p"

fun grant_of :: "policy_event \<Rightarrow> LanePolicy \<Rightarrow> int list" where
  "grant_of (Claim now) p = (case fst (claim now p) of None \<Rightarrow> [now] | Some _ \<Rightarrow> [])"
| "grant_of _ p = []"

fun policy_grants ::
  "(nat \<Rightarrow> nat \<Rightarrow> int) \<Rightarrow> (string \<Rightarrow> (int \<times> string) option) \<Rightarrow> policy_event list \<Rightarrow> LanePolicy \<Rightarrow> int list"
where
  "policy_grants q g [] p = []"
| "policy_grants q g (e # es) p = grant_of e p @ policy_grants q g es (policy_step q g e p)"

text \<open>The policy a lane has after a history of events since its construction.\<close>

definition lane_at ::
  "(nat \<Rightarrow> nat \<Rightarrow> int) \<Rightarrow> (string \<Rightarrow> (int \<times> string) option) \<Rightarrow> string \<Rightarrow> LaneSettings \<Rightarrow> int \<Rightarrow>
   policy_event list \<Rightarrow> (policy_error, LanePolicy) result"
where
  "lane_at q g key s M hist =
     (case newPolicy q key s M of Inl e \<Rightarrow> Inl e | Inr p \<Rightarrow> Inr (policy_after q g hist p))"

text \<open>Events that neither clear the backoff nor change the settings.\<close>

fun keeps_backoff :: "policy_event \<Rightarrow> bool" where
  "keeps_backoff Reset = False"
| "keeps_backoff (Configure s) = False"
| "keeps_backoff _ = True"

text \<open>The interval the policy means to use after \<open>f\<close> failed pauses.\<close>

definition backoff_interval :: "int \<Rightarrow> int \<Rightarrow> nat \<Rightarrow> int" where
  "backoff_interval base maximum f =
     (if f = 0 then base
      else if base = 0 then min maximum (ns_per_second * 2 ^ (f - 1))
      else min maximum (base * 2 ^ f))"

definition policy_ok :: "LanePolicy \<Rightarrow> bool" where
  "policy_ok p \<longleftrightarrow> 0 \<le> base_interval p \<and> 0 < maximum_interval p
     \<and> maximum_interval p \<le> time_max \<and> backoff_until p \<le> next_request p
     \<and> interval p = backoff_interval (base_interval p) (maximum_interval p) (unat (consecutive_failures p))"

section \<open>The closed form of the backoff\<close>

lemmas policy_ops = claim_def widen_def openPause_def pause_def limited_def failed_def
  advertised_def reset_def Let_def

lemma backoff_interval_Suc:
  assumes "0 \<le> b" and "0 < M"
  shows "min M (max b (if backoff_interval b M f = 0 then ns_per_second else backoff_interval b M f * 2))
    = backoff_interval b M (Suc f)"
proof (cases "b = 0 \<or> f = 0")
  case True
  then show ?thesis
    using assms by (cases f) (auto simp: backoff_interval_def ns_per_second_def min_def max_def)
next
  case False
  then have pos: "0 < b" "0 < f" using assms by auto
  define X where "X = b * 2 ^ f"
  have "b * 1 \<le> X" unfolding X_def using pos by (intro mult_left_mono) auto
  moreover have "backoff_interval b M f = min M X" "backoff_interval b M (Suc f) = min M (X * 2)"
    using pos by (auto simp: backoff_interval_def X_def)
  ultimately show ?thesis
    using pos assms by (auto simp: min_def max_def)
qed

lemma backoff_interval_saturated:
  assumes "0 \<le> b" and "M \<le> time_max" and "64 \<le> f"
  shows "backoff_interval b M f = M"
proof -
  have pow: "(2 :: int) ^ 63 \<le> 2 ^ (f - 1)" using assms(3) by (intro power_increasing) auto
  have "(2 :: int) ^ 63 \<le> 2 ^ f" using assms(3) by (intro power_increasing) auto
  also have "1 * 2 ^ f \<le> b * 2 ^ f" if "b \<noteq> 0"
    using that assms(1) by (intro mult_right_mono) auto
  finally have "M \<le> b * 2 ^ f" if "b \<noteq> 0" using that assms(2) by (simp add: time_max_def)
  then show ?thesis
    using assms pow by (auto simp: backoff_interval_def time_max_def ns_per_second_def)
qed

lemma backoff_interval_le:
  assumes "0 \<le> b" and "b \<le> M"
  shows "b \<le> backoff_interval b M f" and "backoff_interval b M f \<le> M"
proof -
  have "b * 1 \<le> b * 2 ^ f" using assms by (intro mult_left_mono) auto
  then show "b \<le> backoff_interval b M f"
    using assms by (auto simp: backoff_interval_def ns_per_second_def)
  show "backoff_interval b M f \<le> M"
    using assms by (auto simp: backoff_interval_def)
qed

lemma backoff_interval_nonneg:
  assumes "0 \<le> b" and "0 < M"
  shows "0 \<le> backoff_interval b M f"
  using assms by (auto simp: backoff_interval_def ns_per_second_def)

lemma unat_saturated: "unat (- 1 :: u32) = 4294967295"
  by (simp add: unsigned_minus_1_eq_mask mask_eq_exp_minus_1)

lemma unat_Suc_failures: "(f :: u32) \<noteq> - 1 \<Longrightarrow> unat (f + 1) = Suc (unat f)"
  by (metis add.inverse_inverse add.commute add_eq_0_iff unatSuc)

lemma widen_fields [simp]:
  "base_interval (widen p) = base_interval p"
  "maximum_interval (widen p) = maximum_interval p"
  "error_pause (widen p) = error_pause p"
  "next_request (widen p) = next_request p"
  "backoff_until (widen p) = backoff_until p"
  by (simp_all add: widen_def Let_def)

lemma widen_ok:
  assumes "policy_ok p"
  shows "policy_ok (widen p)"
proof (cases "consecutive_failures p = - 1")
  case True
  then have "64 \<le> unat (consecutive_failures p)" by (simp add: unat_saturated)
  then have full: "interval p = maximum_interval p"
    using assms by (simp add: policy_ok_def backoff_interval_saturated)
  then show ?thesis
    using assms True by (auto simp: policy_ok_def widen_def Let_def min_def max_def)
next
  case False
  then show ?thesis
    using assms backoff_interval_Suc
      [of "base_interval p" "maximum_interval p" "unat (consecutive_failures p)"]
    by (simp add: policy_ok_def widen_def Let_def unat_Suc_failures split: if_splits)
qed

lemma openPause_ok: "policy_ok p \<Longrightarrow> policy_ok (snd (openPause now p))"
  by (simp add: openPause_def Let_def widen_ok)

lemma pause_ok: "policy_ok p \<Longrightarrow> policy_ok (pause c now p)"
  by (auto simp: pause_def Let_def policy_ok_def)

definition limit_cooldown ::
  "(string \<Rightarrow> (int \<times> string) option) \<Rightarrow> string option \<Rightarrow> int \<Rightarrow> int \<Rightarrow> LanePolicy \<Rightarrow> int" where
  "limit_cooldown g ra now wall p =
     (case Option.bind ra (\<lambda>v. parseRetryAfter g v wall) of
        None \<Rightarrow> fst (openPause now p)
      | Some s \<Rightarrow> max (base_interval p) (min s (time_max div ns_per_second) * ns_per_second))"

lemma limited_alt:
  "limited g ra now wall p =
     (let q = pause (limit_cooldown g ra now wall p) now (snd (openPause now p))
      in (backoff_until q - now, q))"
  by (auto simp: limited_def limit_cooldown_def openPause_def Let_def split: prod.split option.split)

lemma failed_alt: "failed now p = pause (fst (openPause now p)) now (snd (openPause now p))"
  by (simp add: failed_def split: prod.split)

definition settings_interval :: "(nat \<Rightarrow> nat \<Rightarrow> int) \<Rightarrow> LaneSettings \<Rightarrow> int" where
  "settings_interval q s =
     (case rate s of None \<Rightarrow> 0 | Some r \<Rightarrow> max (q (seconds r) (requests r)) 1)"

lemma settings_interval_nonneg [simp]: "0 \<le> settings_interval q s"
  by (simp add: settings_interval_def le_max_iff_disj split: option.split)

lemma configure_Inr:
  assumes "configure q s p = Inr p'"
  shows "p' = configured s (settings_interval q s) p"
  using assms
  by (cases "rate s") (auto simp: configure_def intervalFor_def settings_interval_def split: if_splits)

lemma configured_ok: "policy_ok p \<Longrightarrow> 0 \<le> i \<Longrightarrow> policy_ok (configured s i p)"
  by (simp add: configured_def policy_ok_def backoff_interval_def)

lemma configure_ok: "policy_ok p \<Longrightarrow> configure q s p = Inr p' \<Longrightarrow> policy_ok p'"
  using configure_Inr configured_ok settings_interval_nonneg by metis

lemma policy_step_ok:
  assumes "policy_ok p"
  shows "policy_ok (policy_step q g e p)"
proof (cases e)
  case (Claim now)
  then show ?thesis
    using assms backoff_interval_nonneg
      [of "base_interval p" "maximum_interval p" "unat (consecutive_failures p)"]
    by (auto simp: claim_def Let_def policy_ok_def)
next
  case (Limited ra now wall)
  then show ?thesis
    using assms by (simp add: limited_alt Let_def pause_ok openPause_ok)
next
  case (Failed now)
  then show ?thesis using assms by (simp add: failed_alt pause_ok openPause_ok)
next
  case (Advertised h)
  then show ?thesis using assms by (simp add: advertised_def policy_ok_def)
next
  case Reset
  then show ?thesis using assms by (simp add: reset_def policy_ok_def backoff_interval_def)
next
  case (Configure s)
  then show ?thesis using assms configure_ok by (auto split: sum.split)
qed

lemma policy_after_ok: "policy_ok p \<Longrightarrow> policy_ok (policy_after q g evs p)"
  by (induction evs arbitrary: p) (simp_all add: policy_after_def policy_step_ok)

lemma blankPolicy_ok: "0 < M \<Longrightarrow> M \<le> time_max \<Longrightarrow> policy_ok (blankPolicy key M)"
  by (simp add: blankPolicy_def policy_ok_def backoff_interval_def)

lemma newPolicy_Inr:
  "newPolicy q key s M = Inr p \<longleftrightarrow> 0 < M \<and> configure q s (blankPolicy key M) = Inr p"
  by (auto simp: newPolicy_def)

lemma newPolicy_ok:
  assumes "newPolicy q key s M = Inr p" and "M \<le> time_max"
  shows "policy_ok p"
  using assms configure_ok [OF blankPolicy_ok] by (blast dest: newPolicy_Inr [THEN iffD1])

section \<open>Pacing of the granted claims\<close>

lemma keeps_backoff_step:
  assumes "policy_ok p" and "keeps_backoff e"
  shows "base_interval (policy_step q g e p) = base_interval p"
    and "maximum_interval (policy_step q g e p) = maximum_interval p"
    and "next_request p \<le> next_request (policy_step q g e p)"
proof -
  have "0 \<le> interval p" using assms backoff_interval_nonneg by (simp add: policy_ok_def)
  then show "base_interval (policy_step q g e p) = base_interval p"
    and "maximum_interval (policy_step q g e p) = maximum_interval p"
    and "next_request p \<le> next_request (policy_step q g e p)"
    using assms(2) by (cases e; simp add: failed_alt limited_alt claim_def advertised_def pause_def openPause_def Let_def)+
qed

definition paced :: "int \<Rightarrow> int \<Rightarrow> int list \<Rightarrow> bool" where
  "paced b t ts \<longleftrightarrow> (\<forall>i < length ts. t + int i * b \<le> ts ! i)"

definition spaced :: "int \<Rightarrow> int list \<Rightarrow> bool" where
  "spaced b ts \<longleftrightarrow> (\<forall>i m. i + m + 1 < length ts \<longrightarrow> ts ! i + int m * b < ts ! (i + m + 1))"

lemma paced_mono: "paced b t ts \<Longrightarrow> t' \<le> t \<Longrightarrow> paced b t' ts"
  by (force simp: paced_def)

lemma paced_Cons:
  assumes "paced b t' ts" and "t \<le> now" and "t + b \<le> t'"
  shows "paced b t (now # ts)"
  unfolding paced_def
proof (intro allI impI)
  fix i assume "i < length (now # ts)"
  then show "t + int i * b \<le> (now # ts) ! i"
    using assms by (cases i) (force simp: paced_def algebra_simps)+
qed

lemma spaced_Cons:
  assumes "paced b t' ts" and "now < t'" and "spaced b ts"
  shows "spaced b (now # ts)"
  unfolding spaced_def
proof (intro allI impI)
  fix i m assume "i + m + 1 < length (now # ts)"
  then show "(now # ts) ! i + int m * b < (now # ts) ! (i + m + 1)"
    using assms by (cases i) (force simp: paced_def spaced_def)+
qed

lemma claim_grant:
  assumes "policy_ok p" and "base_interval p \<le> maximum_interval p" and "fst (claim now p) = None"
  shows "next_request p \<le> now"
    and "next_request p + base_interval p \<le> next_request (snd (claim now p))"
    and "0 < base_interval p \<Longrightarrow> now < next_request (snd (claim now p))"
proof -
  have "base_interval p \<le> interval p"
    using assms backoff_interval_le by (simp add: policy_ok_def)
  then show "next_request p \<le> now"
    and "next_request p + base_interval p \<le> next_request (snd (claim now p))"
    and "0 < base_interval p \<Longrightarrow> now < next_request (snd (claim now p))"
    using assms by (auto simp: claim_def Let_def split: if_splits)
qed

lemma policy_grants_paced:
  assumes "policy_ok p" and "base_interval p \<le> maximum_interval p" and "list_all keeps_backoff evs"
  shows "paced (base_interval p) (next_request p) (policy_grants q g evs p)
    \<and> (0 < base_interval p \<longrightarrow> spaced (base_interval p) (policy_grants q g evs p))"
  using assms
proof (induction evs arbitrary: p)
  case Nil
  then show ?case by (simp add: paced_def spaced_def)
next
  case (Cons e es)
  let ?p' = "policy_step q g e p"
  have e: "keeps_backoff e" using Cons.prems by simp
  note k = keeps_backoff_step [OF Cons.prems(1) e, of q g]
  have IH: "paced (base_interval p) (next_request ?p') (policy_grants q g es ?p')
    \<and> (0 < base_interval p \<longrightarrow> spaced (base_interval p) (policy_grants q g es ?p'))"
    using Cons.IH [of ?p'] Cons.prems policy_step_ok k by simp
  show ?case
  proof (cases "grant_of e p")
    case Nil
    then show ?thesis using IH k(3) by (auto intro: paced_mono)
  next
    case (Cons t ts)
    then obtain now where n: "e = Claim now" "fst (claim now p) = None" "grant_of e p = [now]"
      by (cases e) (auto split: option.splits)
    then show ?thesis
      using IH claim_grant [OF \<open>policy_ok p\<close> \<open>base_interval p \<le> maximum_interval p\<close> n(2)]
      by (auto intro: paced_Cons spaced_Cons)
  qed
qed

lemma policy_grants_after:
  assumes "policy_ok p" and "list_all keeps_backoff evs" and "t \<in> set (policy_grants q g evs p)"
  shows "next_request p \<le> t"
  using assms
proof (induction evs arbitrary: p)
  case (Cons e es)
  have "next_request p \<le> next_request (policy_step q g e p)"
    using Cons.prems by (intro keeps_backoff_step(3)) auto
  moreover have "next_request p \<le> t" if "t \<in> set (grant_of e p)"
    using that by (cases e) (auto simp: claim_def Let_def split: if_splits)
  ultimately show ?case
    using Cons policy_step_ok by fastforce
qed simp

lemma lane_at_ok:
  assumes "lane_at q g key s M hist = Inr p" and "M \<le> time_max"
  shows "policy_ok p"
  using assms newPolicy_ok policy_after_ok by (fastforce simp: lane_at_def split: sum.splits)

lemma policy_step_maximum [simp]:
  "maximum_interval (policy_step q g e p) = maximum_interval p"
  by (cases e) (auto simp: claim_def limited_alt failed_alt pause_def openPause_def advertised_def
      reset_def configure_def configured_def Let_def split: sum.split option.split)

lemma policy_after_maximum [simp]:
  "maximum_interval (policy_after q g evs p) = maximum_interval p"
  by (induction evs arbitrary: p) (simp_all add: policy_after_def)

lemma lane_at_maximum:
  assumes "lane_at q g key s M hist = Inr p"
  shows "maximum_interval p = M"
  using assms
  by (auto simp: lane_at_def newPolicy_def configure_def configured_def blankPolicy_def
      split: sum.splits option.splits if_splits)

lemma pause_window:
  assumes "policy_ok p" and "list_all keeps_backoff evs" and "t \<in> set (policy_grants q g evs (pause c now p))"
  shows "max (backoff_until p) (now + min c (time_max - now)) \<le> t"
proof -
  have "next_request (pause c now p) \<le> t"
    using assms pause_ok by (intro policy_grants_after) auto
  then show ?thesis by (simp add: pause_def Let_def)
qed

section \<open>Representability\<close>

text \<open>Clock readings of the first 146 years of uptime and settings that fit the duration type.\<close>

definition small_settings :: "(nat \<Rightarrow> nat \<Rightarrow> int) \<Rightarrow> LaneSettings \<Rightarrow> bool" where
  "small_settings q s \<longleftrightarrow> 0 \<le> error_backoff s \<and> error_backoff s * ns_per_second \<le> time_max
     \<and> (case rate s of None \<Rightarrow> True | Some r \<Rightarrow> q (seconds r) (requests r) < 2 ^ 62)"

fun small_times :: "(nat \<Rightarrow> nat \<Rightarrow> int) \<Rightarrow> policy_event \<Rightarrow> bool" where
  "small_times q (Claim now) \<longleftrightarrow> 0 \<le> now \<and> now \<le> 2 ^ 62"
| "small_times q (Limited ra now wall) \<longleftrightarrow> 0 \<le> now \<and> now \<le> 2 ^ 62"
| "small_times q (Failed now) \<longleftrightarrow> 0 \<le> now \<and> now \<le> 2 ^ 62"
| "small_times q (Configure s) \<longleftrightarrow> small_settings q s"
| "small_times q _ \<longleftrightarrow> True"

definition small_policy :: "LanePolicy \<Rightarrow> bool" where
  "small_policy p \<longleftrightarrow> policy_ok p \<and> base_interval p < 2 ^ 62 \<and> maximum_interval p < 2 ^ 62
     \<and> 0 \<le> next_request p \<and> next_request p \<le> time_max \<and> 0 \<le> backoff_until p
     \<and> 0 \<le> error_pause p \<and> error_pause p \<le> time_max"

lemma small_interval:
  assumes "small_policy p"
  shows "0 \<le> interval p" and "interval p < 2 ^ 62"
proof -
  show "0 \<le> interval p"
    using assms backoff_interval_nonneg by (simp add: small_policy_def policy_ok_def)
  show "interval p < 2 ^ 62"
    using assms by (auto simp: small_policy_def policy_ok_def backoff_interval_def)
qed

lemma pause_small:
  assumes "small_policy p" and "0 \<le> now" and "now \<le> 2 ^ 62"
  shows "small_policy (pause c now p)"
  using assms pause_ok [of p c now]
  by (auto simp: small_policy_def pause_def Let_def policy_ok_def)

lemma openPause_small: "small_policy p \<Longrightarrow> small_policy (snd (openPause now p))"
  using openPause_ok [of p now] by (auto simp: small_policy_def openPause_def Let_def)

lemma configure_small:
  assumes "small_settings q s" and "policy_ok p" and "maximum_interval p < 2 ^ 62"
    and "configure q s p = Inr p'"
  shows "small_policy p'"
proof -
  have "settings_interval q s < 2 ^ 62"
    using assms(1) by (cases "rate s") (simp_all add: small_settings_def settings_interval_def)
  moreover have "policy_ok p'" using assms(2,4) by (rule configure_ok)
  ultimately show ?thesis
    using configure_Inr [OF assms(4)] assms(1,3)
    by (simp add: small_policy_def small_settings_def configured_def ns_per_second_def time_max_def)
qed

lemma policy_step_small:
  assumes "small_policy p" and "small_times q e"
  shows "small_policy (policy_step q g e p)"
proof (cases e)
  case (Claim now)
  then show ?thesis
    using assms small_interval [OF assms(1)] policy_step_ok [of p q g e]
    by (auto simp: small_policy_def claim_def Let_def time_max_def)
next
  case (Configure s)
  then show ?thesis
    using assms configure_small [of q s p] by (auto simp: small_policy_def split: sum.split)
qed (use assms policy_step_ok [of p q g e] in
  \<open>auto simp: limited_alt failed_alt Let_def pause_small openPause_small advertised_def reset_def
     small_policy_def [of "_ \<lparr>advertised_limits := _\<rparr>"] small_policy_def [of p]
     small_policy_def [of "p \<lparr>interval := _, next_request := _, backoff_until := _,
       consecutive_failures := _, generation := _\<rparr>"]\<close>)

lemma policy_after_small:
  "small_policy p \<Longrightarrow> list_all (small_times q) evs \<Longrightarrow> small_policy (policy_after q g evs p)"
  by (induction evs arbitrary: p) (simp_all add: policy_after_def policy_step_small)

lemma lane_at_small:
  assumes "lane_at q g key s M hist = Inr p" and "M < 2 ^ 62"
    and "small_settings q s" and "list_all (small_times q) hist"
  shows "small_policy p"
proof -
  obtain p0 where p0: "newPolicy q key s M = Inr p0" "p = policy_after q g hist p0"
    using assms(1) by (auto simp: lane_at_def split: sum.splits)
  have "small_policy p0"
    using p0(1) assms(2,3) blankPolicy_ok [of M key]
    by (intro configure_small [of q s "blankPolicy key M"])
      (auto simp: newPolicy_Inr time_max_def blankPolicy_def)
  then show ?thesis using p0(2) assms(4) by (simp add: policy_after_small)
qed

lemma ceil_seconds_least:
  fixes diff :: int
  shows "0 < diff \<Longrightarrow> 0 \<le> (diff + (ns_per_second - 1)) div ns_per_second"
    and "diff \<le> (diff + (ns_per_second - 1)) div ns_per_second * ns_per_second"
    and "diff \<le> d * ns_per_second \<Longrightarrow> (diff + (ns_per_second - 1)) div ns_per_second \<le> d"
  unfolding ns_per_second_def by linarith+

lemma trim_blanks_digits:
  assumes "list_all is_digit ds" and "ds \<noteq> []" and "set a \<subseteq> set blanks" and "set b \<subseteq> set blanks"
  shows "trim_of blanks (a @ ds @ b) = ds"
proof -
  have nb: "c \<notin> set blanks" if "is_digit c" for c
    using that by (auto simp: blanks_def is_digit_def char_code_def)
  have front: "dropWhile (\<lambda>c. c \<in> set blanks) (a @ ds @ b) = ds @ b"
    using assms nb by (cases ds) (auto simp: dropWhile_append)
  have "dropWhile (\<lambda>c. c \<in> set blanks) (rev b @ rev ds) = rev ds"
    using assms nb by (cases ds rule: rev_cases) (auto simp: dropWhile_append)
  then show ?thesis by (simp add: trim_of_def front)
qed

section \<open>Properties\<close>

definition ex_ratio :: "nat \<Rightarrow> nat \<Rightarrow> int" where
  "ex_ratio s r = int (s * 1000000000 div r)"

definition ex_settings :: "nat \<Rightarrow> nat \<Rightarrow> LaneSettings" where
  "ex_settings r s = defaultSettings\<lparr>rate := Some \<lparr>requests = r, seconds = s\<rparr>\<rparr>"

definition ex_lane :: "nat \<Rightarrow> nat \<Rightarrow> policy_event list \<Rightarrow> LanePolicy" where
  "ex_lane r s hist =
     (case lane_at ex_ratio (\<lambda>_. None) ''host'' (ex_settings r s) (3600 * ns_per_second) hist of
        Inr p \<Rightarrow> p)"

lemma ex_lane_at:
  assumes "r \<noteq> 0" and "s \<noteq> 0"
  shows "lane_at ex_ratio (\<lambda>_. None) ''host'' (ex_settings r s) (3600 * ns_per_second) hist
    = Inr (ex_lane r s hist)"
  using assms
  by (simp add: ex_lane_def lane_at_def newPolicy_def configure_def intervalFor_def ex_settings_def
      ns_per_second_def)

lemmas ex_lane_eval = ex_lane_def blankPolicy_def lane_at_def newPolicy_def configure_def configured_def
  intervalFor_def ex_settings_def ex_ratio_def defaultSettings_def ns_per_second_def time_max_def
  policy_after_def failed_alt limited_alt pause_def openPause_def widen_def claim_def reset_def

text \<open>
  C3. A lane keeps to its configured rate.  Take a lane with a positive base interval
  (no longer than the maximum) in any state that a history of calls leads to, and any
  further calls of claim, limited, failed and advertised, in any order and at any clock
  readings.  Of the granted claims, any \<open>m + 2\<close> consecutive ones span more than \<open>m\<close> base
  intervals: failures only slow the lane down, and an idle lane banks no slots.
\<close>

theorem lane_rate_respected:
  assumes "lane_at q g key s M hist = Inr p" and "M \<le> time_max"
    and "0 < base_interval p" and "base_interval p \<le> M"
    and "list_all keeps_backoff evs"
    and "i + m + 1 < length (policy_grants q g evs p)"
  shows "policy_grants q g evs p ! i + int m * base_interval p < policy_grants q g evs p ! (i + m + 1)"
  using policy_grants_paced [OF lane_at_ok [OF assms(1,2)] _ assms(5)] assms lane_at_maximum [OF assms(1)]
  by (auto simp: spaced_def)

theorem lane_rate_respected_witness:
  "policy_grants ex_ratio (\<lambda>_. None)
     [Claim 1, Claim 2, Claim 5000000000, Failed 6000000000, Claim 9000000000, Claim 50000000000]
     (ex_lane 1 5 []) = [1, 5000000000, 50000000000]
   \<and> (1 :: int) + 1 * 5000000000 < 50000000000"
proof -
  let ?evs = "[Claim 1, Claim 2, Claim 5000000000, Failed 6000000000, Claim 9000000000, Claim 50000000000]"
  have gs: "policy_grants ex_ratio (\<lambda>_. None) ?evs (ex_lane 1 5 []) = [1, 5000000000, 50000000000]"
    by (simp add: ex_lane_eval)
  have "base_interval (ex_lane 1 5 []) = 5000000000" by (simp add: ex_lane_eval)
  then show ?thesis
    using lane_rate_respected [OF ex_lane_at [of 1 5 "[]"], where evs = ?evs and i = 0 and m = 1] gs
    by (simp add: ns_per_second_def time_max_def)
qed

text \<open>
  A failed request stops the lane for its whole pause and counts once per pause.
  A failure inside an open pause changes nothing at all; a failure outside one moves
  the interval one doubling up the backoff scale, and afterwards no claim is granted
  before the pause (the widened interval or the configured error backoff, whichever is
  longer) is over, whatever else happens short of a reset or reconfiguration.
\<close>

theorem lane_failure_pauses:
  assumes "lane_at q g key s M hist = Inr p" and "M \<le> time_max"
  shows "(now < backoff_until p \<longrightarrow> failed now p = p)
    \<and> (backoff_until p \<le> now \<and> now \<le> time_max \<and> consecutive_failures p \<noteq> - 1 \<longrightarrow>
        interval (failed now p)
          = backoff_interval (base_interval p) M (Suc (unat (consecutive_failures p)))
        \<and> (\<forall>evs t. list_all keeps_backoff evs \<and> t \<in> set (policy_grants q g evs (failed now p)) \<longrightarrow>
             min time_max (now + max (interval (failed now p)) (error_pause p)) \<le> t))"
proof (intro conjI impI allI; (elim conjE)?)
  note ok = lane_at_ok [OF assms]
  show "failed now p = p" if "now < backoff_until p"
    using ok that by (auto simp: failed_alt openPause_def pause_def Let_def policy_ok_def)
  assume now: "backoff_until p \<le> now" "now \<le> time_max" and f: "consecutive_failures p \<noteq> - 1"
  have w: "failed now p = pause (max (interval (widen p)) (error_pause p)) now (widen p)"
    using now by (simp add: failed_alt openPause_def Let_def)
  then have i: "interval (failed now p) = interval (widen p)" by (simp add: pause_def Let_def)
  have "consecutive_failures (widen p) = consecutive_failures p + 1"
    using f by (simp add: widen_def Let_def)
  then show "interval (failed now p)
      = backoff_interval (base_interval p) M (Suc (unat (consecutive_failures p)))"
    using widen_ok [OF ok] f lane_at_maximum [OF assms(1)]
    by (simp add: i policy_ok_def unat_Suc_failures)
  fix evs t
  assume "list_all keeps_backoff evs" and "t \<in> set (policy_grants q g evs (failed now p))"
  then show "min time_max (now + max (interval (failed now p)) (error_pause p)) \<le> t"
    using pause_window [OF widen_ok [OF ok]] i w by fastforce
qed

theorem lane_failure_pauses_witness:
  "interval (failed 7 (ex_lane 1 5 [])) = 10000000000
   \<and> failed 9 (ex_lane 1 5 [Failed 7]) = ex_lane 1 5 [Failed 7]"
proof -
  have a: "backoff_until (ex_lane 1 5 []) = 0" "consecutive_failures (ex_lane 1 5 []) = 0"
      "base_interval (ex_lane 1 5 []) = 5000000000" "9 < backoff_until (ex_lane 1 5 [Failed 7])"
    by (simp_all add: ex_lane_eval)
  show ?thesis
    using lane_failure_pauses [OF ex_lane_at [of 1 5 "[]"], of 7]
      lane_failure_pauses [OF ex_lane_at [of 1 5 "[Failed 7]"], of 9] a
    by (simp add: ns_per_second_def time_max_def backoff_interval_def)
qed



text \<open>
  C26. The interval of a lane is a function of its configuration and its failure count, in
  every state that calls of any kind lead to: the base interval without failures, then
  doubled per failed pause (from a floor of one second on an unthrottled lane) up to the
  maximum; and the next request is never scheduled inside an open pause.
\<close>

theorem lane_backoff_closed_form:
  assumes "lane_at q g key s M hist = Inr p" and "M \<le> time_max"
  shows "interval p = backoff_interval (base_interval p) M (unat (consecutive_failures p))
    \<and> backoff_until p \<le> next_request p"
  using lane_at_ok [OF assms] lane_at_maximum [OF assms(1)] by (simp add: policy_ok_def)

theorem lane_backoff_closed_form_witness:
  "interval (ex_lane 1 5 [Failed 0, Failed 1, Failed 30000000000]) = 20000000000
   \<and> unat (consecutive_failures (ex_lane 1 5 [Failed 0, Failed 1, Failed 30000000000])) = 2"
proof -
  let ?p = "ex_lane 1 5 [Failed 0, Failed 1, Failed 30000000000]"
  have f: "unat (consecutive_failures ?p) = 2" "base_interval ?p = 5000000000"
    by (simp_all add: ex_lane_eval)
  show ?thesis
    using lane_backoff_closed_form [OF ex_lane_at [of 1 5 "[Failed 0, Failed 1, Failed 30000000000]"]] f
    by (simp add: backoff_interval_def ns_per_second_def time_max_def)
qed

text \<open>
  The policy's arithmetic never leaves the 64-bit nanosecond range: with clock
  readings up to \<open>2^62\<close>, a maximum interval and configured intervals below it, in every
  reachable state each sum, difference and doubling the operations form at a further such
  reading is representable.
\<close>

theorem lane_arithmetic_representable:
  assumes "lane_at q g key s M hist = Inr p" and "M < 2 ^ 62"
    and "small_settings q s" and "list_all (small_times q) hist"
    and "0 \<le> now" and "now \<le> 2 ^ 62"
  shows "interval p * 2 \<in> {0..time_max} \<and> now + interval p \<in> {0..time_max}
    \<and> next_request p - now \<in> {- time_max..time_max} \<and> time_max - now \<in> {0..time_max}
    \<and> (next_request p \<le> now \<longrightarrow> next_request p + interval p \<in> {0..time_max})
    \<and> now + min c (time_max - now) \<le> time_max
    \<and> backoff_until (failed now p) - now \<in> {- time_max..time_max}"
proof -
  have sp: "small_policy p" using assms lane_at_small by blast
  have "small_policy (policy_step q g (Failed now) p)"
    using sp assms(5,6) by (intro policy_step_small) simp_all
  then have "0 \<le> backoff_until (failed now p)" "backoff_until (failed now p) \<le> time_max"
    by (auto simp: small_policy_def policy_ok_def)
  then show ?thesis
    using sp small_interval [OF sp] assms(5,6) by (auto simp: small_policy_def time_max_def)
qed

theorem lane_arithmetic_representable_witness:
  "interval (ex_lane 1 5 [Failed 0]) * 2 \<in> {0..time_max}
   \<and> backoff_until (failed 3 (ex_lane 1 5 [Failed 0])) - 3 \<in> {- time_max..time_max}"
  using lane_arithmetic_representable [OF ex_lane_at [of 1 5 "[Failed 0]"], of 3 0]
  by (simp add: small_settings_def ex_settings_def ex_ratio_def defaultSettings_def ns_per_second_def
      time_max_def)

text \<open>
  C40. A lane whose configured interval exceeds the maximum backoff gets faster when it
  fails: its interval drops to the maximum, below the interval the configuration asks for,
  for as long as its failure count is not cleared.
\<close>

theorem lane_backoff_narrows_slow_lane:
  assumes "lane_at q g key s M hist = Inr p" and "M \<le> time_max"
    and "M < base_interval p" and "0 < consecutive_failures p"
  shows "interval p = M \<and> interval p < base_interval p"
proof -
  have f: "0 < unat (consecutive_failures p)" using assms(4) by (simp add: unat_gt_0)
  have ok: "policy_ok p" using lane_at_ok [OF assms(1,2)] .
  have "base_interval p * 1 \<le> base_interval p * 2 ^ unat (consecutive_failures p)"
    using ok by (intro mult_left_mono) (auto simp: policy_ok_def)
  then have "M \<le> base_interval p * 2 ^ unat (consecutive_failures p)" using assms(3) by linarith
  then show ?thesis
    using ok f assms(3) lane_at_maximum [OF assms(1)]
    by (simp add: policy_ok_def backoff_interval_def min_absorb1)
qed

theorem lane_backoff_narrows_slow_lane_witness:
  "base_interval (ex_lane 1 7200 [Failed 0]) = 7200 * ns_per_second
   \<and> interval (ex_lane 1 7200 [Failed 0]) = 3600 * ns_per_second"
proof -
  have "base_interval (ex_lane 1 7200 [Failed 0]) = 7200 * ns_per_second"
    "0 < consecutive_failures (ex_lane 1 7200 [Failed 0])"
    by (simp_all add: ex_lane_eval)
  then show ?thesis
    using lane_backoff_narrows_slow_lane [OF ex_lane_at [of 1 7200 "[Failed 0]"]]
    by (simp add: ns_per_second_def time_max_def)
qed

text \<open>
  Reading a Retry-After header.  Any 64-bit decimal number, surrounded by blanks, is read
  as that many seconds (cut to the largest duration), and a date is turned into the least
  number of whole seconds after which it has been reached, zero when it is past.
\<close>

theorem retry_after_parse:
  "(set a \<subseteq> set blanks \<and> set b \<subseteq> set blanks \<and> n < 2 ^ 64 \<longrightarrow>
      parseRetryAfter g (a @ to_string n @ b) now = Some (min (int n) time_max))
   \<and> ((\<forall>m. from_chars_u64 (trim_of blanks v) \<noteq> (Inr m, []))
        \<and> g (trim_of blanks v) = Some (ts, []) \<and> ts \<noteq> - 1 \<longrightarrow>
      (\<exists>d. parseRetryAfter g v now = Some d \<and> 0 \<le> d \<and> ts * ns_per_second \<le> now + d * ns_per_second
         \<and> (\<forall>d'. 0 \<le> d' \<and> ts * ns_per_second \<le> now + d' * ns_per_second \<longrightarrow> d \<le> d')))"
proof (intro conjI impI; elim conjE)
  assume "set a \<subseteq> set blanks" "set b \<subseteq> set blanks" "n < 2 ^ 64"
  then show "parseRetryAfter g (a @ to_string n @ b) now = Some (min (int n) time_max)"
    using from_chars_to_string [of n "[]"]
    by (simp add: parseRetryAfter_def trim_blanks_digits to_string_digits)
next
  assume nn: "\<forall>m. from_chars_u64 (trim_of blanks v) \<noteq> (Inr m, [])"
    and date: "g (trim_of blanks v) = Some (ts, [])" "ts \<noteq> - 1"
  let ?d = "if ts * ns_per_second \<le> now then 0
    else (ts * ns_per_second - now + (ns_per_second - 1)) div ns_per_second"
  have "parseRetryAfter g v now = Some ?d"
    using nn date
    by (cases "from_chars_u64 (trim_of blanks v)")
      (auto simp: parseRetryAfter_def Let_def split: sum.split list.split)
  moreover have "0 \<le> ?d" "ts * ns_per_second \<le> now + ?d * ns_per_second"
    using ceil_seconds_least(1,2) [of "ts * ns_per_second - now"] by (auto simp: algebra_simps)
  moreover have "?d \<le> d'" if "0 \<le> d'" "ts * ns_per_second \<le> now + d' * ns_per_second" for d'
    using that ceil_seconds_least(3) [of "ts * ns_per_second - now" d'] by auto
  ultimately show "\<exists>d. parseRetryAfter g v now = Some d \<and> 0 \<le> d
      \<and> ts * ns_per_second \<le> now + d * ns_per_second
      \<and> (\<forall>d'. 0 \<le> d' \<and> ts * ns_per_second \<le> now + d' * ns_per_second \<longrightarrow> d \<le> d')"
    by blast
qed

theorem retry_after_parse_witness:
  "parseRetryAfter (\<lambda>_. None) ('' '' @ to_string 120 @ []) 0 = Some 120
   \<and> (\<exists>d. parseRetryAfter (\<lambda>_. Some (7, [])) ''date'' 6500000000 = Some d \<and> d = 1)"
proof -
  have "\<forall>m. from_chars_u64 (trim_of blanks ''date'') \<noteq> (Inr m, [])"
    by (simp add: trim_of_def blanks_def from_chars_u64_def is_digit_def char_code_def)
  then obtain d where d: "parseRetryAfter (\<lambda>_. Some (7, [])) ''date'' 6500000000 = Some d" "0 \<le> d"
      "7 * ns_per_second \<le> 6500000000 + d * ns_per_second"
      "\<forall>d'. 0 \<le> d' \<and> 7 * ns_per_second \<le> 6500000000 + d' * ns_per_second \<longrightarrow> d \<le> d'"
    using retry_after_parse [of "[]" "[]" 0 "\<lambda>_. Some (7, [])" 6500000000 "''date''" 7,
        THEN conjunct2] by auto
  have "d = 1" using d(2,3) d(4) [rule_format, of 1] by (simp add: ns_per_second_def)
  then show ?thesis
    using d(1) retry_after_parse [of "'' ''" "[]" 120 "\<lambda>_. None" 0, THEN conjunct1]
    by (simp add: blanks_def time_max_def)
qed

end
