(* ===== verification/Http_Message.thy ===== *)
theory Http_Message
  imports Cpp_Text
begin

text \<open>
  HTTP messages of the downloader (\<^verbatim>\<open>http/HttpMessage.cpp\<close>, \<^verbatim>\<open>http/HttpHeaders.hpp\<close>,
  \<^verbatim>\<open>http/SetCookie.hpp\<close>): request methods, the ordered header multimap with
  case-insensitive names, header validation, the one-line rendering of a body for the
  log, and the Set-Cookie parser.  \<^verbatim>\<open>curl_getdate\<close> is the parameter \<open>getdate\<close>.
\<close>

section \<open>Text helpers\<close>

definition headerNamesEqual :: "string \<Rightarrow> string \<Rightarrow> bool" where
  "headerNamesEqual left right \<longleftrightarrow> lowered left = lowered right"

definition front_blank :: "char \<Rightarrow> bool" where
  "front_blank c \<longleftrightarrow> c = CHR '' '' \<or> c = CHR 0x09"

definition back_blank :: "char \<Rightarrow> bool" where
  "back_blank c \<longleftrightarrow> c = CHR '' '' \<or> c = CHR 0x09 \<or> c = CHR 0x0D \<or> c = CHR 0x0A"

definition trimmed :: "string \<Rightarrow> string" where
  "trimmed text = rev (dropWhile back_blank (rev (dropWhile front_blank text)))"

definition isMarkupContentType :: "string \<Rightarrow> bool" where
  "isMarkupContentType content_type =
     (let type = lowered (trimmed (before (CHR '';'') content_type)) in
      type = ''text/html'' \<or> type = ''application/xhtml+xml'')"

section \<open>Methods\<close>

datatype HttpMethod = GET | POST | HEAD | PUT | DELETE | OPTIONS | PATCH

definition parseHttpMethod :: "string \<Rightarrow> HttpMethod option" where
  "parseHttpMethod m =
     (let upper = map to_upper m in
      if upper = ''GET'' then Some GET
      else if upper = ''POST'' then Some POST
      else if upper = ''HEAD'' then Some HEAD
      else if upper = ''PUT'' then Some PUT
      else if upper = ''DELETE'' then Some DELETE
      else if upper = ''OPTIONS'' then Some OPTIONS
      else if upper = ''PATCH'' then Some PATCH
      else None)"

fun httpMethodName :: "HttpMethod \<Rightarrow> string" where
  "httpMethodName GET = ''GET''"
| "httpMethodName POST = ''POST''"
| "httpMethodName HEAD = ''HEAD''"
| "httpMethodName PUT = ''PUT''"
| "httpMethodName DELETE = ''DELETE''"
| "httpMethodName OPTIONS = ''OPTIONS''"
| "httpMethodName PATCH = ''PATCH''"

section \<open>Bodies in the log\<close>

definition HTTP_BODY_LOG_LIMIT :: nat where
  "HTTP_BODY_LOG_LIMIT = 2048"

fun collapse :: "string \<Rightarrow> bool \<Rightarrow> string \<Rightarrow> string" where
  "collapse [] pending out = out"
| "collapse (c # cs) pending out =
     (if is_space c then collapse cs (out \<noteq> []) out
      else collapse cs False ((if pending then out @ '' '' else out) @ [c]))"

definition describeBody :: "string \<Rightarrow> nat \<Rightarrow> string" where
  "describeBody body bytes =
     (if bytes = 0 then ''<empty>''
      else if bytes > HTTP_BODY_LOG_LIMIT \<or> length body < bytes then ''<'' @ to_string bytes @ '' bytes>''
      else collapse body False [])"

section \<open>Headers\<close>

type_synonym HttpHeaders = "(string \<times> string) list"

definition headers_add :: "string \<Rightarrow> string \<Rightarrow> HttpHeaders \<Rightarrow> HttpHeaders" where
  "headers_add name value h = h @ [(name, value)]"

definition headers_erase :: "string \<Rightarrow> HttpHeaders \<Rightarrow> HttpHeaders" where
  "headers_erase name h = filter (\<lambda>e. \<not> headerNamesEqual (fst e) name) h"

definition headers_set :: "string \<Rightarrow> string \<Rightarrow> HttpHeaders \<Rightarrow> HttpHeaders" where
  "headers_set name value h = headers_add name value (headers_erase name h)"

definition headers_contains :: "string \<Rightarrow> HttpHeaders \<Rightarrow> bool" where
  "headers_contains name h = list_ex (\<lambda>e. headerNamesEqual (fst e) name) h"

definition headers_get :: "string \<Rightarrow> HttpHeaders \<Rightarrow> string" where
  "headers_get name h =
     (case find (\<lambda>e. headerNamesEqual (fst e) name) h of None \<Rightarrow> [] | Some e \<Rightarrow> snd e)"

definition headers_all :: "string \<Rightarrow> HttpHeaders \<Rightarrow> string list" where
  "headers_all name h = map snd (filter (\<lambda>e. headerNamesEqual (fst e) name) h)"

definition isValidHttpHeaderName :: "string \<Rightarrow> bool" where
  "isValidHttpHeaderName name \<longleftrightarrow> name \<noteq> []
     \<and> list_all (\<lambda>c. \<not> (char_code c \<le> 32 \<or> 127 \<le> char_code c)
          \<and> c \<notin> set (CHR 0x22 # ''(),/:;<=>?@['' @ [CHR 0x5C] @ '']{}'')) name"

definition isValidHttpHeaderValue :: "string \<Rightarrow> bool" where
  "isValidHttpHeaderValue value \<longleftrightarrow>
     list_all (\<lambda>c. char_code c = 9 \<or> \<not> (char_code c < 32 \<or> char_code c = 127)) value"

section \<open>Set-Cookie\<close>

record SetCookie =
  sc_name :: string
  sc_value :: string
  sc_domain :: string
  sc_path :: string
  sc_secure :: bool
  sc_http_only :: bool
  sc_expires :: "int option"
  sc_max_age :: "int option"

definition cookie_attribute :: "(string \<Rightarrow> int) \<Rightarrow> string \<Rightarrow> SetCookie \<Rightarrow> SetCookie" where
  "cookie_attribute getdate attribute cookie =
     (let name = trimmed (before (CHR ''='') attribute);
          value = (case after (CHR ''='') attribute of None \<Rightarrow> [] | Some v \<Rightarrow> trimmed v) in
      if headerNamesEqual name ''domain'' then cookie\<lparr>sc_domain := value\<rparr>
      else if headerNamesEqual name ''path'' then cookie\<lparr>sc_path := value\<rparr>
      else if headerNamesEqual name ''secure'' then cookie\<lparr>sc_secure := True\<rparr>
      else if headerNamesEqual name ''httponly'' then cookie\<lparr>sc_http_only := True\<rparr>
      else if headerNamesEqual name ''max-age'' then
        (case fst (from_chars_i64 value) of
           Inl _ \<Rightarrow> cookie
         | Inr seconds \<Rightarrow> cookie\<lparr>sc_max_age := Some seconds\<rparr>)
      else if headerNamesEqual name ''expires'' then
        (let parsed = getdate (before (CHR 0x00) value) in
         if parsed \<noteq> - 1 then cookie\<lparr>sc_expires := Some (parsed * 1000000000)\<rparr> else cookie)
      else cookie)"

function cookie_attributes :: "(string \<Rightarrow> int) \<Rightarrow> string \<Rightarrow> SetCookie \<Rightarrow> SetCookie" where
  "cookie_attributes getdate remainder cookie =
     (if remainder = [] then cookie
      else
        let attribute = trimmed (before (CHR '';'') remainder);
            rest = (case after (CHR '';'') remainder of None \<Rightarrow> [] | Some r \<Rightarrow> r) in
        cookie_attributes getdate rest
          (if attribute = [] then cookie else cookie_attribute getdate attribute cookie))"
  by pat_completeness auto

termination
  by (relation "measure (\<lambda>(_, r, _). length r)") (auto split: option.split dest: after_shorter)

declare cookie_attributes.simps [simp del]

definition parseSetCookie :: "(string \<Rightarrow> int) \<Rightarrow> string \<Rightarrow> SetCookie option" where
  "parseSetCookie getdate header =
     (let pair = trimmed (before (CHR '';'') header) in
      case after (CHR ''='') pair of
        None \<Rightarrow> None
      | Some v \<Rightarrow>
          (let name = trimmed (before (CHR ''='') pair) in
           if name = [] then None
           else Some (cookie_attributes getdate
             (case after (CHR '';'') header of None \<Rightarrow> [] | Some r \<Rightarrow> r)
             \<lparr>sc_name = name, sc_value = trimmed v, sc_domain = [], sc_path = [], sc_secure = False,
              sc_http_only = False, sc_expires = None, sc_max_age = None\<rparr>)))"

section \<open>The header multimap as an interface\<close>

locale header_fields =
  fixes same :: "'n \<Rightarrow> 'n \<Rightarrow> bool"
    and get :: "'n \<Rightarrow> 'h \<Rightarrow> 'v"
    and contains :: "'n \<Rightarrow> 'h \<Rightarrow> bool"
    and put :: "'n \<Rightarrow> 'v \<Rightarrow> 'h \<Rightarrow> 'h"
    and erase :: "'n \<Rightarrow> 'h \<Rightarrow> 'h"
  assumes same_refl: "same n n"
    and contains_put: "contains n (put m v h) \<longleftrightarrow> same m n \<or> contains n h"
    and get_put: "get n (put m v h) = (if same m n then v else get n h)"
    and contains_erase: "contains n (erase m h) \<longleftrightarrow> \<not> same m n \<and> contains n h"
    and get_erase: "\<not> same m n \<Longrightarrow> get n (erase m h) = get n h"
begin

lemma contains_erase_all:
  "contains n (fold erase ms h) \<longleftrightarrow> (\<forall>m \<in> set ms. \<not> same m n) \<and> contains n h"
  by (induction ms arbitrary: h) (auto simp: contains_erase)

lemma get_erase_all:
  "\<forall>m \<in> set ms. \<not> same m n \<Longrightarrow> get n (fold erase ms h) = get n h"
  by (induction ms arbitrary: h) (auto simp: get_erase)

lemma erase_put: "\<not> same m n \<Longrightarrow> get n (put m v (erase m h)) = get n h"
  by (simp add: get_put get_erase)

end

lemma headerNamesEqual_refl [simp]: "headerNamesEqual n n"
  by (simp add: headerNamesEqual_def)

lemma headerNamesEqual_sym: "headerNamesEqual m n \<longleftrightarrow> headerNamesEqual n m"
  by (auto simp: headerNamesEqual_def)

lemma headerNamesEqual_trans:
  "headerNamesEqual a b \<Longrightarrow> headerNamesEqual b c \<longleftrightarrow> headerNamesEqual a c"
  by (simp add: headerNamesEqual_def)

lemma find_kept:
  assumes "\<not> headerNamesEqual m n"
  shows "find (\<lambda>e. headerNamesEqual (fst e) n) (headers_erase m h)
    = find (\<lambda>e. headerNamesEqual (fst e) n) h"
  using assms by (induction h) (auto simp: headers_erase_def headerNamesEqual_def)

lemma find_append: "find P (xs @ ys) = (case find P xs of None \<Rightarrow> find P ys | Some x \<Rightarrow> Some x)"
  by (induction xs) auto

lemma find_erased: "find (\<lambda>e. headerNamesEqual (fst e) n) (headers_erase m h) = None"
  if "headerNamesEqual m n"
  using that by (induction h) (auto simp: headers_erase_def headerNamesEqual_def)

lemma headers_contains_iff: "headers_contains n h \<longleftrightarrow> lowered n \<in> lowered ` fst ` set h"
  by (induction h) (auto simp: headers_contains_def headerNamesEqual_def)

interpretation hdr: header_fields headerNamesEqual headers_get headers_contains headers_set headers_erase
proof
  fix n m :: string and v :: string and h :: HttpHeaders
  show "headerNamesEqual n n" by simp
  show "headers_contains n (headers_set m v h) \<longleftrightarrow> headerNamesEqual m n \<or> headers_contains n h"
    by (force simp: headers_contains_iff headers_set_def headers_add_def headers_erase_def
        headerNamesEqual_def)
  show "headers_get n (headers_set m v h) = (if headerNamesEqual m n then v else headers_get n h)"
    by (auto simp: headers_get_def headers_set_def headers_add_def find_append find_erased find_kept
        split: option.split)
  show "headers_contains n (headers_erase m h) \<longleftrightarrow> \<not> headerNamesEqual m n \<and> headers_contains n h"
    by (force simp: headers_contains_iff headers_erase_def headerNamesEqual_def)
  show "headers_get n (headers_erase m h) = headers_get n h" if "\<not> headerNamesEqual m n"
    using that by (simp add: headers_get_def find_kept)
qed

section \<open>Trimming and Set-Cookie round trip\<close>

definition clean :: "string \<Rightarrow> bool" where
  "clean s \<longleftrightarrow> s = [] \<or> \<not> back_blank (hd s) \<and> \<not> back_blank (last s)"

definition cookie_text :: "string \<Rightarrow> bool" where
  "cookie_text s \<longleftrightarrow> clean s \<and> CHR '';'' \<notin> set s"

text \<open>The header a server writes for a cookie without an Expires date.\<close>

definition show_attributes :: "SetCookie \<Rightarrow> string list" where
  "show_attributes c =
     (if sc_domain c = [] then [] else [''Domain='' @ sc_domain c])
     @ (if sc_path c = [] then [] else [''Path='' @ sc_path c])
     @ (if sc_secure c then [''Secure''] else [])
     @ (if sc_http_only c then [''HttpOnly''] else [])
     @ (case sc_max_age c of None \<Rightarrow> [] | Some m \<Rightarrow> [''Max-Age='' @ show_int m])"

definition show_set_cookie :: "SetCookie \<Rightarrow> string" where
  "show_set_cookie c =
     sc_name c @ ''='' @ sc_value c @ concat (map (\<lambda>a. ''; '' @ a) (show_attributes c))"

definition printable_cookie :: "SetCookie \<Rightarrow> bool" where
  "printable_cookie c \<longleftrightarrow> sc_name c \<noteq> [] \<and> CHR ''='' \<notin> set (sc_name c)
     \<and> cookie_text (sc_name c) \<and> cookie_text (sc_value c) \<and> cookie_text (sc_domain c) \<and> cookie_text (sc_path c)
     \<and> sc_expires c = None
     \<and> (case sc_max_age c of None \<Rightarrow> True | Some m \<Rightarrow> - (2 ^ 63) \<le> m \<and> m < 2 ^ 63)"

lemma front_imp_back: "front_blank c \<Longrightarrow> back_blank c"
  by (auto simp: front_blank_def back_blank_def)

lemma dropWhile_hd_not: "s = [] \<or> \<not> P (hd s) \<Longrightarrow> dropWhile P s = s"
  by (cases s) auto

lemma trimmed_clean [simp]:
  assumes "clean s"
  shows "trimmed s = s"
proof -
  have "s = [] \<or> \<not> front_blank (hd s)" and "rev s = [] \<or> \<not> back_blank (hd (rev s))"
    using assms front_imp_back by (auto simp: clean_def hd_rev)
  then show ?thesis by (simp add: trimmed_def dropWhile_hd_not)
qed

lemma trimmed_space [simp]: "trimmed (CHR '' '' # s) = trimmed s"
  by (simp add: trimmed_def front_blank_def)

lemma clean_append: "clean a \<Longrightarrow> clean b \<Longrightarrow> b \<noteq> [] \<Longrightarrow> a \<noteq> [] \<Longrightarrow> clean (a @ b)"
  by (simp add: clean_def)

lemma clean_digits: "list_all is_digit s \<Longrightarrow> clean s"
proof -
  assume a: "list_all is_digit s"
  have "\<not> back_blank c" if "is_digit c" for c
    using that by (auto simp: back_blank_def is_digit_def char_code_def)
  then show ?thesis
    using a by (auto simp: clean_def list_all_iff)
qed

lemma cookie_text_show_int [simp]: "cookie_text (show_int m)"
proof -
  have t: "cookie_text (to_string n)" for n
    using to_string_digits [of n] clean_digits
    by (auto simp: cookie_text_def list_all_iff is_digit_def char_code_def)
  moreover have "cookie_text (CHR ''-'' # to_string n)" for n
    using t [of n] by (auto simp: cookie_text_def clean_def back_blank_def)
  ultimately show ?thesis by (simp add: show_int_def)
qed

lemma cookie_text_append:
  assumes "cookie_text a" and "cookie_text b" and "a \<noteq> []"
    and "\<not> back_blank (last a)"
  shows "cookie_text (a @ b)"
  using assms by (cases "b = []") (auto simp: cookie_text_def clean_def)

lemma attributes_step:
  assumes "cookie_text a" and "a \<noteq> []"
  shows "cookie_attributes g (CHR '' '' # a) c = cookie_attribute g a c"
    and "cookie_attributes g (CHR '' '' # a @ CHR '';'' # rest) c
      = cookie_attributes g rest (cookie_attribute g a c)"
proof -
  have ns: "CHR '';'' \<notin> set (CHR '' '' # a)" and tr: "trimmed (CHR '' '' # a) = a"
    using assms by (auto simp: cookie_text_def)
  have "cookie_attributes g [] c' = c'" for c' by (simp add: cookie_attributes.simps)
  then show "cookie_attributes g (CHR '' '' # a) c = cookie_attribute g a c"
    using ns tr assms(2) by (subst cookie_attributes.simps) (simp del: trimmed_space)
  have "before (CHR '';'') (CHR '' '' # a @ CHR '';'' # rest) = CHR '' '' # a"
    "after (CHR '';'') (CHR '' '' # a @ CHR '';'' # rest) = Some rest"
    using before_append [OF ns, of rest] after_append [OF ns, of rest] by simp_all
  then show "cookie_attributes g (CHR '' '' # a @ CHR '';'' # rest) c
      = cookie_attributes g rest (cookie_attribute g a c)"
    using tr assms(2) by (subst cookie_attributes.simps) (simp del: trimmed_space)
qed

lemma attributes_fold:
  assumes "list_all (\<lambda>a. cookie_text a \<and> a \<noteq> []) (a # as)"
  shows "cookie_attributes g (CHR '' '' # a @ concat (map (\<lambda>a. ''; '' @ a) as)) c
    = fold (cookie_attribute g) (a # as) c"
  using assms
proof (induction as arbitrary: a c)
  case Nil
  then show ?case using attributes_step(1) [of a g c] by simp
next
  case (Cons b bs)
  then show ?case
    using attributes_step(2) [of a g "CHR '' '' # b @ concat (map (\<lambda>a. ''; '' @ a) bs)" c] by simp
qed

lemma attribute_names:
  "headerNamesEqual ''Domain'' ''domain''"
  "\<not> headerNamesEqual ''Path'' ''domain''" "headerNamesEqual ''Path'' ''path''"
  "\<not> headerNamesEqual ''Secure'' ''domain''" "\<not> headerNamesEqual ''Secure'' ''path''"
  "headerNamesEqual ''Secure'' ''secure''"
  "\<not> headerNamesEqual ''HttpOnly'' ''domain''" "\<not> headerNamesEqual ''HttpOnly'' ''path''"
  "\<not> headerNamesEqual ''HttpOnly'' ''secure''" "headerNamesEqual ''HttpOnly'' ''httponly''"
  "\<not> headerNamesEqual ''Max-Age'' ''domain''" "\<not> headerNamesEqual ''Max-Age'' ''path''"
  "\<not> headerNamesEqual ''Max-Age'' ''secure''" "\<not> headerNamesEqual ''Max-Age'' ''httponly''"
  "headerNamesEqual ''Max-Age'' ''max-age''"
  by code_simp+

lemma attribute_tokens: "clean ''Domain''" "clean ''Path''" "clean ''Secure''" "clean ''HttpOnly''" "clean ''Max-Age''"
  by (simp_all add: clean_def back_blank_def)

lemma attribute_values:
  "clean v \<Longrightarrow> cookie_attribute g (''Domain='' @ v) c = c\<lparr>sc_domain := v\<rparr>"
  "clean v \<Longrightarrow> cookie_attribute g (''Path='' @ v) c = c\<lparr>sc_path := v\<rparr>"
  "cookie_attribute g ''Secure'' c = c\<lparr>sc_secure := True\<rparr>"
  "cookie_attribute g ''HttpOnly'' c = c\<lparr>sc_http_only := True\<rparr>"
  by (simp_all add: cookie_attribute_def before_def after_def attribute_tokens attribute_names Let_def)

lemma attribute_max_age:
  assumes "- (2 ^ 63) \<le> m" and "m < 2 ^ 63"
  shows "cookie_attribute g (''Max-Age='' @ show_int m) c = c\<lparr>sc_max_age := Some m\<rparr>"
  using from_chars_show_int [OF assms, of "[]"] cookie_text_show_int [of m]
  by (simp add: cookie_attribute_def before_def after_def cookie_text_def attribute_tokens attribute_names Let_def)

lemma show_attributes_tokens:
  assumes "printable_cookie c"
  shows "list_all (\<lambda>a. cookie_text a \<and> a \<noteq> []) (show_attributes c)"
proof -
  have pre: "cookie_text (''Domain='' @ v)" "cookie_text (''Path='' @ v)" "cookie_text (''Max-Age='' @ v)" if "cookie_text v" for v
    using that by (intro cookie_text_append; simp add: cookie_text_def clean_def back_blank_def)+
  have "cookie_text ''Secure''" "cookie_text ''HttpOnly''"
    by (simp_all add: cookie_text_def clean_def back_blank_def)
  then show ?thesis
    using assms pre cookie_text_show_int
    by (auto simp: printable_cookie_def show_attributes_def split: option.split)
qed

lemma fold_show_attributes:
  assumes "printable_cookie c"
  shows "fold (cookie_attribute g) (show_attributes c)
      \<lparr>sc_name = sc_name c, sc_value = sc_value c, sc_domain = [], sc_path = [], sc_secure = False,
       sc_http_only = False, sc_expires = None, sc_max_age = None\<rparr> = c"
  using assms attribute_max_age [of _ g]
  by (cases c) (auto simp: printable_cookie_def cookie_text_def show_attributes_def attribute_values
      simp del: append_Cons append_Nil split: option.splits)

section \<open>Words of a logged body\<close>

fun split_space :: "string \<Rightarrow> string list" where
  "split_space [] = [[]]"
| "split_space (c # cs) =
     (if is_space c then [] # split_space cs
      else (c # hd (split_space cs)) # tl (split_space cs))"

definition body_words :: "string \<Rightarrow> string list" where
  "body_words s = filter (\<lambda>w. w \<noteq> []) (split_space s)"

definition spaced_words :: "string list \<Rightarrow> string" where
  "spaced_words ws = concat (map (\<lambda>w. '' '' @ w) ws)"

definition joined_words :: "string list \<Rightarrow> string" where
  "joined_words ws = (case ws of [] \<Rightarrow> [] | w # vs \<Rightarrow> w @ spaced_words vs)"

lemma collapse_words:
  "(out \<noteq> [] \<longrightarrow> collapse s True out = out @ spaced_words (body_words s))
   \<and> (out \<noteq> [] \<longrightarrow> collapse s False out
        = out @ hd (split_space s) @ spaced_words (filter (\<lambda>w. w \<noteq> []) (tl (split_space s))))
   \<and> collapse s False [] = joined_words (body_words s)"
  by (induction s arbitrary: out)
    (auto simp: body_words_def spaced_words_def joined_words_def split: list.splits)

section \<open>Properties\<close>

text \<open>
  C28. Set-Cookie headers are read back as they are written: for a cookie whose name, value,
  domain and path hold no separator and no outer blanks, with any combination of the
  Domain, Path, Secure, HttpOnly and Max-Age attributes, parsing its header gives the cookie.
\<close>

theorem set_cookie_roundtrip:
  assumes "printable_cookie c"
  shows "parseSetCookie getdate (show_set_cookie c) = Some c"
proof -
  let ?pair = "sc_name c @ ''='' @ sc_value c"
  let ?blank = "\<lparr>sc_name = sc_name c, sc_value = sc_value c, sc_domain = [], sc_path = [],
    sc_secure = False, sc_http_only = False, sc_expires = None, sc_max_age = None\<rparr>"
  have c: "sc_name c \<noteq> []" "CHR ''='' \<notin> set (sc_name c)" "cookie_text (sc_name c)" "cookie_text (sc_value c)"
    using assms by (auto simp: printable_cookie_def)
  have pair: "CHR '';'' \<notin> set ?pair" "clean ?pair"
    using c by (auto simp: cookie_text_def clean_def back_blank_def)
  have split: "before (CHR '';'') (show_set_cookie c) = ?pair
    \<and> (case after (CHR '';'') (show_set_cookie c) of None \<Rightarrow> ?blank
       | Some r \<Rightarrow> cookie_attributes getdate r ?blank) = c"
  proof (cases "show_attributes c")
    case Nil
    then show ?thesis
      using pair(1) fold_show_attributes [OF assms, of getdate] by (simp add: show_set_cookie_def)
  next
    case (Cons a as)
    then have "show_set_cookie c
        = ?pair @ CHR '';'' # (CHR '' '' # a @ concat (map (\<lambda>a. ''; '' @ a) as))"
      by (simp add: show_set_cookie_def)
    moreover have "cookie_attributes getdate (CHR '' '' # a @ concat (map (\<lambda>a. ''; '' @ a) as)) ?blank = c"
      using attributes_fold [of a as getdate ?blank] show_attributes_tokens [OF assms] Cons
        fold_show_attributes [OF assms, of getdate] by simp
    ultimately show ?thesis
      using before_append [OF pair(1)] after_append [OF pair(1)] by simp
  qed
  have "cookie_attributes getdate [] ?blank = ?blank" by (simp add: cookie_attributes.simps)
  then show ?thesis
    using split pair(2) c by (simp add: parseSetCookie_def cookie_text_def split: option.splits)
qed

theorem set_cookie_roundtrip_witness:
  "parseSetCookie (\<lambda>_. - 1) ''sid=a b; Path=/x; Secure; Max-Age=-5''
    = Some \<lparr>sc_name = ''sid'', sc_value = ''a b'', sc_domain = [], sc_path = ''/x'', sc_secure = True,
        sc_http_only = False, sc_expires = None, sc_max_age = Some (- 5)\<rparr>"
proof -
  let ?c = "\<lparr>sc_name = ''sid'', sc_value = ''a b'', sc_domain = [], sc_path = ''/x'', sc_secure = True,
        sc_http_only = False, sc_expires = None, sc_max_age = Some (- 5)\<rparr>"
  have "printable_cookie ?c"
    by (simp add: printable_cookie_def cookie_text_def clean_def back_blank_def)
  moreover have "show_set_cookie ?c = ''sid=a b; Path=/x; Secure; Max-Age=-5''"
    by code_simp
  ultimately show ?thesis using set_cookie_roundtrip [of ?c "\<lambda>_. - 1"] by simp
qed

text \<open>
  The header fields are a map up to case: after setting a field, reading it under any
  spelling gives the one new value, and every field of another name keeps all its values
  in order; erasing a field removes every entry under every spelling and nothing else.
\<close>

theorem header_fields_map:
  "headers_get n (headers_set m v h) = (if headerNamesEqual m n then v else headers_get n h)
   \<and> headers_all n (headers_set m v h) = (if headerNamesEqual m n then [v] else headers_all n h)
   \<and> (headers_contains n (headers_set m v h) \<longleftrightarrow> headerNamesEqual m n \<or> headers_contains n h)
   \<and> headers_all n (headers_erase m h) = (if headerNamesEqual m n then [] else headers_all n h)"
proof -
  have "headers_all n (headers_erase m h) = (if headerNamesEqual m n then [] else headers_all n h)"
    by (induction h) (auto simp: headers_all_def headers_erase_def headerNamesEqual_def)
  then show ?thesis
    using hdr.get_put [of n m v h] hdr.contains_put [of n m v h]
    by (simp add: headers_all_def headers_set_def headers_add_def)
qed

text \<open>
  A body that is short enough to be logged whole is logged as its words separated by
  single spaces, so that it stays on one line: the state machine over the characters
  agrees with splitting the text at white space, dropping the empty pieces and joining.
\<close>

theorem describe_body_words:
  assumes "0 < bytes" and "bytes \<le> HTTP_BODY_LOG_LIMIT" and "bytes \<le> length body"
  shows "describeBody body bytes = joined_words (body_words body)"
  using assms collapse_words [of "[]" body] by (simp add: describeBody_def)

theorem describe_body_words_witness:
  "describeBody (''  a'' @ [CHR 0x0A] @ '' bc '') 7 = ''a bc''"
  using describe_body_words [of 7 "''  a'' @ [CHR 0x0A] @ '' bc ''"]
  by (simp add: HTTP_BODY_LOG_LIMIT_def joined_words_def body_words_def spaced_words_def is_space_def
      char_code_def)

text \<open>
  A request method is recognised exactly by its name in any case, and the name of
  every method is recognised as that method.
\<close>

theorem http_method_names:
  "(parseHttpMethod s = Some m \<longleftrightarrow> map to_upper s = httpMethodName m)
   \<and> parseHttpMethod (httpMethodName m) = Some m"
proof -
  have "map to_upper (httpMethodName m) = httpMethodName m"
    by (cases m) (simp_all add: to_upper_def char_code_def)
  moreover have "parseHttpMethod s = Some m \<longleftrightarrow> map to_upper s = httpMethodName m" for s
    by (cases m) (auto simp: parseHttpMethod_def Let_def)
  ultimately show ?thesis by simp
qed

end
