(* ===== verification/Http_Transfer.thy ===== *)
theory Http_Transfer
  imports Lane_Policy Http_Message
begin

text \<open>
  The vocabulary of the downloader's transfers (\<^verbatim>\<open>http/Transfer.hpp\<close>,
  \<^verbatim>\<open>ImportSink.hpp\<close>).  Callbacks, import sinks and cancellation flags are objects of the
  caller; they appear as identities (\<^typ>\<open>nat\<close>), and a null pointer is \<^const>\<open>None\<close>.  Of the
  JSON import options the transfers read one flag, \<^verbatim>\<open>requireFile\<close>.
\<close>

datatype TransferErrorCode =
  INVALID_REQUEST | INVALID_URL | TRANSPORT | TOO_LARGE | SINK | CANCELLED | SHUTDOWN

record TransferError =
  code :: TransferErrorCode
  message :: string

record TransferOptions =
  o_http_version :: "HttpVersion option"
  follow_redirects :: bool
  max_redirects :: int
  max_response_bytes :: nat
  timeout_ms :: int
  user_agent :: string
  o_bytes_per_second :: nat

record TransferHop =
  hop_url :: string
  hop_status :: int

record ImportMetadata =
  im_size :: nat
  im_content_type :: string
  im_filename :: string
  im_final_url :: string

record ImportResult =
  import_record_id :: int
  import_note :: string

record TransferResponse =
  status :: int
  resp_url :: string
  resp_headers :: HttpHeaders
  resp_body :: string
  resp_bytes :: nat
  hops :: "TransferHop list"
  resp_import :: "ImportResult option"
  import_metadata :: ImportMetadata
  resp_sink :: "nat option"

type_synonym TransferResult = "(TransferError, TransferResponse) result"

record TransferRequest =
  req_method :: HttpMethod
  req_url :: string
  req_headers :: HttpHeaders
  req_body :: string
  sensitive_query :: "string list"
  options :: TransferOptions
  req_cookies :: "nat option"
  sink :: "nat option"
  require_file :: bool
  cancellation :: "nat option"

record Pending =
  request :: TransferRequest
  pending_callback :: nat

text \<open>What the transfer code does to the objects it was given.\<close>

datatype transfer_effect =
    Answer nat TransferResult
  | AbortSink nat
  | WriteSink nat string
  | FinishSink nat ImportMetadata

definition failure :: "TransferErrorCode \<Rightarrow> string \<Rightarrow> TransferResult" where
  "failure c m = Inl \<lparr>code = c, message = m\<rparr>"

definition abort_sink :: "TransferRequest \<Rightarrow> transfer_effect list" where
  "abort_sink r = (case sink r of None \<Rightarrow> [] | Some s \<Rightarrow> [AbortSink s])"

end
