(* ===== verification/Lane.thy ===== *)
theory Lane
  imports Http_Transfer "HOL-Library.Multiset" "HOL-Library.Sublist"
begin

text \<open>
  One lane of the downloader (\<^verbatim>\<open>http/Lane.cpp\<close>): the queue of transfers for a host, the
  shards that run them, and the pump that starts queued transfers as the policy grants
  slots.  The policy is shared by reference, so an operation takes and returns it beside
  the lane.  A shard is an identity; its count of assigned transfers (\<^verbatim>\<open>m_assigned\<close>) is kept
  in \<open>assigned\<close>.  A clock argument \<open>clock k\<close> is the \<open>k\<close>-th reading of the steady clock during
  one call.  Work posted to other threads is an effect; a wakeup that was posted stays in
  \<open>timers\<close> until it fires.
\<close>

section \<open>State\<close>

record LaneConfig =
  max_shards :: nat
  shard_growth_threshold :: nat
  unthrottled_concurrency :: nat
  throttled_concurrency :: nat

record Gate =
  armed :: bool
  deadline :: int
  gate_generation :: u64

record DownloadSample =
  bucket :: int
  sample_bytes :: nat

record Lane =
  l_key :: string
  l_config :: LaneConfig
  l_queue :: "Pending list"
  l_shards :: "nat list"
  assigned :: "nat \<Rightarrow> nat"
  next_shard :: nat
  l_in_flight :: nat
  last_enqueued :: int
  gate :: Gate
  download_samples :: "DownloadSample list"
  stopped :: bool
  timers :: "int list"

datatype lane_effect =
    Transfer transfer_effect
  | AttachShard nat
  | StartOn nat Pending int
  | CancelOn nat "nat option"
  | ReleaseShard nat

definition newLane :: "string \<Rightarrow> LaneConfig \<Rightarrow> int \<Rightarrow> Lane" where
  "newLane key config now = \<lparr>l_key = key, l_config = config, l_queue = [], l_shards = [],
     assigned = (\<lambda>_. 0), next_shard = 0, l_in_flight = 0, last_enqueued = now,
     gate = \<lparr>armed = False, deadline = 0, gate_generation = 0\<rparr>,
     download_samples = replicate 10 \<lparr>bucket = 0, sample_bytes = 0\<rparr>,
     stopped = False, timers = []\<rparr>"

section \<open>The pump\<close>

definition addShard :: "Lane \<Rightarrow> lane_effect list \<times> Lane" where
  "addShard l = ([AttachShard (next_shard l)],
     l\<lparr>l_shards := l_shards l @ [next_shard l], next_shard := next_shard l + 1\<rparr>)"

definition growIfNeeded :: "LanePolicy \<Rightarrow> Lane \<Rightarrow> lane_effect list \<times> Lane" where
  "growIfNeeded p l =
     (if l_shards l = [] then addShard l
      else if throttled p \<or> length (l_shards l) \<ge> max_shards (l_config l) then ([], l)
      else let load = l_in_flight l + length (l_queue l) in
        if load \<le> length (l_shards l) * shard_growth_threshold (l_config l) then ([], l)
        else addShard l)"

definition pickShard :: "Lane \<Rightarrow> nat" where
  "pickShard l = foldl (\<lambda>best shard. if assigned l shard < assigned l best then shard else best)
     (hd (l_shards l)) (l_shards l)"

definition arm :: "LanePolicy \<Rightarrow> int \<Rightarrow> int \<Rightarrow> Lane \<Rightarrow> Lane" where
  "arm p now wait l =
     (let d = now + wait in
      if armed (gate l) \<and> gate_generation (gate l) = generation p \<and> deadline (gate l) \<le> d then l
      else l\<lparr>gate := \<lparr>armed = True, deadline = d, gate_generation = generation p\<rparr>,
             timers := timers l @ [d]\<rparr>)"

definition start_front :: "int \<Rightarrow> Lane \<Rightarrow> lane_effect list \<times> Lane" where
  "start_front t l =
     (let shard = pickShard l; pending = hd (l_queue l) in
      ([StartOn shard pending t],
       l\<lparr>l_queue := tl (l_queue l), l_in_flight := l_in_flight l + 1,
         assigned := (assigned l)(shard := assigned l shard + 1)\<rparr>))"

lemma growIfNeeded_frame [simp]:
  "l_queue (snd (growIfNeeded p l)) = l_queue l"
  "l_in_flight (snd (growIfNeeded p l)) = l_in_flight l"
  "stopped (snd (growIfNeeded p l)) = stopped l"
  "gate (snd (growIfNeeded p l)) = gate l"
  "timers (snd (growIfNeeded p l)) = timers l"
  "l_config (snd (growIfNeeded p l)) = l_config l"
  "assigned (snd (growIfNeeded p l)) = assigned l"
  "l_shards (snd (growIfNeeded p l)) \<noteq> []"
  by (auto simp: growIfNeeded_def addShard_def Let_def)

function pump_loop ::
  "nat \<Rightarrow> (nat \<Rightarrow> int) \<Rightarrow> nat \<Rightarrow> Lane \<Rightarrow> LanePolicy \<Rightarrow> lane_effect list \<times> Lane \<times> LanePolicy" where
  "pump_loop ceiling clock k l p =
     (if \<not> stopped l \<and> l_queue l \<noteq> [] \<and> l_in_flight l < ceiling then
        (case claim (clock k) p of
           (Some wait, p') \<Rightarrow> ([], arm p' (clock (k + 1)) wait l, p')
         | (None, p') \<Rightarrow>
             (let (grown, l1) = growIfNeeded p' l in
              if l_shards l1 = [] then (grown, l1, p')
              else
                let (started, l2) = start_front (clock k) l1;
                    (rest, l3, p3) = pump_loop ceiling clock (k + 1) l2 p' in
                (grown @ started @ rest, l3, p3)))
      else ([], l, p))"
  by pat_completeness auto

termination
proof (relation "measure (\<lambda>(_, _, _, l, _). length (l_queue l))", goal_cases)
  case (2 ceiling clock k l p x p' grown g l1 started s l2)
  then have "l_queue l1 = l_queue l"
    using growIfNeeded_frame(1) [of p' l] by (metis snd_conv)
  with 2 show ?case
    by (cases "l_queue l") (auto simp: start_front_def Let_def)
qed simp

declare pump_loop.simps [simp del]

definition lane_ceiling :: "LanePolicy \<Rightarrow> Lane \<Rightarrow> nat" where
  "lane_ceiling p l =
     lane_concurrency (unthrottled_concurrency (l_config l)) (throttled_concurrency (l_config l)) p"

definition pump :: "(nat \<Rightarrow> int) \<Rightarrow> Lane \<Rightarrow> LanePolicy \<Rightarrow> lane_effect list \<times> Lane \<times> LanePolicy" where
  "pump clock l p = pump_loop (lane_ceiling p l) clock 0 l p"

section \<open>Operations\<close>

definition shutting_down :: TransferResult where
  "shutting_down = failure SHUTDOWN ''The lane is shutting down''"

definition transfer_cancelled :: TransferResult where
  "transfer_cancelled = failure CANCELLED ''Transfer cancelled''"

definition refuse :: "TransferResult \<Rightarrow> Pending \<Rightarrow> lane_effect list" where
  "refuse r pending =
     map Transfer (abort_sink (request pending) @ [Answer (pending_callback pending) r])"

definition submit ::
  "(nat \<Rightarrow> int) \<Rightarrow> Pending \<Rightarrow> Lane \<Rightarrow> LanePolicy \<Rightarrow> lane_effect list \<times> Lane \<times> LanePolicy" where
  "submit clock pending l p =
     (if stopped l then (refuse shutting_down pending, l, p)
      else pump (\<lambda>k. clock (k + 1))
             (l\<lparr>last_enqueued := clock 0, l_queue := l_queue l @ [pending]\<rparr>) p)"

definition cancel :: "nat option \<Rightarrow> Lane \<Rightarrow> lane_effect list \<times> Lane" where
  "cancel token l =
     (concat (map (refuse transfer_cancelled) (filter (\<lambda>e. cancellation (request e) = token) (l_queue l)))
        @ map (\<lambda>s. CancelOn s token) (l_shards l),
      l\<lparr>l_queue := filter (\<lambda>e. cancellation (request e) \<noteq> token) (l_queue l)\<rparr>)"

definition wake :: "(nat \<Rightarrow> int) \<Rightarrow> Lane \<Rightarrow> LanePolicy \<Rightarrow> lane_effect list \<times> Lane \<times> LanePolicy" where
  "wake clock l p = pump clock l p"

definition onTransferFinished ::
  "(nat \<Rightarrow> int) \<Rightarrow> Lane \<Rightarrow> LanePolicy \<Rightarrow> lane_effect list \<times> Lane \<times> LanePolicy" where
  "onTransferFinished clock l p =
     pump clock (if l_in_flight l > 0 then l\<lparr>l_in_flight := l_in_flight l - 1\<rparr> else l) p"

text \<open>The task that \<open>arm\<close> posted for the deadline \<open>d\<close>.\<close>

definition wakeup :: "(nat \<Rightarrow> int) \<Rightarrow> int \<Rightarrow> Lane \<Rightarrow> LanePolicy \<Rightarrow> lane_effect list \<times> Lane \<times> LanePolicy" where
  "wakeup clock d l p =
     (let l' = l\<lparr>timers := remove1 d (timers l)\<rparr> in
      if \<not> armed (gate l') \<or> deadline (gate l') \<noteq> d then ([], l', p)
      else pump clock (l'\<lparr>gate := (gate l')\<lparr>armed := False\<rparr>\<rparr>) p)"

definition retirable :: "int \<Rightarrow> int \<Rightarrow> Lane \<Rightarrow> bool" where
  "retirable alive_for now l \<longleftrightarrow>
     l_queue l = [] \<and> l_in_flight l = 0 \<and> now - last_enqueued l \<ge> alive_for"

definition shutdown :: "Lane \<Rightarrow> lane_effect list \<times> Lane" where
  "shutdown l =
     (if stopped l then ([], l)
      else (concat (map (refuse shutting_down) (l_queue l)) @ map ReleaseShard (l_shards l),
            l\<lparr>stopped := True, l_queue := [], l_shards := []\<rparr>))"

section \<open>The download meter\<close>

definition bucket_of :: "int \<Rightarrow> int" where
  "bucket_of now = now div 1000000 div 100"

definition bucket_time :: "int \<Rightarrow> int" where
  "bucket_time b = b * 100 * 1000000"

definition onBytesReceived :: "nat \<Rightarrow> int \<Rightarrow> Lane \<Rightarrow> Lane" where
  "onBytesReceived bytes now l =
     (let b = bucket_of now; timestamp = bucket_time b;
          i = nat b mod length (download_samples l);
          sample = download_samples l ! i;
          fresh = (if bucket sample \<noteq> timestamp then \<lparr>bucket = timestamp, sample_bytes = 0\<rparr> else sample) in
      l\<lparr>download_samples := (download_samples l)[i := fresh\<lparr>sample_bytes := sample_bytes fresh + bytes\<rparr>]\<rparr>)"

definition lane_fill :: "int \<Rightarrow> Lane \<Rightarrow> LaneSnapshot \<Rightarrow> LaneSnapshot" where
  "lane_fill now l snap = snap\<lparr>
     in_flight := l_in_flight l,
     queued := length (l_queue l),
     shards := length (l_shards l),
     active := True,
     download_bytes_per_second :=
       sum_list (map sample_bytes
         (filter (\<lambda>s. now \<ge> bucket s \<and> now - bucket s < ns_per_second) (download_samples l)))\<rparr>"

section \<open>Histories\<close>

datatype lane_event =
    Submit Pending
  | Cancel "nat option"
  | Wake
  | Finished
  | Wakeup int
  | Shutdown
  | Policy policy_event

text \<open>One call into the lane, or one call that another object makes on its policy.\<close>

fun lane_step ::
  "(nat \<Rightarrow> nat \<Rightarrow> int) \<Rightarrow> (string \<Rightarrow> (int \<times> string) option) \<Rightarrow> (nat \<Rightarrow> int) \<Rightarrow> lane_event \<Rightarrow>
   Lane \<Rightarrow> LanePolicy \<Rightarrow> lane_effect list \<times> Lane \<times> LanePolicy" where
  "lane_step q g clock (Submit pending) l p = submit clock pending l p"
| "lane_step q g clock (Cancel tok) l p = (let (e, l') = cancel tok l in (e, l', p))"
| "lane_step q g clock Wake l p = wake clock l p"
| "lane_step q g clock Finished l p = onTransferFinished clock l p"
| "lane_step q g clock (Wakeup d) l p = wakeup clock d l p"
| "lane_step q g clock Shutdown l p = (let (e, l') = shutdown l in (e, l', p))"
| "lane_step q g clock (Policy e) l p = ([], l, policy_step q g e p)"

fun lane_run ::
  "(nat \<Rightarrow> nat \<Rightarrow> int) \<Rightarrow> (string \<Rightarrow> (int \<times> string) option) \<Rightarrow> (lane_event \<times> (nat \<Rightarrow> int)) list \<Rightarrow>
   Lane \<Rightarrow> LanePolicy \<Rightarrow> lane_effect list \<times> Lane \<times> LanePolicy" where
  "lane_run q g [] l p = ([], l, p)"
| "lane_run q g ((e, clock) # es) l p =
     (let (f, l1, p1) = lane_step q g clock e l p; (fs, l2, p2) = lane_run q g es l1 p1 in (f @ fs, l2, p2))"

text \<open>The transfers started and the callbacks answered by a list of effects.\<close>

fun starts :: "lane_effect list \<Rightarrow> Pending list" where
  "starts [] = []"
| "starts (StartOn s p t # es) = p # starts es"
| "starts (_ # es) = starts es"

fun start_times :: "lane_effect list \<Rightarrow> int list" where
  "start_times [] = []"
| "start_times (StartOn s p t # es) = t # start_times es"
| "start_times (_ # es) = start_times es"

fun answered :: "lane_effect list \<Rightarrow> nat list" where
  "answered [] = []"
| "answered (Transfer (Answer c r) # es) = c # answered es"
| "answered (_ # es) = answered es"

fun submitted :: "(lane_event \<times> (nat \<Rightarrow> int)) list \<Rightarrow> nat list" where
  "submitted [] = []"
| "submitted ((Submit p, c) # es) = pending_callback p # submitted es"
| "submitted (_ # es) = submitted es"

lemma effects_append [simp]:
  "starts (a @ b) = starts a @ starts b"
  "start_times (a @ b) = start_times a @ start_times b"
  "answered (a @ b) = answered a @ answered b"
proof -
  show "starts (a @ b) = starts a @ starts b" by (induction a rule: starts.induct) auto
  show "start_times (a @ b) = start_times a @ start_times b" by (induction a rule: start_times.induct) auto
  show "answered (a @ b) = answered a @ answered b" by (induction a rule: answered.induct) auto
qed

lemma effects_other [simp]:
  "starts (fst (growIfNeeded p l)) = []" "start_times (fst (growIfNeeded p l)) = []"
  "answered (fst (growIfNeeded p l)) = []"
  by (auto simp: growIfNeeded_def addShard_def Let_def)

lemma effects_refuse [simp]:
  "starts (refuse r x) = []" "start_times (refuse r x) = []"
  "answered (refuse r x) = [pending_callback x]"
  by (auto simp: refuse_def abort_sink_def split: option.split)

lemma effects_refuse_all [simp]:
  "starts (concat (map (refuse r) xs)) = []" "start_times (concat (map (refuse r) xs)) = []"
  "answered (concat (map (refuse r) xs)) = map pending_callback xs"
  by (induction xs) auto

lemma effects_shards [simp]:
  "starts (map (\<lambda>s. CancelOn s t) xs) = []" "start_times (map (\<lambda>s. CancelOn s t) xs) = []"
  "answered (map (\<lambda>s. CancelOn s t) xs) = []"
  "starts (map ReleaseShard xs) = []" "start_times (map ReleaseShard xs) = []"
  "answered (map ReleaseShard xs) = []"
  by (induction xs) auto

section \<open>What the pump does\<close>

definition gate_ok :: "Lane \<Rightarrow> bool" where
  "gate_ok l \<longleftrightarrow> (armed (gate l) \<longrightarrow> deadline (gate l) \<in> set (timers l))"

lemma arm_frame [simp]:
  "l_queue (arm p now w l) = l_queue l" "l_in_flight (arm p now w l) = l_in_flight l"
  "stopped (arm p now w l) = stopped l" "l_config (arm p now w l) = l_config l"
  "l_shards (arm p now w l) = l_shards l" "assigned (arm p now w l) = assigned l"
  by (auto simp: arm_def Let_def)

lemma arm_armed: "armed (gate (arm p now w l))"
  by (auto simp: arm_def Let_def)

lemma arm_gate_ok: "gate_ok l \<Longrightarrow> gate_ok (arm p now w l)"
  by (auto simp: arm_def gate_ok_def Let_def)

lemma start_front_frame:
  "l_queue (snd (start_front t l)) = tl (l_queue l)"
  "l_in_flight (snd (start_front t l)) = Suc (l_in_flight l)"
  "stopped (snd (start_front t l)) = stopped l"
  "gate (snd (start_front t l)) = gate l" "timers (snd (start_front t l)) = timers l"
  "l_config (snd (start_front t l)) = l_config l" "l_shards (snd (start_front t l)) = l_shards l"
  "starts (fst (start_front t l)) = [hd (l_queue l)]" "start_times (fst (start_front t l)) = [t]"
  "answered (fst (start_front t l)) = []"
  by (auto simp: start_front_def Let_def)

text \<open>
  The pump as a relation: one rule per way the loop goes on, so that facts about it are
  proved by rule induction.
\<close>

inductive pumped :: "nat \<Rightarrow> (nat \<Rightarrow> int) \<Rightarrow> nat \<Rightarrow> Lane \<Rightarrow> LanePolicy \<Rightarrow> lane_effect list \<Rightarrow> Lane \<Rightarrow> LanePolicy \<Rightarrow> bool"
  for c clock where
  idle: "stopped l \<or> l_queue l = [] \<or> c \<le> l_in_flight l \<Longrightarrow> pumped c clock k l p [] l p"
| wait: "\<not> stopped l \<Longrightarrow> l_queue l \<noteq> [] \<Longrightarrow> l_in_flight l < c \<Longrightarrow> claim (clock k) p = (Some w, p')
    \<Longrightarrow> pumped c clock k l p [] (arm p' (clock (k + 1)) w l) p'"
| start: "\<not> stopped l \<Longrightarrow> l_queue l \<noteq> [] \<Longrightarrow> l_in_flight l < c \<Longrightarrow> claim (clock k) p = (None, p')
    \<Longrightarrow> l1 = snd (growIfNeeded p' l)
    \<Longrightarrow> pumped c clock (k + 1) (snd (start_front (clock k) l1)) p' rest l3 p3
    \<Longrightarrow> pumped c clock k l p (fst (growIfNeeded p' l) @ fst (start_front (clock k) l1) @ rest) l3 p3"

lemma pump_loop_start:
  assumes "\<not> stopped l" and "l_queue l \<noteq> []" and "l_in_flight l < c" and "claim (clock k) p = (None, q)"
  shows "pump_loop c clock k l p =
     (case pump_loop c clock (k + 1) (snd (start_front (clock k) (snd (growIfNeeded q l)))) q of
        (rest, l3, p3) \<Rightarrow>
          (fst (growIfNeeded q l) @ fst (start_front (clock k) (snd (growIfNeeded q l))) @ rest, l3, p3))"
  using assms by (subst pump_loop.simps) (simp add: Let_def case_prod_beta)

lemma pump_loop_pumped:
  "pump_loop c clock k l p = (e, l', p') \<Longrightarrow> pumped c clock k l p e l' p'"
proof (induction c clock k l p arbitrary: e l' p' rule: pump_loop.induct)
  case (1 c clock k l p)
  show ?case
  proof (cases "\<not> stopped l \<and> l_queue l \<noteq> [] \<and> l_in_flight l < c")
    case False
    then show ?thesis
      using "1.prems" by (subst (asm) pump_loop.simps) (auto simp: not_less intro: pumped.idle)
  next
    case go: True
    show ?thesis
    proof (cases "claim (clock k) p")
      case (Pair r q)
      show ?thesis
      proof (cases r)
        case (Some w)
        then show ?thesis
          using "1.prems" go Pair by (subst (asm) pump_loop.simps) (auto intro: pumped.wait [simplified])
      next
        case None
        let ?l1 = "snd (growIfNeeded q l)"
        obtain r3 l3 p3 where rest: "pump_loop c clock (k + 1) (snd (start_front (clock k) ?l1)) q = (r3, l3, p3)"
          by (cases "pump_loop c clock (k + 1) (snd (start_front (clock k) ?l1)) q") auto
        then have "pumped c clock (k + 1) (snd (start_front (clock k) ?l1)) q r3 l3 p3"
          by (rule "1.IH" [OF go Pair [unfolded None, symmetric] refl refl prod.collapse
                growIfNeeded_frame(8) refl prod.collapse])
        moreover have "e = fst (growIfNeeded q l) @ fst (start_front (clock k) ?l1) @ r3" "l' = l3" "p' = p3"
          using "1.prems" pump_loop_start [of l c clock k p q] go Pair None rest by auto
        ultimately show ?thesis using pumped.start go Pair None by simp
      qed
    qed
  qed
qed

lemma pumped_conserves:
  "pumped c clock k l p e l' p' \<Longrightarrow>
     starts e @ l_queue l' = l_queue l \<and> answered e = []
     \<and> l_in_flight l' = l_in_flight l + length (starts e)
     \<and> stopped l' = stopped l \<and> l_config l' = l_config l"
  by (induction rule: pumped.induct) (auto simp: start_front_frame)

lemma pumped_ceiling:
  "pumped c clock k l p e l' p' \<Longrightarrow> l_in_flight l \<le> c \<Longrightarrow> l_in_flight l' \<le> c"
  by (induction rule: pumped.induct) (auto simp: start_front_frame)

lemma gate_ok_frame [simp]:
  "gate_ok (snd (growIfNeeded p l)) = gate_ok l" "gate_ok (snd (start_front t l)) = gate_ok l"
  by (simp_all add: gate_ok_def start_front_frame)

lemma pumped_gate:
  "pumped c clock k l p e l' p' \<Longrightarrow> gate_ok l \<Longrightarrow>
     gate_ok l' \<and> (stopped l' \<or> l_queue l' = [] \<or> c \<le> l_in_flight l' \<or> armed (gate l'))"
  by (induction rule: pumped.induct)
    (auto simp: arm_armed arm_gate_ok start_front_frame)

lemma claim_step: "claim now p = (r, p') \<Longrightarrow> policy_step q g (Claim now) p = p'"
  by simp

lemma pumped_policy:
  "pumped c clock k l p e l' p' \<Longrightarrow>
     \<exists>ts. p' = policy_after q g (map Claim ts) p
        \<and> start_times e = policy_grants q g (map Claim ts) p"
proof (induction rule: pumped.induct)
  case (idle l k p)
  show ?case by (rule exI [of _ "[]"]) (simp add: policy_after_def)
next
  case (wait l k p w p')
  then show ?case by (intro exI [of _ "[clock k]"]) (simp add: policy_after_def)
next
  case (start l k p p' l1 rest l3 p3)
  then obtain ts where "p3 = policy_after q g (map Claim ts) p'"
    "start_times rest = policy_grants q g (map Claim ts) p'" by blast
  with start show ?case
    by (intro exI [of _ "clock k # ts"]) (simp add: policy_after_def start_front_frame)
qed

lemma policy_grants_append:
  "policy_grants q g (a @ b) p = policy_grants q g a p @ policy_grants q g b (policy_after q g a p)"
  by (induction a arbitrary: p) (simp_all add: policy_after_def)

lemma policy_settings_frame [simp]:
  "p_settings (widen p) = p_settings p"
  "p_settings (pause c now p) = p_settings p"
  "p_settings (snd (openPause now p)) = p_settings p"
  "p_settings (snd (claim now p)) = p_settings p"
  by (simp_all add: widen_def pause_def openPause_def claim_def Let_def)

fun reconfigures :: "policy_event \<Rightarrow> bool" where
  "reconfigures (Configure s) = True"
| "reconfigures _ = False"

lemma policy_step_settings: "\<not> reconfigures e \<Longrightarrow> p_settings (policy_step q g e p) = p_settings p"
  by (cases e) (simp_all add: limited_alt failed_alt advertised_def reset_def Let_def)

lemma policy_after_claims_settings: "p_settings (policy_after q g (map Claim ts) p) = p_settings p"
  by (induction ts arbitrary: p) (simp_all add: policy_after_def)

lemma lane_ceiling_cong:
  "p_settings p' = p_settings p \<Longrightarrow> l_config l' = l_config l \<Longrightarrow> lane_ceiling p' l' = lane_ceiling p l"
  by (simp add: lane_ceiling_def lane_concurrency_def throttled_def)

lemma pumped_settings: "pumped c clock k l p e l' p' \<Longrightarrow> p_settings p' = p_settings p"
  using pumped_policy [of c clock k l p e l' p' "\<lambda>_ _. 0" "\<lambda>_. None"] policy_after_claims_settings by metis

section \<open>The lane invariant\<close>

text \<open>
  The ceiling on running transfers holds, an armed gate has its wakeup posted, and a lane
  with work and room waits for a wakeup.
\<close>

definition lane_ok :: "Lane \<Rightarrow> LanePolicy \<Rightarrow> bool" where
  "lane_ok l p \<longleftrightarrow> gate_ok l \<and> l_in_flight l \<le> lane_ceiling p l
     \<and> (\<not> stopped l \<and> l_queue l \<noteq> [] \<and> l_in_flight l < lane_ceiling p l \<longrightarrow> armed (gate l))"

lemma pump_pumped: "pump clock l p = (e, l', p') \<Longrightarrow> pumped (lane_ceiling p l) clock 0 l p e l' p'"
  unfolding pump_def by (rule pump_loop_pumped)

lemma pump_ok:
  assumes "pump clock l p = (e, l', p')" and "gate_ok l" and "l_in_flight l \<le> lane_ceiling p l"
  shows "lane_ok l' p'"
proof -
  note P = pump_pumped [OF assms(1)]
  have "lane_ceiling p' l' = lane_ceiling p l"
    using pumped_settings [OF P] pumped_conserves [OF P] by (intro lane_ceiling_cong) auto
  then show ?thesis
    using pumped_gate [OF P assms(2)] pumped_ceiling [OF P assms(3)] by (auto simp: lane_ok_def)
qed

lemma lane_step_ok:
  assumes "lane_step q g clock e l p = (f, l', p')" and "lane_ok l p"
    and "\<forall>pe. e = Policy pe \<longrightarrow> \<not> reconfigures pe"
  shows "lane_ok l' p'"
proof -
  have g: "gate_ok l" and c: "l_in_flight l \<le> lane_ceiling p l" using assms(2) by (auto simp: lane_ok_def)
  have same: "gate_ok l0 \<and> lane_ceiling p l0 = lane_ceiling p l"
    if "gate l0 = gate l" "timers l0 = timers l" "l_config l0 = l_config l" for l0
    using that g by (simp add: gate_ok_def lane_ceiling_def)
  show ?thesis
  proof (cases e)
    case (Submit x)
    then show ?thesis
      using assms same [of "l\<lparr>last_enqueued := clock 0, l_queue := l_queue l @ [x]\<rparr>"] c
      by (auto simp: submit_def split: if_splits intro!: pump_ok)
  next
    case (Cancel tok)
    then show ?thesis using assms by (auto simp: cancel_def lane_ok_def gate_ok_def lane_ceiling_def)
  next
    case Wake
    then show ?thesis using assms g c by (auto simp: wake_def intro: pump_ok)
  next
    case Finished
    then show ?thesis
      using assms same [of "l\<lparr>l_in_flight := l_in_flight l - 1\<rparr>"] g c
      by (auto simp: onTransferFinished_def split: if_splits intro!: pump_ok)
  next
    case (Wakeup d)
    let ?l = "l\<lparr>timers := remove1 d (timers l)\<rparr>"
    show ?thesis
    proof (cases "armed (gate l) \<and> deadline (gate l) = d")
      case True
      then show ?thesis
        using assms Wakeup c
        by (auto simp: wakeup_def Let_def gate_ok_def lane_ceiling_def intro!: pump_ok)
    next
      case False
      then show ?thesis
        using assms Wakeup by (auto simp: wakeup_def Let_def lane_ok_def gate_ok_def lane_ceiling_def)
    qed
  next
    case Shutdown
    then show ?thesis
      using assms by (auto simp: shutdown_def lane_ok_def gate_ok_def lane_ceiling_def split: if_splits)
  next
    case (Policy pe)
    then have "lane_ceiling p' l' = lane_ceiling p l" "l' = l"
      using assms policy_step_settings [of pe q g p] lane_ceiling_cong [of p' p l' l] by auto
    then show ?thesis using assms(2) by (simp add: lane_ok_def)
  qed
qed

section \<open>Conservation, order and pace\<close>

abbreviation callbacks :: "Pending list \<Rightarrow> nat list" where
  "callbacks ps \<equiv> map pending_callback ps"

lemma lane_step_conserves:
  assumes "lane_step q g clock e l p = (f, l', p')"
  shows "mset (callbacks (l_queue l) @ submitted [(e, clock)])
      = mset (answered f @ callbacks (starts f) @ callbacks (l_queue l'))
    \<and> subseq (callbacks (starts f @ l_queue l')) (callbacks (l_queue l) @ submitted [(e, clock)])"
proof -
  have pumped: "mset (callbacks (l_queue l0)) = mset (answered f @ callbacks (starts f) @ callbacks (l_queue l'))
      \<and> callbacks (starts f @ l_queue l') = callbacks (l_queue l0) \<and> answered f = []"
    if "pump c l0 p = (f, l', p')" for c l0
  proof -
    have c: "starts f @ l_queue l' = l_queue l0" "answered f = []"
      using pumped_conserves [OF pump_pumped [OF that]] by auto
    show ?thesis using c(2) by (simp flip: c(1))
  qed
  show ?thesis
  proof (cases e)
    case (Submit x)
    then show ?thesis
      using assms pumped [of "\<lambda>k. clock (k + 1)" "l\<lparr>last_enqueued := clock 0, l_queue := l_queue l @ [x]\<rparr>"]
      by (auto simp: submit_def split: if_splits)
  next
    case (Cancel tok)
    have "mset (callbacks xs)
        = mset (callbacks (filter (\<lambda>e. cancellation (request e) = tok) xs))
        + mset (callbacks (filter (\<lambda>e. cancellation (request e) \<noteq> tok) xs))" for xs
      by (induction xs) auto
    from this [of "l_queue l"] show ?thesis
      using assms Cancel by (auto simp: cancel_def subseq_map)
  next
    case Wake
    then show ?thesis using assms pumped [of clock l] by (simp add: wake_def)
  next
    case Finished
    then show ?thesis
      using assms pumped [of clock "l\<lparr>l_in_flight := l_in_flight l - 1\<rparr>"] pumped [of clock l]
      by (auto simp: onTransferFinished_def split: if_splits)
  next
    case (Wakeup d)
    then show ?thesis
      using assms pumped [of clock "l\<lparr>timers := remove1 d (timers l), gate := (gate l)\<lparr>armed := False\<rparr>\<rparr>"]
      by (auto simp: wakeup_def Let_def split: if_splits)
  next
    case Shutdown
    then show ?thesis using assms by (auto simp: shutdown_def split: if_splits)
  next
    case (Policy pe)
    then show ?thesis using assms by auto
  qed
qed

lemma submitted_Cons: "submitted (x # es) = submitted [x] @ submitted es"
  by (cases x; cases "fst x") auto

lemma lane_run_conserves:
  assumes "lane_run q g es l p = (f, l', p')"
  shows "mset (callbacks (l_queue l) @ submitted es)
      = mset (answered f @ callbacks (starts f) @ callbacks (l_queue l'))
    \<and> subseq (callbacks (starts f @ l_queue l')) (callbacks (l_queue l) @ submitted es)"
  using assms
proof (induction es arbitrary: l p f)
  case (Cons x es)
  obtain e clock where x: "x = (e, clock)" by (cases x)
  obtain f1 l1 p1 where s: "lane_step q g clock e l p = (f1, l1, p1)" by (cases "lane_step q g clock e l p")
  obtain f2 where r: "lane_run q g es l1 p1 = (f2, l', p')" and f: "f = f1 @ f2"
    using Cons.prems s x by (auto split: prod.splits)
  note S = lane_step_conserves [OF s] and R = Cons.IH [OF r]
  have "subseq (callbacks (starts f1) @ callbacks (starts f2 @ l_queue l'))
      (callbacks (starts f1) @ callbacks (l_queue l1) @ submitted es)"
    using R by (simp add: list_emb_append_mono)
  moreover have "subseq ((callbacks (starts f1) @ callbacks (l_queue l1)) @ submitted es)
      ((callbacks (l_queue l) @ submitted [(e, clock)]) @ submitted es)"
    using S by (simp only: subseq_append map_append)
  ultimately have "subseq (callbacks (starts f @ l_queue l')) (callbacks (l_queue l) @ submitted (x # es))"
    unfolding f x submitted_Cons [of "(e, clock)" es] by (auto intro: subseq_order.trans)
  then show ?case
    using S R unfolding f x submitted_Cons [of "(e, clock)" es] by (auto simp: ac_simps)
qed simp

lemma lane_step_stopped:
  assumes "lane_step q g clock e l p = (f, l', p')" and "stopped l \<longrightarrow> l_queue l = []"
  shows "stopped l' \<longrightarrow> l_queue l' = []"
proof -
  have "stopped l' \<longrightarrow> l_queue l' = []"
    if "pump c l0 p = (f, l', p')" "stopped l0 \<longrightarrow> l_queue l0 = []" for c l0
    using pumped_conserves [OF pump_pumped [OF that(1)]] that(2) by auto
  then show ?thesis
    using assms
    by (cases e) (auto simp: submit_def cancel_def wake_def onTransferFinished_def wakeup_def shutdown_def
        Let_def split: if_splits)
qed

lemma lane_run_invariant:
  assumes "lane_run q g es l p = (f, l', p')" and "I l p"
    and "\<And>e c l p f l' p'. (e, c) \<in> set es \<Longrightarrow> lane_step q g c e l p = (f, l', p') \<Longrightarrow> I l p \<Longrightarrow> I l' p'"
  shows "I l' p'"
  using assms
proof (induction es arbitrary: l p f)
  case (Cons x es)
  obtain e clock where x: "x = (e, clock)" by (cases x)
  obtain f1 l1 p1 where s: "lane_step q g clock e l p = (f1, l1, p1)" by (cases "lane_step q g clock e l p")
  moreover obtain f2 where r: "lane_run q g es l1 p1 = (f2, l', p')"
    using Cons.prems(1) s x by (auto split: prod.splits)
  moreover have "I l1 p1" using Cons.prems(3) [OF _ s Cons.prems(2)] x by simp
  ultimately show ?case using Cons.IH [OF r] Cons.prems(3) by (meson list.set_intros(2))
qed simp

lemma lane_run_stopped:
  assumes "lane_run q g es l p = (f, l', p')" and "stopped l \<longrightarrow> l_queue l = []"
  shows "stopped l' \<longrightarrow> l_queue l' = []"
  using lane_run_invariant [OF assms(1), of "\<lambda>l p. stopped l \<longrightarrow> l_queue l = []"] assms(2)
    lane_step_stopped by blast

definition slowing :: "policy_event \<Rightarrow> bool" where
  "slowing e \<longleftrightarrow> (case e of Limited _ _ _ \<Rightarrow> True | Failed _ \<Rightarrow> True | Advertised _ \<Rightarrow> True | _ \<Rightarrow> False)"

lemma lane_step_policy:
  assumes "lane_step q g clock e l p = (f, l', p')" and "\<forall>pe. e = Policy pe \<longrightarrow> slowing pe"
  shows "\<exists>pes. list_all keeps_backoff pes \<and> p' = policy_after q g pes p
    \<and> start_times f = policy_grants q g pes p"
proof -
  have pumped: "?thesis" if pm: "pump c l0 p = (f, l', p')" for c l0
  proof -
    obtain ts where "p' = policy_after q g (map Claim ts) p" "start_times f = policy_grants q g (map Claim ts) p"
      using pumped_policy [OF pump_pumped [OF pm]] by blast
    moreover have "list_all keeps_backoff (map Claim ts)" by (simp add: list_all_iff)
    ultimately show ?thesis by blast
  qed
  have none: "?thesis" if "p' = p" "start_times f = []"
    using that by (intro exI [of _ "[]"]) (simp add: policy_after_def)
  show ?thesis
  proof (cases e)
    case (Policy pe)
    then have "keeps_backoff pe \<and> grant_of pe p = []" using assms(2) by (cases pe) (auto simp: slowing_def)
    then show ?thesis
      using assms(1) Policy by (intro exI [of _ "[pe]"]) (auto simp: policy_after_def)
  qed (use assms(1) pumped none in
      \<open>auto simp: submit_def cancel_def wake_def onTransferFinished_def wakeup_def shutdown_def Let_def
        split: if_splits\<close>)
qed

lemma policy_after_append: "policy_after q g (a @ b) p = policy_after q g b (policy_after q g a p)"
  by (simp add: policy_after_def)

lemma lane_run_policy:
  assumes "lane_run q g es l p = (f, l', p')"
    and "\<forall>pe c. (Policy pe, c) \<in> set es \<longrightarrow> slowing pe"
  shows "\<exists>pes. list_all keeps_backoff pes \<and> p' = policy_after q g pes p
    \<and> start_times f = policy_grants q g pes p"
  using assms
proof (induction es arbitrary: l p f)
  case Nil
  then show ?case by (intro exI [of _ "[]"]) (simp add: policy_after_def)
next
  case (Cons x es)
  obtain e clock where x: "x = (e, clock)" by (cases x)
  obtain f1 l1 p1 where s: "lane_step q g clock e l p = (f1, l1, p1)" by (cases "lane_step q g clock e l p")
  obtain f2 where r: "lane_run q g es l1 p1 = (f2, l', p')" and f: "f = f1 @ f2"
    using Cons.prems(1) s x by (auto split: prod.splits)
  obtain a where a: "list_all keeps_backoff a" "p1 = policy_after q g a p" "start_times f1 = policy_grants q g a p"
    using lane_step_policy [OF s] Cons.prems(2) x by auto
  obtain b where "list_all keeps_backoff b" "p' = policy_after q g b p1" "start_times f2 = policy_grants q g b p1"
    using Cons.IH [OF r] Cons.prems(2) by auto
  with a f show ?case
    by (intro exI [of _ "a @ b"]) (simp add: policy_after_append policy_grants_append)
qed

section \<open>The download meter\<close>

definition slot :: "int \<Rightarrow> nat" where
  "slot t = nat (bucket_of t) mod 10"

definition bucket_start :: "int \<Rightarrow> int" where
  "bucket_start t = bucket_time (bucket_of t)"

fun receive :: "(int \<times> nat) list \<Rightarrow> Lane \<Rightarrow> Lane" where
  "receive [] l = l"
| "receive ((t, n) # h) l = receive h (onBytesReceived n t l)"

lemma receive_append: "receive (a @ b) l = receive b (receive a l)"
  by (induction a l rule: receive.induct) auto

definition bytes_in :: "(int \<times> nat \<Rightarrow> bool) \<Rightarrow> (int \<times> nat) list \<Rightarrow> nat" where
  "bytes_in P h = (\<Sum>x\<leftarrow>h. if P x then snd x else 0)"

lemma bytes_in_simps [simp]:
  "bytes_in P [] = 0" "bytes_in P (h @ [x]) = bytes_in P h + (if P x then snd x else 0)"
  by (simp_all add: bytes_in_def)

lemma bytes_in_none: "\<forall>x \<in> set h. \<not> P x \<Longrightarrow> bytes_in P h = 0"
  by (induction h) (auto simp: bytes_in_def)

definition meter :: "DownloadSample list \<Rightarrow> (int \<times> nat) list \<Rightarrow> int \<Rightarrow> bool" where
  "meter S h m \<longleftrightarrow> length S = 10 \<and> (\<forall>j < 10.
     bucket (S ! j) \<le> bucket_start m
     \<and> (bucket (S ! j) = 0 \<or> (\<exists>x \<in> set h. slot (fst x) = j \<and> bucket_start (fst x) = bucket (S ! j)))
     \<and> (\<forall>x \<in> set h. slot (fst x) = j \<longrightarrow> bucket_start (fst x) \<le> bucket (S ! j))
     \<and> sample_bytes (S ! j) = bytes_in (\<lambda>x. slot (fst x) = j \<and> bucket_start (fst x) = bucket (S ! j)) h)"

lemma bucket_start_mono: "s \<le> t \<Longrightarrow> bucket_start s \<le> bucket_start t"
  unfolding bucket_start_def bucket_of_def bucket_time_def
  by (intro mult_right_mono zdiv_mono1) auto

lemma bucket_start_le: "bucket_start t \<le> t"
  by (simp add: bucket_start_def bucket_of_def bucket_time_def)

lemma meter_step:
  assumes "meter (download_samples l) h m" and "m \<le> t" and "0 \<le> t"
  shows "meter (download_samples (onBytesReceived n t l)) (h @ [(t, n)]) t"
proof -
  let ?S = "download_samples l" and ?i = "slot t"
  have len: "length ?S = 10" using assms(1) by (simp add: meter_def)
  have le: "bucket (?S ! j) \<le> bucket_start t" if "j < 10" for j
    using assms(1,2) that bucket_start_mono [of m t] by (fastforce simp: meter_def)
  have seen: "bucket_start (fst x) \<le> bucket (?S ! j)" if "j < 10" "x \<in> set h" "slot (fst x) = j" for j x
    using assms(1) that by (auto simp: meter_def)
  have bytes: "sample_bytes (?S ! j)
      = bytes_in (\<lambda>x. slot (fst x) = j \<and> bucket_start (fst x) = bucket (?S ! j)) h" if "j < 10" for j
    using assms(1) that by (auto simp: meter_def)
  have orig: "bucket (?S ! j) = 0 \<or> (\<exists>x \<in> set h. slot (fst x) = j \<and> bucket_start (fst x) = bucket (?S ! j))"
    if "j < 10" for j
    using assms(1) that by (auto simp: meter_def)
  have i: "?i < 10" by (simp add: slot_def)
  have S': "download_samples (onBytesReceived n t l) = ?S[?i := \<lparr>bucket = bucket_start t,
      sample_bytes = (if bucket (?S ! ?i) = bucket_start t then sample_bytes (?S ! ?i) else 0) + n\<rparr>]"
    using len by (cases "?S ! ?i") (auto simp: onBytesReceived_def slot_def bucket_start_def Let_def)
  have fresh: "bytes_in (\<lambda>x. slot (fst x) = ?i \<and> bucket_start (fst x) = bucket_start t) h
      = (if bucket (?S ! ?i) = bucket_start t then sample_bytes (?S ! ?i) else 0)"
  proof (cases "bucket (?S ! ?i) = bucket_start t")
    case False
    then have "\<not> (slot (fst x) = ?i \<and> bucket_start (fst x) = bucket_start t)" if "x \<in> set h" for x
      using seen [OF i that] le [OF i] by force
    with False show ?thesis by (simp add: bytes_in_none)
  qed (simp add: bytes [OF i])
  show ?thesis
    unfolding meter_def S'
  proof (intro conjI allI impI, goal_cases)
    case (2 j)
    then show ?case using le [of j] i len by (cases "j = ?i") simp_all
  next
    case (3 j)
    then show ?case using orig [of j] i len by (cases "j = ?i") auto
  next
    case (4 j)
    then show ?case using seen [of j] le i len by (cases "j = ?i") (fastforce intro: order.trans)+
  next
    case (5 j)
    then show ?case using bytes [of j] fresh i len by (cases "j = ?i") simp_all
  qed (use len in simp)
qed

lemma meter_receive:
  assumes "sorted (map fst h)" and "\<forall>x \<in> set h. 0 \<le> fst x"
    and "download_samples l = replicate 10 \<lparr>bucket = 0, sample_bytes = 0\<rparr>"
  shows "meter (download_samples (receive h l)) h (if h = [] then 0 else fst (last h))"
  using assms(1,2)
proof (induction h rule: rev_induct)
  case Nil
  then show ?case
    using assms(3) by (simp add: meter_def bucket_start_def bucket_of_def bucket_time_def)
next
  case (snoc x h)
  obtain t n where x: "x = (t, n)" by (cases x)
  have "(if h = [] then 0 else fst (last h)) \<le> t"
    using snoc.prems x by (auto simp: sorted_append)
  with snoc x show ?case
    using meter_step [of "receive h l" h "if h = [] then 0 else fst (last h)" t n]
    by (simp add: receive_append sorted_append)
qed

lemma bytes_in_slots: "bytes_in P h = (\<Sum>j < 10. bytes_in (\<lambda>x. slot (fst x) = j \<and> P x) h)"
proof (induction h rule: rev_induct)
  case (snoc x h)
  have "(\<Sum>j < 10. if slot (fst x) = j \<and> P x then snd x else 0) = (if P x then snd x else 0)"
    by (simp add: slot_def)
  with snoc show ?case by (simp add: sum.distrib)
qed simp

lemma bucket_of_nonneg: "0 \<le> t \<Longrightarrow> 0 \<le> bucket_of t"
  by (simp add: bucket_of_def pos_imp_zdiv_nonneg_iff)

lemma same_slot_apart:
  assumes "slot s = slot t" and "0 \<le> s" and "0 \<le> t" and "bucket_start s < bucket_start t"
  shows "bucket_start s + ns_per_second \<le> bucket_start t"
proof -
  have eq: "nat (bucket_of s) mod 10 = nat (bucket_of t) mod 10" using assms(1) by (simp add: slot_def)
  have less: "bucket_of s < bucket_of t"
    using assms(4) by (simp add: bucket_start_def bucket_time_def)
  then have lt: "nat (bucket_of s) < nat (bucket_of t)" using bucket_of_nonneg [OF assms(2)] by simp
  then have "10 dvd nat (bucket_of t) - nat (bucket_of s)"
    using eq by (metis mod_eq_dvd_iff_nat less_imp_le)
  then have "10 \<le> nat (bucket_of t) - nat (bucket_of s)" using lt by (intro dvd_imp_le) auto
  then have "bucket_of s + 10 \<le> bucket_of t" using bucket_of_nonneg [OF assms(2)] by linarith
  then show ?thesis by (simp add: bucket_start_def bucket_time_def ns_per_second_def)
qed

lemma meter_window:
  assumes "meter S h m" and "\<forall>x \<in> set h. 0 \<le> fst x" and "m \<le> now" and "j < 10"
  shows "(if bucket (S ! j) \<le> now \<and> now - bucket (S ! j) < ns_per_second then sample_bytes (S ! j) else 0)
    = bytes_in (\<lambda>x. slot (fst x) = j \<and> now - bucket_start (fst x) < ns_per_second) h"
proof -
  let ?B = "bucket (S ! j)"
  have le: "?B \<le> now"
    using assms(1,3,4) bucket_start_le [of m] by (fastforce simp: meter_def)
  have x: "bucket_start (fst x) = ?B \<or> bucket_start (fst x) + ns_per_second \<le> ?B"
    if "x \<in> set h" "slot (fst x) = j" for x
  proof (cases "bucket_start (fst x) = ?B")
    case False
    have lt: "bucket_start (fst x) < ?B" using False assms(1,4) that by (force simp: meter_def)
    moreover have "0 \<le> bucket_start (fst x)"
      using assms(2) that(1) bucket_of_nonneg by (auto simp: bucket_start_def bucket_time_def)
    ultimately obtain y where "y \<in> set h" "slot (fst y) = j" "?B = bucket_start (fst y)"
      using assms(1,4) by (fastforce simp: meter_def)
    then show ?thesis
      using same_slot_apart [of "fst x" "fst y"] lt that assms(2) by auto
  qed simp
  have "bytes_in (\<lambda>x. slot (fst x) = j \<and> now - bucket_start (fst x) < ns_per_second) h
      = bytes_in (\<lambda>x. slot (fst x) = j \<and> bucket_start (fst x) = ?B \<and> now - ?B < ns_per_second) h"
    unfolding bytes_in_def using x le
    by (intro arg_cong [of _ _ sum_list] map_cong refl) (fastforce simp: ns_per_second_def)
  moreover have "sample_bytes (S ! j) = bytes_in (\<lambda>x. slot (fst x) = j \<and> bucket_start (fst x) = ?B) h"
    using assms(1,4) by (auto simp: meter_def)
  ultimately show ?thesis using le by (simp add: bytes_in_none)
qed

lemma meter_total:
  assumes "meter S h m" and "\<forall>x \<in> set h. 0 \<le> fst x" and "m \<le> now"
  shows "sum_list (map sample_bytes (filter (\<lambda>s. now \<ge> bucket s \<and> now - bucket s < ns_per_second) S))
    = bytes_in (\<lambda>x. now - bucket_start (fst x) < ns_per_second) h"
proof -
  have len: "length S = 10" using assms(1) by (simp add: meter_def)
  have "sum_list (map sample_bytes (filter (\<lambda>s. now \<ge> bucket s \<and> now - bucket s < ns_per_second) S))
      = (\<Sum>j < 10. if bucket (S ! j) \<le> now \<and> now - bucket (S ! j) < ns_per_second
           then sample_bytes (S ! j) else 0)"
    unfolding sum_list_map_filter' by (simp add: sum_list_sum_nth len atLeast0LessThan)
  also have "\<dots> = (\<Sum>j < 10. bytes_in (\<lambda>x. slot (fst x) = j \<and> now - bucket_start (fst x) < ns_per_second) h)"
    using meter_window [OF assms] by (intro sum.cong) auto
  finally show ?thesis by (simp flip: bytes_in_slots)
qed

section \<open>Properties\<close>

definition ex_request :: "nat option \<Rightarrow> TransferRequest" where
  "ex_request tok = \<lparr>req_method = GET, req_url = ''u'', req_headers = [], req_body = [],
     sensitive_query = [], options = \<lparr>o_http_version = None, follow_redirects = True, max_redirects = 10,
       max_response_bytes = 0, timeout_ms = 0, user_agent = [], o_bytes_per_second = 0\<rparr>,
     req_cookies = None, sink = None, require_file = False, cancellation = tok\<rparr>"

definition ex_pending :: "nat \<Rightarrow> nat option \<Rightarrow> Pending" where
  "ex_pending i tok = \<lparr>request = ex_request tok, pending_callback = i\<rparr>"

definition ex_config :: LaneConfig where
  "ex_config = \<lparr>max_shards = 4, shard_growth_threshold = 8, unthrottled_concurrency = 32,
     throttled_concurrency = 4\<rparr>"

text \<open>
  C4. Every transfer handed to a lane is accounted for exactly once, and in order.  After any
  history of submissions, cancellations, completions, wakeups, policy changes and shutdown,
  the submitted transfers are, as a multiset, those answered by the lane, those started on
  a shard and those still queued; the started and then the queued ones follow the order of
  submission; and a lane that was shut down has nothing queued.
\<close>

theorem lane_transfers_conserved:
  assumes "lane_run q g es (newLane key config t0) p = (f, l', p')"
  shows "mset (submitted es) = mset (answered f) + mset (callbacks (starts f)) + mset (callbacks (l_queue l'))
    \<and> subseq (callbacks (starts f) @ callbacks (l_queue l')) (submitted es)
    \<and> (stopped l' \<longrightarrow> l_queue l' = [])"
  using lane_run_conserves [OF assms] lane_run_stopped [OF assms] by (simp add: newLane_def ac_simps)

theorem lane_transfers_conserved_witness:
  "let (f, l', p') = lane_run ex_ratio (\<lambda>_. None)
        [(Submit (ex_pending 1 None), \<lambda>_. 1), (Submit (ex_pending 2 (Some 7)), \<lambda>_. 2),
         (Submit (ex_pending 3 None), \<lambda>_. 3), (Cancel (Some 7), \<lambda>_. 4)]
        (newLane ''h'' ex_config 0) (ex_lane 1 5 []) in
   (answered f = [2] \<and> callbacks (starts f) = [1] \<and> callbacks (l_queue l') = [3])
   \<and> subseq (callbacks (starts f) @ callbacks (l_queue l')) [1, 2, 3]"
proof -
  let ?es = "[(Submit (ex_pending 1 None), \<lambda>_. 1), (Submit (ex_pending 2 (Some 7)), \<lambda>_. 2),
         (Submit (ex_pending 3 None), \<lambda>_. 3), (Cancel (Some 7), \<lambda>_. 4 :: int)]"
  obtain f l' p' where r: "lane_run ex_ratio (\<lambda>_. None) ?es (newLane ''h'' ex_config 0) (ex_lane 1 5 []) = (f, l', p')"
    by (cases "lane_run ex_ratio (\<lambda>_. None) ?es (newLane ''h'' ex_config 0) (ex_lane 1 5 [])") auto
  then have t: "answered f = [2] \<and> callbacks (starts f) = [1] \<and> callbacks (l_queue l') = [3]"
    by (simp add: ex_lane_eval newLane_def ex_config_def submit_def pump_def pump_loop.simps growIfNeeded_def
        addShard_def start_front_def lane_ceiling_def lane_concurrency_def throttled_def arm_def cancel_def
        ex_pending_def ex_request_def refuse_def abort_sink_def pickShard_def transfer_cancelled_def Let_def)
      auto
  have "submitted ?es = [1, 2, 3]" by (simp add: ex_pending_def)
  then have "subseq (callbacks (starts f) @ callbacks (l_queue l')) [1, 2, 3]"
    using lane_transfers_conserved [OF r] by argo
  with t show ?thesis unfolding r Let_def prod.case by blast
qed

text \<open>
  C13. A lane never forgets its work and never exceeds its ceiling.  In every state that a
  history of calls leads to (failures, Retry-After pauses and resets of the policy in
  between), at most the configured number of transfers runs, and if transfers are queued
  and there is room, the gate is armed and the wakeup for its deadline is still to fire.
\<close>

theorem lane_never_stalls:
  assumes "lane_run q g es (newLane key config t0) p = (f, l', p')"
    and "\<forall>pe c. (Policy pe, c) \<in> set es \<longrightarrow> \<not> reconfigures pe"
  shows "l_in_flight l' \<le> lane_ceiling p' l'
    \<and> (\<not> stopped l' \<and> l_queue l' \<noteq> [] \<and> l_in_flight l' < lane_ceiling p' l' \<longrightarrow>
        armed (gate l') \<and> deadline (gate l') \<in> set (timers l'))"
proof -
  have "lane_ok (newLane key config t0) p" by (simp add: lane_ok_def gate_ok_def newLane_def)
  then have "lane_ok l' p'"
    using lane_run_invariant [OF assms(1), of lane_ok] lane_step_ok assms(2) by blast
  then show ?thesis by (auto simp: lane_ok_def gate_ok_def)
qed

theorem lane_never_stalls_witness:
  "let (f, l', p') = lane_run ex_ratio (\<lambda>_. None)
        [(Submit (ex_pending 1 None), \<lambda>_. 1), (Submit (ex_pending 2 None), \<lambda>_. 2)]
        (newLane ''h'' ex_config 0) (ex_lane 1 5 []) in
   callbacks (l_queue l') = [2] \<and> armed (gate l') \<and> deadline (gate l') \<in> set (timers l')"
proof -
  let ?es = "[(Submit (ex_pending 1 None), \<lambda>_. 1), (Submit (ex_pending 2 None), \<lambda>_. 2 :: int)]"
  obtain f l' p' where r: "lane_run ex_ratio (\<lambda>_. None) ?es (newLane ''h'' ex_config 0) (ex_lane 1 5 []) = (f, l', p')"
    by (cases "lane_run ex_ratio (\<lambda>_. None) ?es (newLane ''h'' ex_config 0) (ex_lane 1 5 [])") auto
  then have "callbacks (l_queue l') = [2] \<and> l_in_flight l' = 1 \<and> \<not> stopped l' \<and> lane_ceiling p' l' = 4"
    by (simp add: ex_lane_eval newLane_def ex_config_def submit_def pump_def pump_loop.simps growIfNeeded_def
        addShard_def start_front_def lane_ceiling_def lane_concurrency_def throttled_def arm_def
        ex_pending_def ex_request_def pickShard_def Let_def)
      auto
  then show ?thesis
    using lane_never_stalls [OF r] r by auto
qed

text \<open>
  The transfers a lane starts keep the rate its policy is configured for: with failures
  and Retry-After pauses in between, any \<open>m + 2\<close> consecutive starts span more than \<open>m\<close>
  base intervals.  Every start has consumed one granted slot of the policy.
\<close>

theorem lane_starts_paced:
  assumes "lane_at q g key s M hist = Inr p" and "M \<le> time_max"
    and "0 < base_interval p" and "base_interval p \<le> M"
    and "lane_run q g es l p = (f, l', p')"
    and "\<forall>pe c. (Policy pe, c) \<in> set es \<longrightarrow> slowing pe"
    and "i + m + 1 < length (start_times f)"
  shows "start_times f ! i + int m * base_interval p < start_times f ! (i + m + 1)"
proof -
  obtain pes where "list_all keeps_backoff pes" "start_times f = policy_grants q g pes p"
    using lane_run_policy [OF assms(5,6)] by blast
  then show ?thesis
    using policy_grants_paced [OF lane_at_ok [OF assms(1,2)], of pes q g] assms(3,4,7)
      lane_at_maximum [OF assms(1)]
    by (auto simp: spaced_def)
qed

theorem lane_starts_paced_witness:
  "let (f, l', p') = lane_run ex_ratio (\<lambda>_. None)
        [(Submit (ex_pending 1 None), \<lambda>_. 1), (Submit (ex_pending 2 None), \<lambda>_. 2),
         (Submit (ex_pending 3 None), \<lambda>_. 3), (Wakeup 5000000000, \<lambda>_. 5000000009), (Wake, \<lambda>_. 10000000009)]
        (newLane ''h'' ex_config 0) (ex_lane 1 5 []) in
   start_times f = [1, 5000000009, 10000000009] \<and> start_times f ! 0 + 1 * 5000000000 < start_times f ! 2"
proof -
  let ?es = "[(Submit (ex_pending 1 None), \<lambda>_. 1), (Submit (ex_pending 2 None), \<lambda>_. 2),
         (Submit (ex_pending 3 None), \<lambda>_. 3), (Wakeup 5000000000, \<lambda>_. 5000000009), (Wake, \<lambda>_. 10000000009 :: int)]"
  obtain f l' p' where r: "lane_run ex_ratio (\<lambda>_. None) ?es (newLane ''h'' ex_config 0) (ex_lane 1 5 []) = (f, l', p')"
    by (cases "lane_run ex_ratio (\<lambda>_. None) ?es (newLane ''h'' ex_config 0) (ex_lane 1 5 [])") auto
  then have t: "start_times f = [1, 5000000009, 10000000009]"
    by (simp add: ex_lane_eval newLane_def ex_config_def submit_def wake_def wakeup_def pump_def
        pump_loop.simps growIfNeeded_def addShard_def start_front_def lane_ceiling_def
        lane_concurrency_def throttled_def arm_def ex_pending_def ex_request_def pickShard_def Let_def)
      auto
  have "base_interval (ex_lane 1 5 []) = 5000000000" by (simp add: ex_lane_eval)
  then show ?thesis
    using lane_starts_paced [OF ex_lane_at [of 1 5 "[]"] _ _ _ r, of 0 1] t r
    by (simp add: ns_per_second_def time_max_def)
qed

text \<open>
  C25. The download meter counts every byte once: with bytes received at times that do not go
  back, the rate a snapshot shows is the number of bytes received in 100 ms buckets that
  began less than a second ago, although only ten samples are kept and reused.
\<close>

theorem lane_download_meter:
  assumes "sorted (map fst h)" and "\<forall>x \<in> set h. 0 \<le> fst x" and "\<forall>x \<in> set h. fst x \<le> now" and "0 \<le> now"
  shows "download_bytes_per_second (lane_fill now (receive h (newLane key config t0)) snap)
    = (\<Sum>(t, n) \<leftarrow> h. if now - t div 100000000 * 100000000 < ns_per_second then n else 0)"
proof -
  let ?m = "if h = [] then 0 else fst (last h)"
  have "meter (download_samples (receive h (newLane key config t0))) h ?m"
    using assms(1,2) by (intro meter_receive) (simp_all add: newLane_def)
  moreover have "?m \<le> now" using assms(3,4) by auto
  ultimately have "download_bytes_per_second (lane_fill now (receive h (newLane key config t0)) snap)
      = bytes_in (\<lambda>x. now - bucket_start (fst x) < ns_per_second) h"
    using meter_total assms(2) by (simp add: lane_fill_def)
  moreover have "bucket_start t = t div 100000000 * 100000000" for t
    by (simp add: bucket_start_def bucket_of_def bucket_time_def zdiv_zmult2_eq [symmetric])
  ultimately show ?thesis by (simp add: bytes_in_def case_prod_unfold)
qed

theorem lane_download_meter_witness:
  "download_bytes_per_second (lane_fill 1100000000
      (receive [(0, 5), (99999999, 6), (150000000, 7), (1050000000, 8)] (newLane ''h'' ex_config 0))
      \<lparr>s_key = [], s_group = None, rate_requests = 0, rate_seconds = 0, s_throttled = False,
       effective_interval = 0, remaining = 0, s_failures = 0, backed_off = False, in_flight = 0, queued = 0,
       shards = 0, s_bytes_per_second = 0, download_bytes_per_second = 0, s_advertised = [], active = False\<rparr>)
   = 8"
  using lane_download_meter [of "[(0, 5), (99999999, 6), (150000000, 7), (1050000000, 8)]" 1100000000]
  by (simp add: ns_per_second_def)

end
