(* ===== verification/Lane_Shard.thy ===== *)
theory Lane_Shard
  imports Lane
begin

text \<open>
  The transfers of one shard (\<^verbatim>\<open>http/LaneShard.cpp\<close>, \<^verbatim>\<open>DirectResponse.hpp\<close>): starting a
  transfer on libcurl, the header and body callbacks, finishing, cancelling and shutting
  down.  What libcurl and the caller's objects decide is a parameter of the operation:
  whether a handle could be made and added, the result code, status and effective URL of
  a finished transfer, the answer of the import sink, and the current value \<open>flag c\<close> of the
  cancellation flag \<open>c\<close>.  An easy handle is an identity.
\<close>

section \<open>Classification\<close>

definition isSensitiveHeader :: "string \<Rightarrow> bool" where
  "isSensitiveHeader name \<longleftrightarrow> lowered name \<in>
     {''authorization'', ''proxy-authorization'', ''cookie'', ''set-cookie'', ''x-api-key''}"

fun describeHeaders :: "HttpHeaders \<Rightarrow> string \<Rightarrow> string" where
  "describeHeaders [] described = described"
| "describeHeaders ((name, value) # h) described =
     describeHeaders h ((if described = [] then described else described @ '', '')
       @ name @ '': '' @ (if isSensitiveHeader name then ''<redacted>'' else value))"

definition isRedirectStatus :: "int \<Rightarrow> bool" where
  "isRedirectStatus s \<longleftrightarrow> s = 301 \<or> s = 302 \<or> s = 303 \<or> s = 307 \<or> s = 308"

record Active =
  a_request :: TransferRequest
  a_response :: TransferResponse
  a_callback :: nat
  over_limit :: bool
  sink_error :: string
  preview :: string
  error_buffer :: string

definition redirecting :: "Active \<Rightarrow> bool" where
  "redirecting a \<longleftrightarrow> follow_redirects (options (a_request a)) \<and> isRedirectStatus (status (a_response a))"

definition successful :: "Active \<Rightarrow> bool" where
  "successful a \<longleftrightarrow> 200 \<le> status (a_response a) \<and> status (a_response a) < 300"

definition preservingSink :: "Active \<Rightarrow> bool" where
  "preservingSink a \<longleftrightarrow> redirecting a \<or> \<not> successful a"

text \<open>\<open>http3\<close> and \<open>http2\<close> say what the linked libcurl supports.\<close>

fun available :: "bool \<Rightarrow> bool \<Rightarrow> HttpVersion \<Rightarrow> HttpVersion" where
  "available http3 http2 HTTP_3 =
     (if \<not> http3 then (if \<not> http2 then HTTP_1_1 else HTTP_2) else HTTP_3)"
| "available http3 http2 HTTP_2 = (if \<not> http2 then HTTP_1_1 else HTTP_2)"
| "available http3 http2 HTTP_1_1 = HTTP_1_1"

definition isDirectResponse :: "string \<Rightarrow> string \<Rightarrow> bool" where
  "isDirectResponse content_type opening_bytes =
     (let lower = lowered (before (CHR '';'') content_type);
          type = dropWhile is_space (rev (dropWhile is_space (rev lower)));
          opening = take 512 opening_bytes;
          bom = map char_of [0xEF, 0xBB, 0xBF :: nat];
          body = (if starts_with opening bom then drop 3 opening else opening);
          text = dropWhile back_blank body in
      if text \<noteq> [] \<and> (hd text = CHR ''<'' \<or> hd text = CHR ''{'' \<or> hd text = CHR ''['') then False
      else if ends_with type ''+xml'' \<or> ends_with type ''+json'' then False
      else starts_with type ''image/'' \<or> starts_with type ''video/'' \<or> starts_with type ''audio/''
        \<or> type = ''application/octet-stream'' \<or> type = ''application/pdf'' \<or> type = ''application/zip''
        \<or> type = ''application/x-7z-compressed'' \<or> type = ''application/x-rar-compressed''
        \<or> type = ''application/vnd.rar'' \<or> type = ''application/gzip'')"

section \<open>Callbacks\<close>

datatype shard_effect =
    Xfer transfer_effect
  | BytesReceived nat
  | LaneFinished
  | RemoveHandle nat

definition count_piece :: "string \<Rightarrow> Active \<Rightarrow> Active" where
  "count_piece data a =
     a\<lparr>a_response := (a_response a)\<lparr>resp_bytes := resp_bytes (a_response a) + length data\<rparr>,
       preview := (if sink (a_request a) \<noteq> None \<and> length (preview a) < HTTP_BODY_LOG_LIMIT
         then preview a @ take (min (length data) (HTTP_BODY_LOG_LIMIT - length (preview a))) data
         else preview a)\<rparr>"

text \<open>
  A piece of the body: the number of bytes taken, what was done, and the new state.  \<open>written\<close> is the
  answer of the sink to the write.
\<close>

definition writeCallback ::
  "(string, unit) result \<Rightarrow> string \<Rightarrow> Active \<Rightarrow> nat \<times> shard_effect list \<times> Active" where
  "writeCallback written data a =
     (let total = length data; a1 = count_piece data a; limit = max_response_bytes (options (a_request a)) in
      case sink (a_request a) of
        Some s \<Rightarrow>
          if preservingSink a1 then (total, [BytesReceived total], a1)
          else
            (case written of
               Inl e \<Rightarrow> (0, [BytesReceived total, Xfer (WriteSink s data)], a1\<lparr>sink_error := e\<rparr>)
             | Inr _ \<Rightarrow> (total, [BytesReceived total, Xfer (WriteSink s data)], a1))
      | None \<Rightarrow>
          if limit \<noteq> 0 \<and> length (resp_body (a_response a1)) + total > limit
          then (0, [BytesReceived total], a1\<lparr>over_limit := True\<rparr>)
          else (total, [BytesReceived total],
            a1\<lparr>a_response := (a_response a1)\<lparr>resp_body := resp_body (a_response a1) @ data\<rparr>\<rparr>))"

definition line_end :: "char \<Rightarrow> bool" where
  "line_end c \<longleftrightarrow> c = CHR 0x0D \<or> c = CHR 0x0A"

definition status_line :: "string \<Rightarrow> TransferResponse \<Rightarrow> TransferResponse" where
  "status_line line r =
     (let cleared = r\<lparr>resp_headers := [], resp_body := [], resp_bytes := 0, status := 0\<rparr> in
      case after (CHR '' '') line of
        None \<Rightarrow> cleared
      | Some rest \<Rightarrow>
          (case fst (from_chars_i32 rest) of Inl _ \<Rightarrow> cleared | Inr s \<Rightarrow> cleared\<lparr>status := s\<rparr>))"

definition headerCallback :: "string \<Rightarrow> Active \<Rightarrow> nat \<times> Active" where
  "headerCallback data a =
     (let line = rev (dropWhile line_end (rev data)) in
      if starts_with line ''HTTP/''
      then (length data, a\<lparr>a_response := status_line line (a_response a), preview := []\<rparr>)
      else
        (case after (CHR '':'') line of
           None \<Rightarrow> (length data, a)
         | Some v \<Rightarrow>
             (length data, a\<lparr>a_response := (a_response a)
                \<lparr>resp_headers := headers_add (before (CHR '':'') line) (dropWhile front_blank v)
                   (resp_headers (a_response a))\<rparr>\<rparr>)))"

definition progressCallback :: "(nat \<Rightarrow> bool) \<Rightarrow> Active \<Rightarrow> int" where
  "progressCallback flag a =
     (case cancellation (a_request a) of None \<Rightarrow> 0 | Some c \<Rightarrow> if flag c then 1 else 0)"

section \<open>Starting\<close>

record LaneShard =
  actives :: "(nat \<times> Active) list"
  sh_assigned :: nat

text \<open>What is configured on the easy handle.\<close>

record CurlSetup =
  cu_url :: string
  cu_version :: HttpVersion
  cu_connect_timeout_ms :: nat
  cu_timeout_ms :: "int option"
  cu_max_recv_speed :: "nat option"
  cu_user_agent :: string
  cu_method :: string
  cu_post_body :: "string option"
  cu_headers :: "string list"

definition idhan_user_agent :: string where
  "idhan_user_agent = ''Mozilla/5.0 (compatible; IDHAN Client)''"

definition curl_setup :: "bool \<Rightarrow> bool \<Rightarrow> TransferRequest \<Rightarrow> CurlSetup" where
  "curl_setup http3 http2 r = \<lparr>
     cu_url = req_url r,
     cu_version = available http3 http2 (case o_http_version (options r) of Some v \<Rightarrow> v | None \<Rightarrow> HTTP_3),
     cu_connect_timeout_ms = 15000,
     cu_timeout_ms = (if timeout_ms (options r) > 0 then Some (timeout_ms (options r)) else None),
     cu_max_recv_speed =
       (if o_bytes_per_second (options r) \<noteq> 0 then Some (o_bytes_per_second (options r)) else None),
     cu_user_agent = (if user_agent (options r) = [] then idhan_user_agent else user_agent (options r)),
     cu_method = httpMethodName (req_method r),
     cu_post_body = (if req_method r = GET \<or> req_method r = HEAD then None else Some (req_body r)),
     cu_headers = map (\<lambda>(name, value). name @ '': '' @ value) (req_headers r) @ [''Expect:'']\<rparr>"

definition token_set :: "(nat \<Rightarrow> bool) \<Rightarrow> TransferRequest \<Rightarrow> bool" where
  "token_set flag r = (case cancellation r of None \<Rightarrow> False | Some c \<Rightarrow> flag c)"

definition blank_response :: TransferResponse where
  "blank_response = \<lparr>status = 0, resp_url = [], resp_headers = [], resp_body = [], resp_bytes = 0,
     hops = [], resp_import = None,
     import_metadata = \<lparr>im_size = 0, im_content_type = [], im_filename = [], im_final_url = []\<rparr>,
     resp_sink = None\<rparr>"

text \<open>Answer a transfer that does not run (any more): abort its sink, call back, and release its place.\<close>

definition give_up :: "TransferRequest \<Rightarrow> nat \<Rightarrow> TransferResult \<Rightarrow> shard_effect list" where
  "give_up r callback result = map Xfer (abort_sink r) @ [Xfer (Answer callback result), LaneFinished]"

definition start ::
  "(nat \<Rightarrow> bool) \<Rightarrow> nat option \<Rightarrow> string option \<Rightarrow> Pending \<Rightarrow> LaneShard \<Rightarrow> shard_effect list \<times> LaneShard" where
  "start flag easy add_error pending sh =
     (let r = request pending; callback = pending_callback pending;
          released = sh\<lparr>sh_assigned := sh_assigned sh - 1\<rparr> in
      if token_set flag r then (give_up r callback transfer_cancelled, released)
      else
        (case easy of
           None \<Rightarrow> (give_up r callback (failure TRANSPORT ''curl_easy_init failed''), released)
         | Some handle \<Rightarrow>
             (case add_error of
                Some e \<Rightarrow> (give_up r callback (failure TRANSPORT e), released)
              | None \<Rightarrow>
                  ([], sh\<lparr>actives := actives sh @ [(handle, \<lparr>a_request = r, a_response = blank_response,
                     a_callback = callback, over_limit = False, sink_error = [], preview = [],
                     error_buffer = []\<rparr>)]\<rparr>))))"

section \<open>Finishing\<close>

definition filenameFor :: "string \<Rightarrow> HttpHeaders \<Rightarrow> string" where
  "filenameFor url headers =
     (let disposition = headers_get ''content-disposition'' headers;
          named = (case find_sub ''filename='' disposition of
              None \<Rightarrow> []
            | Some marker \<Rightarrow>
                (let rest = before (CHR '';'') (drop (marker + 9) disposition) in
                 if length rest \<ge> 2 \<and> hd rest = CHR 0x22 \<and> last rest = CHR 0x22 then butlast (tl rest)
                 else rest));
          path = before (CHR ''?'') url in
      if named \<noteq> [] then named
      else if CHR ''/'' \<notin> set path then []
      else rev (takeWhile (\<lambda>c. c \<noteq> CHR ''/'') (rev path)))"

text \<open>
  \<open>limit_message\<close> is the text of the size error, which quotes the redacted URL; \<open>sink_answer\<close> is
  what the sink's \<^verbatim>\<open>finish\<close> returns.
\<close>

definition finish_result ::
  "(nat \<Rightarrow> bool) \<Rightarrow> string \<Rightarrow> (string, ImportResult) result \<Rightarrow> string option \<Rightarrow> int \<Rightarrow> string \<Rightarrow> Active \<Rightarrow>
   transfer_effect list \<times> TransferResult" where
  "finish_result flag limit_message sink_answer curl_code st final_url a =
     (let r = a_request a in
      if sink_error a \<noteq> [] then (abort_sink r, failure SINK (sink_error a))
      else if over_limit a then ([], failure TOO_LARGE limit_message)
      else
        (case curl_code of
           Some strerror \<Rightarrow>
             (abort_sink r, failure (if token_set flag r then CANCELLED else TRANSPORT)
                (if error_buffer a = [] then strerror else error_buffer a))
         | None \<Rightarrow>
             (let response = (a_response a)\<lparr>status := st, resp_url := final_url\<rparr>;
                  a' = a\<lparr>a_response := response\<rparr>;
                  content_type = headers_get ''content-type'' (resp_headers response) in
              case sink r of
                None \<Rightarrow> ([], Inr response)
              | Some s \<Rightarrow>
                  if preservingSink a' then ([], Inr (response\<lparr>resp_sink := Some s\<rparr>))
                  else if require_file r \<and> \<not> isDirectResponse content_type (preview a) then
                    ([AbortSink s], failure SINK
                       ''URL did not return a single file (HTML, structured data, or unknown content type)'')
                  else
                    (let meta = \<lparr>im_size = resp_bytes response, im_content_type = content_type,
                       im_filename = filenameFor final_url (resp_headers response), im_final_url = final_url\<rparr> in
                     case sink_answer of
                       Inr imported \<Rightarrow>
                         ([FinishSink s meta],
                          Inr (response\<lparr>import_metadata := meta, resp_import := Some imported\<rparr>))
                     | Inl e \<Rightarrow> ([FinishSink s meta, AbortSink s], failure SINK e)))))"

definition finish ::
  "(nat \<Rightarrow> bool) \<Rightarrow> string \<Rightarrow> (string, ImportResult) result \<Rightarrow> nat \<Rightarrow> string option \<Rightarrow> int \<Rightarrow> string option \<Rightarrow>
   LaneShard \<Rightarrow> shard_effect list \<times> LaneShard" where
  "finish flag limit_message sink_answer easy curl_code st effective_url sh =
     (case map_of (actives sh) easy of
        None \<Rightarrow> ([], sh)
      | Some a \<Rightarrow>
          (let final_url = (case effective_url of Some u \<Rightarrow> u | None \<Rightarrow> req_url (a_request a));
               (e, result) = finish_result flag limit_message sink_answer curl_code st final_url a in
           ([RemoveHandle easy] @ map Xfer e @ [Xfer (Answer (a_callback a) result), LaneFinished],
            sh\<lparr>actives := filter (\<lambda>x. fst x \<noteq> easy) (actives sh), sh_assigned := sh_assigned sh - 1\<rparr>)))"

definition drop_active :: "bool \<Rightarrow> TransferResult \<Rightarrow> nat \<times> Active \<Rightarrow> shard_effect list" where
  "drop_active notify result x =
     map Xfer (abort_sink (a_request (snd x))) @ [RemoveHandle (fst x), Xfer (Answer (a_callback (snd x)) result)]
       @ (if notify then [LaneFinished] else [])"

definition shard_cancel :: "nat option \<Rightarrow> LaneShard \<Rightarrow> shard_effect list \<times> LaneShard" where
  "shard_cancel tok sh =
     (let hit = filter (\<lambda>x. cancellation (a_request (snd x)) = tok) (actives sh) in
      (concat (map (drop_active True transfer_cancelled) hit),
       sh\<lparr>actives := filter (\<lambda>x. cancellation (a_request (snd x)) \<noteq> tok) (actives sh),
          sh_assigned := sh_assigned sh - length hit\<rparr>))"

definition shard_shutdown :: "LaneShard \<Rightarrow> shard_effect list \<times> LaneShard" where
  "shard_shutdown sh =
     (concat (map (drop_active False (failure SHUTDOWN ''The downloader is shutting down'')) (actives sh)),
      sh\<lparr>actives := [], sh_assigned := sh_assigned sh - length (actives sh)\<rparr>)"

section \<open>Histories\<close>

datatype shard_event =
    Reserve
  | Start "nat \<Rightarrow> bool" "nat option" "string option" Pending
  | Write nat "(string, unit) result" string
  | Header nat string
  | Done "nat \<Rightarrow> bool" string "(string, ImportResult) result" nat "string option" int "string option"
  | CancelAll "nat option"
  | Stop

definition on_active :: "nat \<Rightarrow> (Active \<Rightarrow> Active) \<Rightarrow> LaneShard \<Rightarrow> LaneShard" where
  "on_active h f sh = sh\<lparr>actives := map (\<lambda>(k, a). (k, if k = h then f a else a)) (actives sh)\<rparr>"

fun shard_step :: "shard_event \<Rightarrow> LaneShard \<Rightarrow> shard_effect list \<times> LaneShard" where
  "shard_step Reserve sh = ([], sh\<lparr>sh_assigned := sh_assigned sh + 1\<rparr>)"
| "shard_step (Start flag easy e p) sh = start flag easy e p sh"
| "shard_step (Write h w d) sh =
     (case map_of (actives sh) h of
        None \<Rightarrow> ([], sh)
      | Some a \<Rightarrow> (fst (snd (writeCallback w d a)), on_active h (\<lambda>a. snd (snd (writeCallback w d a))) sh))"
| "shard_step (Header h d) sh = ([], on_active h (\<lambda>a. snd (headerCallback d a)) sh)"
| "shard_step (Done flag m ans h c st u) sh = finish flag m ans h c st u sh"
| "shard_step (CancelAll tok) sh = shard_cancel tok sh"
| "shard_step Stop sh = shard_shutdown sh"

fun shard_run :: "shard_event list \<Rightarrow> LaneShard \<Rightarrow> shard_effect list \<times> LaneShard" where
  "shard_run [] sh = ([], sh)"
| "shard_run (e # es) sh =
     (let (f, sh1) = shard_step e sh; (fs, sh2) = shard_run es sh1 in (f @ fs, sh2))"

text \<open>A lane reserves a place before it posts a start, and libcurl never hands out a handle in use.\<close>

fun shard_allowed :: "nat \<Rightarrow> shard_event list \<Rightarrow> LaneShard \<Rightarrow> bool" where
  "shard_allowed posted [] sh = True"
| "shard_allowed posted (e # es) sh =
     (case e of
        Reserve \<Rightarrow> shard_allowed (Suc posted) es (snd (shard_step e sh))
      | Start flag easy err p \<Rightarrow>
          posted > 0 \<and> (\<forall>h. easy = Some h \<longrightarrow> h \<notin> fst ` set (actives sh))
          \<and> shard_allowed (posted - 1) es (snd (shard_step e sh))
      | _ \<Rightarrow> shard_allowed posted es (snd (shard_step e sh)))"

fun posted_after :: "nat \<Rightarrow> shard_event list \<Rightarrow> nat" where
  "posted_after n [] = n"
| "posted_after n (Reserve # es) = posted_after (Suc n) es"
| "posted_after n (Start f h e p # es) = posted_after (n - 1) es"
| "posted_after n (_ # es) = posted_after n es"

fun started_callbacks :: "shard_event list \<Rightarrow> nat list" where
  "started_callbacks [] = []"
| "started_callbacks (Start f h e p # es) = pending_callback p # started_callbacks es"
| "started_callbacks (_ # es) = started_callbacks es"

fun answers :: "shard_effect list \<Rightarrow> nat list" where
  "answers [] = []"
| "answers (Xfer (Answer c r) # es) = c # answers es"
| "answers (_ # es) = answers es"

abbreviation active_callbacks :: "LaneShard \<Rightarrow> nat list" where
  "active_callbacks sh \<equiv> map (\<lambda>x. a_callback (snd x)) (actives sh)"

lemma answers_append [simp]: "answers (a @ b) = answers a @ answers b"
  by (induction a rule: answers.induct) auto

lemma answers_other [simp]: "answers (map Xfer (abort_sink r)) = []"
  by (simp add: abort_sink_def split: option.split)

lemma answers_give_up [simp]: "answers (give_up r c res) = [c]"
  by (simp add: give_up_def)

lemma answers_drop [simp]: "answers (concat (map (drop_active n res) xs)) = map (\<lambda>x. a_callback (snd x)) xs"
  by (induction xs) (auto simp: drop_active_def)

lemma finish_result_no_answer:
  "finish_result flag m ans c st u a = (e, r) \<Longrightarrow> answers (map Xfer e) = []"
  by (auto simp: finish_result_def Let_def abort_sink_def split: option.splits sum.splits if_splits)

lemma count_piece_frame [simp]:
  "a_request (count_piece d a) = a_request a" "a_callback (count_piece d a) = a_callback a"
  "over_limit (count_piece d a) = over_limit a" "sink_error (count_piece d a) = sink_error a"
  "resp_body (a_response (count_piece d a)) = resp_body (a_response a)"
  "status (a_response (count_piece d a)) = status (a_response a)"
  by (simp_all add: count_piece_def)

lemma writeCallback_frame:
  "a_callback (snd (snd (writeCallback w d a))) = a_callback a"
  "a_request (snd (snd (writeCallback w d a))) = a_request a"
  "answers (fst (snd (writeCallback w d a))) = []"
  by (auto simp: writeCallback_def Let_def split: option.split sum.split)

lemma headerCallback_frame:
  "a_callback (snd (headerCallback d a)) = a_callback a"
  "a_request (snd (headerCallback d a)) = a_request a"
  "over_limit (snd (headerCallback d a)) = over_limit a"
  by (auto simp: headerCallback_def Let_def split: option.split)

lemma on_active_callbacks:
  assumes "\<And>a. a_callback (f a) = a_callback a"
  shows "active_callbacks (on_active h f sh) = active_callbacks sh"
    and "map fst (actives (on_active h f sh)) = map fst (actives sh)"
    and "sh_assigned (on_active h f sh) = sh_assigned sh"
    and "length (actives (on_active h f sh)) = length (actives sh)"
  using assms by (auto simp: on_active_def)

definition shard_ok :: "nat \<Rightarrow> LaneShard \<Rightarrow> bool" where
  "shard_ok posted sh \<longleftrightarrow> distinct (map fst (actives sh)) \<and> sh_assigned sh = posted + length (actives sh)"

lemma remove_active:
  assumes "distinct (map fst xs)" and "map_of xs h = Some a"
  shows "mset (map (\<lambda>x. a_callback (snd x)) xs)
      = add_mset (a_callback a) (mset (map (\<lambda>x. a_callback (snd x)) (filter (\<lambda>x. fst x \<noteq> h) xs)))"
    and "length xs = Suc (length (filter (\<lambda>x. fst x \<noteq> h) xs))"
  using assms by (induction xs) (auto simp del: mset_map mset_filter split: if_splits)

lemma shard_step_ok:
  assumes "shard_ok posted sh" and "shard_step e sh = (f, sh')" and "shard_allowed posted [e] sh"
  shows "shard_ok (posted_after posted [e]) sh'
    \<and> mset (active_callbacks sh @ started_callbacks [e]) = mset (answers f @ active_callbacks sh')"
proof (cases e)
  case Reserve
  then show ?thesis using assms by (auto simp: shard_ok_def)
next
  case (Start flag easy err p)
  then show ?thesis
    using assms by (auto simp: shard_ok_def start_def Let_def split: if_splits option.splits)
next
  case (Write h w d)
  then show ?thesis
    using assms on_active_callbacks [of "\<lambda>a. snd (snd (writeCallback w d a))" h sh]
    by (auto simp: shard_ok_def writeCallback_frame simp del: mset_map split: option.splits)
next
  case (Header h d)
  then show ?thesis
    using assms on_active_callbacks [of "\<lambda>a. snd (headerCallback d a)" h sh]
    by (auto simp: shard_ok_def headerCallback_frame simp del: mset_map)
next
  case (Done flag m ans h c st u)
  then show ?thesis
    using assms remove_active [of "actives sh" h]
    by (auto simp: shard_ok_def finish_def Let_def distinct_map_filter finish_result_no_answer
        split: option.splits prod.splits)
next
  case (CancelAll tok)
  let ?P = "\<lambda>x :: nat \<times> Active. cancellation (a_request (snd x)) = tok"
  have "length (filter ?P (actives sh)) + length (filter (\<lambda>x. \<not> ?P x) (actives sh)) = length (actives sh)"
    by (rule sum_length_filter_compl)
  moreover have "mset (map (\<lambda>x. a_callback (snd x)) xs)
      = mset (map (\<lambda>x. a_callback (snd x)) (filter ?P xs))
      + mset (map (\<lambda>x. a_callback (snd x)) (filter (\<lambda>x. \<not> ?P x) xs))" for xs
    by (induction xs) auto
  from this [of "actives sh"] calculation show ?thesis
    using assms CancelAll
    by (auto simp: shard_ok_def shard_cancel_def Let_def distinct_map_filter simp del: mset_map)
next
  case Stop
  then show ?thesis using assms by (auto simp: shard_ok_def shard_shutdown_def)
qed

lemma shard_allowed_Cons:
  "shard_allowed posted (e # es) sh \<longleftrightarrow>
     shard_allowed posted [e] sh \<and> shard_allowed (posted_after posted [e]) es (snd (shard_step e sh))"
  by (cases e) auto

lemma posted_after_Cons: "posted_after n (e # es) = posted_after (posted_after n [e]) es"
  by (cases e) auto

lemma started_callbacks_Cons: "started_callbacks (e # es) = started_callbacks [e] @ started_callbacks es"
  by (cases e) auto

lemma shard_run_ok:
  assumes "shard_ok posted sh" and "shard_run es sh = (f, sh')" and "shard_allowed posted es sh"
  shows "shard_ok (posted_after posted es) sh'
    \<and> mset (active_callbacks sh @ started_callbacks es) = mset (answers f @ active_callbacks sh')"
  using assms
proof (induction es arbitrary: sh posted f)
  case (Cons e es)
  obtain f1 sh1 where s: "shard_step e sh = (f1, sh1)" by (cases "shard_step e sh")
  obtain f2 where r: "shard_run es sh1 = (f2, sh')" and f: "f = f1 @ f2"
    using Cons.prems(2) s by (auto split: prod.splits)
  have al: "shard_allowed posted [e] sh" "shard_allowed (posted_after posted [e]) es sh1"
    using Cons.prems(3) s shard_allowed_Cons [of posted e es sh] by auto
  note S = shard_step_ok [OF Cons.prems(1) s al(1)]
  note R = Cons.IH [OF conjunct1 [OF S] r al(2)]
  show ?case
    using S R unfolding f posted_after_Cons [of posted e es] started_callbacks_Cons [of e es]
    by (simp add: ac_simps)
qed simp

section \<open>Sinks, limits and headers\<close>

text \<open>Callbacks of libcurl on one transfer, in the order they come; a refused write ends it.\<close>

datatype curl_callback = OnHeader string | OnBody "(string, unit) result" string

fun curl_feed :: "curl_callback list \<Rightarrow> Active \<Rightarrow> Active" where
  "curl_feed [] a = a"
| "curl_feed (OnHeader d # cs) a = curl_feed cs (snd (headerCallback d a))"
| "curl_feed (OnBody w d # cs) a =
     (let (taken, e, a') = writeCallback w d a in
      if taken = length d then curl_feed cs a' else a')"

definition fresh_active :: "TransferRequest \<Rightarrow> nat \<Rightarrow> Active" where
  "fresh_active r c = \<lparr>a_request = r, a_response = blank_response, a_callback = c, over_limit = False,
     sink_error = [], preview = [], error_buffer = []\<rparr>"

lemma writeCallback_limit:
  "over_limit (snd (snd (writeCallback w d a))) \<Longrightarrow> over_limit a \<or> sink (a_request a) = None"
  by (auto simp: writeCallback_def Let_def split: option.splits sum.splits if_splits)

lemma curl_feed_OnBody:
  "curl_feed (OnBody w d # cs) a =
     (if fst (writeCallback w d a) = length d then curl_feed cs (snd (snd (writeCallback w d a)))
      else snd (snd (writeCallback w d a)))"
  by (simp add: Let_def case_prod_beta)

declare curl_feed.simps(3) [simp del]

lemma curl_feed_request: "a_request (curl_feed cs a) = a_request a"
proof (induction cs arbitrary: a)
  case (Cons c cs)
  then show ?case
    by (cases c) (simp_all add: curl_feed_OnBody headerCallback_frame writeCallback_frame)
qed simp

lemma curl_feed_limit:
  "over_limit (curl_feed cs a) \<Longrightarrow> over_limit a \<or> sink (a_request a) = None"
proof (induction cs arbitrary: a)
  case (Cons c cs)
  show ?case
  proof (cases c)
    case (OnHeader d)
    then show ?thesis
      using Cons.IH [of "snd (headerCallback d a)"] Cons.prems by (simp add: headerCallback_frame)
  next
    case (OnBody w d)
    then show ?thesis
      using Cons.IH [of "snd (snd (writeCallback w d a))"] Cons.prems writeCallback_limit [of w d a]
      by (auto simp: curl_feed_OnBody writeCallback_frame split: if_splits)
  qed
qed simp

lemma writeCallback_body:
  assumes "sink (a_request a) = None"
    and "fits \<longleftrightarrow> max_response_bytes (options (a_request a)) = 0
      \<or> length (resp_body (a_response a)) + length d \<le> max_response_bytes (options (a_request a))"
  shows "resp_body (a_response (snd (snd (writeCallback w d a))))
      = (if fits then resp_body (a_response a) @ d else resp_body (a_response a))"
    and "fst (writeCallback w d a) = (if fits then length d else 0)"
    and "over_limit (snd (snd (writeCallback w d a))) \<longleftrightarrow> over_limit a \<or> \<not> fits"
  using assms by (auto simp: writeCallback_def Let_def)

lemma curl_feed_body:
  assumes "sink (a_request a) = None" and "\<not> over_limit a"
    and "max_response_bytes (options (a_request a)) = limit" and "list_all (\<lambda>d. d \<noteq> []) ds"
    and "limit \<noteq> 0 \<longrightarrow> length (resp_body (a_response a)) \<le> limit"
  shows "if limit = 0 \<or> length (resp_body (a_response a)) + length (concat ds) \<le> limit
      then \<not> over_limit (curl_feed (map (OnBody w) ds) a)
        \<and> resp_body (a_response (curl_feed (map (OnBody w) ds) a)) = resp_body (a_response a) @ concat ds
      else over_limit (curl_feed (map (OnBody w) ds) a)
        \<and> length (resp_body (a_response (curl_feed (map (OnBody w) ds) a))) \<le> limit"
  using assms
proof (induction ds arbitrary: a)
  case (Cons d ds)
  let ?a = "snd (snd (writeCallback w d a))"
  let ?fits = "limit = 0 \<or> length (resp_body (a_response a)) + length d \<le> limit"
  note B = writeCallback_body [of a ?fits d w] 
  have req: "a_request ?a = a_request a" by (rule writeCallback_frame)
  show ?case
  proof (cases ?fits)
    case False
    then show ?thesis using B Cons.prems by (auto simp: curl_feed_OnBody)
  next
    case True
    then have b: "fst (writeCallback w d a) = length d" "\<not> over_limit ?a"
        "resp_body (a_response ?a) = resp_body (a_response a) @ d"
      using B Cons.prems by simp_all
    then have "limit \<noteq> 0 \<longrightarrow> length (resp_body (a_response ?a)) \<le> limit" using True by auto
    then show ?thesis
      using Cons.IH [of ?a] Cons.prems b req by (simp add: curl_feed_OnBody add.assoc)
  qed
qed auto

section \<open>Properties\<close>

text \<open>
  C16. Every transfer given to a shard is answered exactly once.  Through any history of
  reservations, starts, callbacks, completions, cancellations and shutdown, in which a place is reserved
  before each start and libcurl hands out no handle twice, the callbacks of the started
  transfers are, as a multiset, those answered and those of the transfers still running,
  and the count of assigned transfers is the number of running ones plus the starts still
  posted; after a shutdown nothing runs.
\<close>

theorem shard_answers_once:
  assumes "shard_run es \<lparr>actives = [], sh_assigned = 0\<rparr> = (f, sh)"
    and "shard_allowed 0 es \<lparr>actives = [], sh_assigned = 0\<rparr>"
  shows "mset (started_callbacks es) = mset (answers f) + mset (active_callbacks sh)
    \<and> sh_assigned sh = posted_after 0 es + length (actives sh)"
proof -
  have "shard_ok 0 \<lparr>actives = [], sh_assigned = 0\<rparr>" by (simp add: shard_ok_def)
  from shard_run_ok [OF this assms] show ?thesis by (simp add: shard_ok_def)
qed

theorem shard_answers_once_witness:
  "let es = [Reserve, Start (\<lambda>_. False) (Some 5) None (ex_pending 1 None), Reserve,
        Start (\<lambda>_. False) None None (ex_pending 2 None), Stop];
       (f, sh) = shard_run es \<lparr>actives = [], sh_assigned = 0\<rparr> in
   answers f = [2, 1] \<and> actives sh = [] \<and> sh_assigned sh = 0"
proof -
  let ?es = "[Reserve, Start (\<lambda>_. False) (Some 5) None (ex_pending 1 None), Reserve,
        Start (\<lambda>_. False) None None (ex_pending 2 None), Stop]"
  obtain f sh where r: "shard_run ?es \<lparr>actives = [], sh_assigned = 0\<rparr> = (f, sh)"
    by (cases "shard_run ?es \<lparr>actives = [], sh_assigned = 0\<rparr>")
  have a: "shard_allowed 0 ?es \<lparr>actives = [], sh_assigned = 0\<rparr>" by simp
  have "answers f = [2, 1] \<and> actives sh = []"
    using r by (auto simp: start_def token_set_def ex_pending_def ex_request_def shard_shutdown_def
        give_up_def abort_sink_def drop_active_def Let_def)
  moreover have "posted_after 0 ?es = 0" by simp
  ultimately show ?thesis
    using shard_answers_once [OF r a] r unfolding Let_def by (simp del: shard_run.simps)
qed

text \<open>
  C21. An import sink is settled exactly once.  Whatever headers and body pieces a transfer
  received, when it finishes its sink is either aborted, after a failed finish or without one, together
  with an error, or finished and the
  answer carries the import of a successful response, or handed back untouched in the
  answer to a redirect or an unsuccessful response.
\<close>

theorem sink_settled_once:
  assumes "a = curl_feed cs (fresh_active r c)" and "sink r = Some s"
    and "finish_result flag m ans curl_code st u a = (e, result)"
  shows "(\<exists>err. result = Inl err \<and> (e = [AbortSink s] \<or> (\<exists>meta. e = [FinishSink s meta, AbortSink s])))
    \<or> (\<exists>resp meta. result = Inr resp \<and> e = [FinishSink s meta] \<and> resp_import resp \<noteq> None
         \<and> resp_sink resp = resp_sink (a_response a) \<and> 200 \<le> st \<and> st < 300)
    \<or> (\<exists>resp. result = Inr resp \<and> e = [] \<and> resp_sink resp = Some s
         \<and> (follow_redirects (options r) \<and> isRedirectStatus st \<or> \<not> (200 \<le> st \<and> st < 300)))"
proof -
  have r: "a_request a = r" using assms(1) by (simp add: curl_feed_request fresh_active_def)
  have nl: "\<not> over_limit a"
    using curl_feed_limit [of cs "fresh_active r c"] assms(1,2) by (auto simp: fresh_active_def)
  show ?thesis
    using assms(2,3) r nl
    by (auto simp: finish_result_def Let_def abort_sink_def failure_def preservingSink_def redirecting_def
        successful_def split: if_splits option.splits sum.splits)
qed

theorem sink_settled_once_witness:
  "(\<exists>resp. snd (finish_result (\<lambda>_. False) [] (Inl ''x'') None 404 ''u''
      (curl_feed [OnHeader ''HTTP/1.1 404 No''] (fresh_active ((ex_request None)\<lparr>sink := Some 9\<rparr>) 1))) = Inr resp
    \<and> resp_sink resp = Some 9)"
proof -
  let ?a = "curl_feed [OnHeader ''HTTP/1.1 404 No''] (fresh_active ((ex_request None)\<lparr>sink := Some 9\<rparr>) 1)"
  obtain e result where f: "finish_result (\<lambda>_. False) [] (Inl ''x'') None 404 ''u'' ?a = (e, result)"
    by (cases "finish_result (\<lambda>_. False) [] (Inl ''x'') None 404 ''u'' ?a")
  then have "\<exists>resp. result = Inr resp"
    by (auto simp: finish_result_def headerCallback_def fresh_active_def ex_request_def starts_with_def
        preservingSink_def successful_def Let_def line_end_def split: option.splits)
  then show ?thesis
    using sink_settled_once [OF refl _ f, of 9] f by auto
qed

text \<open>
  C27. A response body is bounded: with a limit and no sink, a transfer whose pieces stay
  within the limit keeps all of them in order, and one whose pieces exceed it is marked as
  too large, keeps no more than the limit and is answered with the size error.
\<close>

theorem response_body_bounded:
  assumes "sink r = None" and "max_response_bytes (options r) = limit" and "limit \<noteq> 0"
    and "list_all (\<lambda>d. d \<noteq> []) ds" and "a = curl_feed (map (OnBody w) ds) (fresh_active r c)"
  shows "if length (concat ds) \<le> limit then \<not> over_limit a \<and> resp_body (a_response a) = concat ds
    else length (resp_body (a_response a)) \<le> limit
      \<and> (sink_error a = [] \<longrightarrow> snd (finish_result flag m ans curl_code st u a) = failure TOO_LARGE m)"
proof -
  have "a_request (fresh_active r c) = r \<and> \<not> over_limit (fresh_active r c)
      \<and> resp_body (a_response (fresh_active r c)) = []"
    by (simp add: fresh_active_def blank_response_def)
  then have "if length (concat ds) \<le> limit then \<not> over_limit a \<and> resp_body (a_response a) = concat ds
      else over_limit a \<and> length (resp_body (a_response a)) \<le> limit"
    using curl_feed_body [of "fresh_active r c" limit ds w] assms by simp
  then show ?thesis by (simp add: finish_result_def)
qed

theorem response_body_bounded_witness:
  "length (resp_body (a_response (curl_feed (map (OnBody (Inr ())) [''abc'', ''de''])
      (fresh_active ((ex_request None)\<lparr>options := (options (ex_request None))\<lparr>max_response_bytes := 4\<rparr>\<rparr>) 1)))) \<le> 4"
  using response_body_bounded [of "(ex_request None)\<lparr>options := (options (ex_request None))\<lparr>max_response_bytes := 4\<rparr>\<rparr>"
      4 "[''abc'', ''de'']" _ "Inr ()" 1, OF _ _ _ _ refl]
  by (simp add: ex_request_def)

text \<open>
  Credentials never reach the log: two header lists with the same names and the same
  values outside the sensitive fields are described by the same text, whatever the values
  of the sensitive fields are.
\<close>

theorem sensitive_headers_redacted:
  assumes "map fst h = map fst h'"
    and "\<forall>i < length h. \<not> isSensitiveHeader (fst (h ! i)) \<longrightarrow> snd (h ! i) = snd (h' ! i)"
  shows "describeHeaders h described = describeHeaders h' described"
  using assms
proof (induction h arbitrary: h' described)
  case (Cons x h)
  obtain y k where h': "h' = y # k" using Cons.prems(1) by (cases h') auto
  have "\<forall>i < length h. \<not> isSensitiveHeader (fst (h ! i)) \<longrightarrow> snd (h ! i) = snd (k ! i)"
    using Cons.prems(2) h' by (metis Suc_mono length_Cons nth_Cons_Suc)
  moreover have "\<not> isSensitiveHeader (fst x) \<longrightarrow> snd x = snd y" using Cons.prems(2) h' by force
  ultimately show ?case
    using Cons.IH [of k] Cons.prems(1) h' by (cases x; cases y) auto
qed simp

theorem sensitive_headers_redacted_witness:
  "describeHeaders [(''Accept'', ''*''), (''Cookie'', ''secret'')] []
     = describeHeaders [(''Accept'', ''*''), (''Cookie'', ''other'')] []
   \<and> isSensitiveHeader ''Cookie''"
proof -
  have "isSensitiveHeader ''Cookie''" by code_simp
  then show ?thesis
    using sensitive_headers_redacted [of "[(''Accept'', ''*''), (''Cookie'', ''secret'')]"
        "[(''Accept'', ''*''), (''Cookie'', ''other'')]" "[]"]
    by (simp add: less_Suc_eq_0_disj nth_Cons split: nat.split)
qed

end
