(* ===== verification/Cookie_Store.thy ===== *)
theory Cookie_Store
  imports Http_Message
begin

text \<open>
  The downloader's cookies (\<^verbatim>\<open>cookies/CookieStore.cpp\<close>, \<^verbatim>\<open>cookies/Cookie.hpp\<close>,
  \<^verbatim>\<open>cookies/CookieOverlay.hpp\<close>) and the host helpers of \<^verbatim>\<open>URLUtils.hpp\<close>: which cookie
  matches which request, the session overlay and the persistent store, the Cookie header
  of a request and the cookies a response sets.  The URL parser (ada) is the parameter
  \<open>ada\<close>; the persistence backend is an interface of the store, and the calls made to it are
  recorded in order.  Time points are nanosecond counts.
\<close>

section \<open>Hosts\<close>

datatype url_error = OutOfRange

definition first_of :: "char list \<Rightarrow> string \<Rightarrow> nat option" where
  "first_of cs s = (if \<exists>c \<in> set s. c \<in> set cs then Some (length (takeWhile (\<lambda>c. c \<notin> set cs) s)) else None)"

text \<open>\<^verbatim>\<open>substr(pos)\<close> throws \<^verbatim>\<open>std::out_of_range\<close> when \<open>pos\<close> is past the end.\<close>

definition normalizeHost :: "string \<Rightarrow> (url_error, string) result" where
  "normalizeHost host =
     (case first_of ''://'' host of
        None \<Rightarrow> Inr (lowered host)
      | Some protocol_end \<Rightarrow>
          if protocol_end + 3 > length host then Inl OutOfRange
          else Inr (lowered (drop (protocol_end + 3) host)))"

definition isSubdomainOf :: "string \<Rightarrow> string \<Rightarrow> bool" where
  "isSubdomainOf host domain \<longleftrightarrow>
     length domain < length host \<and> ends_with host domain
     \<and> host ! (length host - length domain - 1) = CHR ''.''"

definition hostMatches :: "string \<Rightarrow> string \<Rightarrow> bool \<Rightarrow> bool" where
  "hostMatches host domain include_subdomains \<longleftrightarrow>
     host = domain \<or> include_subdomains \<and> isSubdomainOf host domain"

section \<open>Cookies and matching\<close>

record Cookie =
  c_name :: string
  c_value :: string
  c_domain :: string
  c_path :: string
  c_secure :: bool
  c_host_only :: bool
  c_expires :: "int option"

definition sameIdentity :: "Cookie \<Rightarrow> Cookie \<Rightarrow> bool" where
  "sameIdentity a b \<longleftrightarrow> c_name a = c_name b \<and> c_domain a = c_domain b \<and> c_path a = c_path b"

definition cookieDomainMatches :: "string \<Rightarrow> string \<Rightarrow> bool \<Rightarrow> bool" where
  "cookieDomainMatches host domain host_only \<longleftrightarrow>
     (if host = domain then True else if host_only then False else isSubdomainOf host domain)"

definition cookiePathMatches :: "string \<Rightarrow> string \<Rightarrow> bool" where
  "cookiePathMatches request_path cookie_path =
     (if cookie_path = [] \<or> cookie_path = ''/'' then True
      else if \<not> starts_with request_path cookie_path then False
      else if length request_path = length cookie_path then True
      else last cookie_path = CHR ''/'' \<or> request_path ! length cookie_path = CHR ''/'')"

definition before_last :: "char \<Rightarrow> string \<Rightarrow> string" where
  "before_last c s = rev (tl (dropWhile (\<lambda>x. x \<noteq> c) (rev s)))"

definition defaultCookiePath :: "string \<Rightarrow> string" where
  "defaultCookiePath request_path =
     (if request_path = [] \<or> hd request_path \<noteq> CHR ''/'' \<or> before_last (CHR ''/'') request_path = []
      then ''/'' else before_last (CHR ''/'') request_path)"

definition expired :: "Cookie \<Rightarrow> int \<Rightarrow> bool" where
  "expired cookie now = (case c_expires cookie of None \<Rightarrow> False | Some e \<Rightarrow> e \<le> now)"

definition cookie_matches :: "Cookie \<Rightarrow> string \<Rightarrow> string \<Rightarrow> bool \<Rightarrow> int \<Rightarrow> bool" where
  "cookie_matches cookie host path secure now =
     (if expired cookie now then False
      else if c_secure cookie \<and> \<not> secure then False
      else if \<not> cookieDomainMatches host (c_domain cookie) (c_host_only cookie) then False
      else cookiePathMatches path (c_path cookie))"

section \<open>Overlay and store\<close>

fun upsert :: "Cookie list \<Rightarrow> Cookie \<Rightarrow> Cookie list" where
  "upsert [] cookie = [cookie]"
| "upsert (held # rest) cookie =
     (if sameIdentity held cookie then cookie # rest else held # upsert rest cookie)"

definition remove_cookie :: "Cookie list \<Rightarrow> string \<Rightarrow> string \<Rightarrow> string \<Rightarrow> Cookie list" where
  "remove_cookie cookies name domain path =
     filter (\<lambda>held. \<not> (c_name held = name \<and> c_domain held = domain \<and> c_path held = path)) cookies"

type_synonym CookieOverlay = "Cookie list"

definition overlay_set :: "Cookie \<Rightarrow> CookieOverlay \<Rightarrow> CookieOverlay" where
  "overlay_set cookie overlay = upsert overlay cookie"

definition overlay_erase :: "string \<Rightarrow> string \<Rightarrow> string \<Rightarrow> CookieOverlay \<Rightarrow> CookieOverlay" where
  "overlay_erase name domain path overlay = remove_cookie overlay name domain path"

definition appendMatching ::
  "Cookie list \<Rightarrow> string \<Rightarrow> string \<Rightarrow> bool \<Rightarrow> int \<Rightarrow> Cookie list \<Rightarrow> Cookie list" where
  "appendMatching cookies host path secure now out =
     out @ filter (\<lambda>c. cookie_matches c host path secure now) cookies"

record PersistedCookie =
  p_name :: string
  p_domain :: string
  p_path :: string
  p_value :: string
  p_secure :: bool
  p_host_only :: bool
  p_expires :: int

datatype persist_call = PUpsert PersistedCookie | PErase string string string | PPrune

record CookieStore =
  st_cookies :: "Cookie list"
  st_persistence :: bool
  st_calls :: "persist_call list"

definition newCookieStore :: "bool \<Rightarrow> CookieStore" where
  "newCookieStore persistence = \<lparr>st_cookies = [], st_persistence = persistence, st_calls = []\<rparr>"

definition cookie_of :: "PersistedCookie \<Rightarrow> Cookie" where
  "cookie_of p = \<lparr>c_name = p_name p, c_value = p_value p, c_domain = p_domain p, c_path = p_path p,
     c_secure = p_secure p, c_host_only = p_host_only p, c_expires = Some (p_expires p)\<rparr>"

text \<open>\<open>loaded\<close> is what the persistence backend's \<^verbatim>\<open>loadAll\<close> returns.\<close>

definition store_load :: "PersistedCookie list \<Rightarrow> int \<Rightarrow> CookieStore \<Rightarrow> CookieStore" where
  "store_load loaded now store =
     (if \<not> st_persistence store then store
      else store\<lparr>st_calls := st_calls store @ [PPrune],
        st_cookies := fold (\<lambda>p cs. if p_expires p \<le> now then cs else upsert cs (cookie_of p))
          loaded (st_cookies store)\<rparr>)"

definition store_set :: "Cookie \<Rightarrow> CookieStore \<Rightarrow> CookieStore" where
  "store_set cookie store =
     (case c_expires cookie of
        None \<Rightarrow> store
      | Some e \<Rightarrow>
          (let persisted = \<lparr>p_name = c_name cookie, p_domain = c_domain cookie, p_path = c_path cookie,
             p_value = c_value cookie, p_secure = c_secure cookie, p_host_only = c_host_only cookie,
             p_expires = e\<rparr> in
           store\<lparr>st_cookies := upsert (st_cookies store) cookie,
             st_calls := (if st_persistence store then st_calls store @ [PUpsert persisted]
                          else st_calls store)\<rparr>))"

definition store_erase :: "string \<Rightarrow> string \<Rightarrow> string \<Rightarrow> CookieStore \<Rightarrow> CookieStore" where
  "store_erase name domain path store =
     store\<lparr>st_cookies := remove_cookie (st_cookies store) name domain path,
       st_calls := (if st_persistence store then st_calls store @ [PErase name domain path]
                    else st_calls store)\<rparr>"

section \<open>Requests and responses\<close>

text \<open>What the sources read of a parsed URL.\<close>

record ada_url =
  u_protocol :: string
  u_hostname :: string
  u_host :: string
  u_pathname :: string
  u_href :: string

record RequestTarget =
  t_host :: string
  t_path :: string
  t_secure :: bool

definition targetFor :: "(string \<Rightarrow> ada_url option) \<Rightarrow> string \<Rightarrow> (url_error, RequestTarget option) result" where
  "targetFor ada url =
     (case ada url of
        None \<Rightarrow> Inr None
      | Some parsed \<Rightarrow>
          (case normalizeHost (u_hostname parsed) of
             Inl e \<Rightarrow> Inl e
           | Inr host \<Rightarrow> Inr (Some
               \<lparr>t_host = host,
                t_path = (if u_pathname parsed = [] then ''/'' else u_pathname parsed),
                t_secure = (u_protocol parsed = ''https:'')\<rparr>)))"

fun cookie_header :: "Cookie list \<Rightarrow> string \<Rightarrow> string" where
  "cookie_header [] value = value"
| "cookie_header (c # cs) value =
     cookie_header cs ((if value \<noteq> [] then value @ ''; '' else value) @ c_name c @ ''='' @ c_value c)"

definition request_cookies :: "RequestTarget \<Rightarrow> CookieOverlay \<Rightarrow> CookieStore \<Rightarrow> int \<Rightarrow> Cookie list" where
  "request_cookies target overlay store now =
     (let session = appendMatching overlay (t_host target) (t_path target) (t_secure target) now [];
          matched = appendMatching (st_cookies store) (t_host target) (t_path target) (t_secure target) now session;
          kept = take (length session) matched
            @ filter (\<lambda>c. \<not> list_ex (\<lambda>s. c_name s = c_name c) session) (drop (length session) matched) in
      sort_key (\<lambda>c. - int (length (c_path c))) kept)"

definition applyRequestCookies ::
  "(string \<Rightarrow> ada_url option) \<Rightarrow> string \<Rightarrow> CookieOverlay \<Rightarrow> CookieStore \<Rightarrow> HttpHeaders \<Rightarrow> int \<Rightarrow>
   (url_error, HttpHeaders) result" where
  "applyRequestCookies ada url overlay store headers now =
     (case targetFor ada url of
        Inl e \<Rightarrow> Inl e
      | Inr None \<Rightarrow> Inr headers
      | Inr (Some target) \<Rightarrow>
          (let matched = request_cookies target overlay store now in
           if matched = [] then Inr headers
           else Inr (headers_set ''Cookie'' (cookie_header matched []) headers)))"

record ResponseCookies =
  persistent :: "Cookie list"
  session :: "Cookie list"
  removed :: "Cookie list"

definition response_cookie :: "RequestTarget \<Rightarrow> SetCookie \<Rightarrow> (url_error, Cookie option) result" where
  "response_cookie target parsed =
     (let path = (if sc_path parsed = [] then defaultCookiePath (t_path target) else sc_path parsed);
          cookie = (\<lambda>domain host_only. \<lparr>c_name = sc_name parsed, c_value = sc_value parsed,
            c_domain = domain, c_path = path, c_secure = sc_secure parsed, c_host_only = host_only,
            c_expires = None\<rparr>) in
      if sc_domain parsed = [] then Inr (Some (cookie (t_host target) True))
      else
        (case normalizeHost (if starts_with (sc_domain parsed) ''.'' then tl (sc_domain parsed)
                             else sc_domain parsed) of
           Inl e \<Rightarrow> Inl e
         | Inr domain \<Rightarrow>
             if \<not> cookieDomainMatches (t_host target) domain False then Inr None
             else Inr (Some (cookie domain False))))"

definition file_cookie :: "SetCookie \<Rightarrow> int \<Rightarrow> Cookie \<Rightarrow> ResponseCookies \<Rightarrow> ResponseCookies" where
  "file_cookie parsed now cookie r =
     (case sc_max_age parsed of
        Some m \<Rightarrow>
          if m \<le> 0 then r\<lparr>removed := removed r @ [cookie]\<rparr>
          else r\<lparr>persistent := persistent r @ [cookie\<lparr>c_expires := Some (now + m * 1000000000)\<rparr>]\<rparr>
      | None \<Rightarrow>
          (case sc_expires parsed of
             Some e \<Rightarrow>
               if e \<le> now then r\<lparr>removed := removed r @ [cookie]\<rparr>
               else r\<lparr>persistent := persistent r @ [cookie\<lparr>c_expires := Some e\<rparr>]\<rparr>
           | None \<Rightarrow> r\<lparr>session := session r @ [cookie]\<rparr>))"

fun collect_headers ::
  "(string \<Rightarrow> int) \<Rightarrow> RequestTarget \<Rightarrow> int \<Rightarrow> string list \<Rightarrow> ResponseCookies \<Rightarrow>
   (url_error, ResponseCookies) result" where
  "collect_headers getdate target now [] r = Inr r"
| "collect_headers getdate target now (h # hs) r =
     (case parseSetCookie getdate h of
        None \<Rightarrow> collect_headers getdate target now hs r
      | Some parsed \<Rightarrow>
          (case response_cookie target parsed of
             Inl e \<Rightarrow> Inl e
           | Inr None \<Rightarrow> collect_headers getdate target now hs r
           | Inr (Some cookie) \<Rightarrow> collect_headers getdate target now hs (file_cookie parsed now cookie r)))"

definition collectResponseCookies ::
  "(string \<Rightarrow> ada_url option) \<Rightarrow> (string \<Rightarrow> int) \<Rightarrow> string \<Rightarrow> HttpHeaders \<Rightarrow> int \<Rightarrow>
   (url_error, ResponseCookies) result" where
  "collectResponseCookies ada getdate url headers now =
     (let none = \<lparr>persistent = [], session = [], removed = []\<rparr> in
      case targetFor ada url of
        Inl e \<Rightarrow> Inl e
      | Inr None \<Rightarrow> Inr none
      | Inr (Some target) \<Rightarrow>
          collect_headers getdate target now (headers_all ''set-cookie'' headers) none)"

text \<open>How a finished transfer files the cookies of its response (\<^verbatim>\<open>LanePool::complete\<close>).\<close>

definition store_response_cookies ::
  "ResponseCookies \<Rightarrow> CookieOverlay \<times> CookieStore \<Rightarrow> CookieOverlay \<times> CookieStore" where
  "store_response_cookies collected s =
     (let store = fold store_set (persistent collected) (snd s);
          overlay = fold overlay_set (session collected) (fst s) in
      (fold (\<lambda>c. overlay_erase (c_name c) (c_domain c) (c_path c)) (removed collected) overlay,
       fold (\<lambda>c. store_erase (c_name c) (c_domain c) (c_path c)) (removed collected) store))"

section \<open>A cookie jar as an interface\<close>

definition cookie_id :: "Cookie \<Rightarrow> string \<times> string \<times> string" where
  "cookie_id c = (c_name c, c_domain c, c_path c)"

lemma sameIdentity_id: "sameIdentity a b \<longleftrightarrow> cookie_id a = cookie_id b"
  by (auto simp: sameIdentity_def cookie_id_def)

text \<open>The last cookie of a list with the given identity.\<close>

definition latest :: "Cookie list \<Rightarrow> string \<times> string \<times> string \<Rightarrow> Cookie option" where
  "latest cs i = find (\<lambda>c. cookie_id c = i) (rev cs)"

locale cookie_jar =
  fixes put :: "Cookie \<Rightarrow> 'j \<Rightarrow> 'j"
    and erase :: "string \<Rightarrow> string \<Rightarrow> string \<Rightarrow> 'j \<Rightarrow> 'j"
    and look :: "'j \<Rightarrow> string \<times> string \<times> string \<Rightarrow> Cookie option"
    and accepts :: "Cookie \<Rightarrow> bool"
  assumes look_put: "accepts c \<Longrightarrow> look (put c j) i = (if cookie_id c = i then Some c else look j i)"
    and look_erase: "look (erase n d p j) i = (if (n, d, p) = i then None else look j i)"
begin

lemma look_put_all:
  "list_all accepts cs \<Longrightarrow>
     look (fold put cs j) i = (case latest cs i of None \<Rightarrow> look j i | Some c \<Rightarrow> Some c)"
  by (induction cs rule: rev_induct) (auto simp: latest_def look_put)

lemma look_erase_all:
  "look (fold (\<lambda>c. erase (c_name c) (c_domain c) (c_path c)) cs j) i
     = (if i \<in> cookie_id ` set cs then None else look j i)"
  by (induction cs rule: rev_induct) (auto simp: look_erase cookie_id_def)

lemma look_update:
  assumes "list_all accepts cs"
  shows "look (fold (\<lambda>c. erase (c_name c) (c_domain c) (c_path c)) rs (fold put cs j)) i
    = (if i \<in> cookie_id ` set rs then None
       else case latest cs i of None \<Rightarrow> look j i | Some c \<Rightarrow> Some c)"
  by (simp add: look_erase_all look_put_all assms)

end

definition held :: "Cookie list \<Rightarrow> string \<times> string \<times> string \<Rightarrow> Cookie option" where
  "held cs i = find (\<lambda>c. cookie_id c = i) cs"

lemma held_upsert: "held (upsert cs c) i = (if cookie_id c = i then Some c else held cs i)"
  by (induction cs) (auto simp: held_def sameIdentity_id)

lemma held_remove: "held (remove_cookie cs n d p) i = (if (n, d, p) = i then None else held cs i)"
  by (induction cs) (auto simp: held_def remove_cookie_def cookie_id_def)

interpretation overlay: cookie_jar overlay_set overlay_erase held "\<lambda>_. True"
  by unfold_locales (simp_all add: overlay_set_def overlay_erase_def held_upsert held_remove)

interpretation cookies: cookie_jar store_set store_erase "\<lambda>s. held (st_cookies s)"
  "\<lambda>c. c_expires c \<noteq> None"
  by unfold_locales (auto simp: store_set_def store_erase_def held_upsert held_remove)

lemma upsert_set: "set (upsert cs c) \<subseteq> insert c (set cs)"
  by (induction cs) auto

lemma upsert_distinct: "distinct (map cookie_id cs) \<Longrightarrow> distinct (map cookie_id (upsert cs c))"
proof (induction cs)
  case (Cons h cs)
  have "cookie_id ` set (upsert cs c) \<subseteq> insert (cookie_id c) (cookie_id ` set cs)"
    using upsert_set by fastforce
  with Cons show ?case by (auto simp: sameIdentity_id)
qed simp

lemma remove_distinct:
  "distinct (map cookie_id cs) \<Longrightarrow> distinct (map cookie_id (remove_cookie cs n d p))"
  by (simp add: remove_cookie_def distinct_map_filter)

section \<open>Hosts, domains and paths\<close>

lemma first_of_split:
  assumes "x \<in> set cs" and "\<forall>c \<in> set a. c \<notin> set cs"
  shows "first_of cs (a @ x # b) = Some (length a)"
  using assms by (auto simp: first_of_def takeWhile_append)


lemma cookiePathMatches_iff:
  "cookiePathMatches p c \<longleftrightarrow> c = [] \<or> c = ''/'' \<or> p = c
     \<or> (\<exists>rest. p = c @ rest \<and> (last c = CHR ''/'' \<or> hd rest = CHR ''/'') \<and> rest \<noteq> [])"
  by (auto simp: cookiePathMatches_def starts_with_iff nth_append hd_conv_nth)

lemma before_last_split:
  assumes "c \<in> set s"
  shows "\<exists>r. s = before_last c s @ c # r"
proof -
  obtain a b where r: "rev s = a @ c # b" "c \<notin> set a"
    using assms split_list_first [of c "rev s"] by auto
  then have "dropWhile (\<lambda>x. x \<noteq> c) (rev s) = c # b" by (auto simp: dropWhile_append)
  moreover have "s = rev b @ c # rev a" using arg_cong [OF r(1), of rev] by simp
  ultimately show ?thesis by (simp add: before_last_def)
qed

lemma defaultCookiePath_matches: "cookiePathMatches p (defaultCookiePath p)"
proof (cases "p = [] \<or> hd p \<noteq> CHR ''/'' \<or> before_last (CHR ''/'') p = []")
  case False
  then have "CHR ''/'' \<in> set p" by (metis hd_in_set)
  then obtain r where "p = before_last (CHR ''/'') p @ CHR ''/'' # r" using before_last_split by blast
  then show ?thesis
    using False by (auto simp: cookiePathMatches_iff defaultCookiePath_def)
qed (auto simp: cookiePathMatches_def defaultCookiePath_def)

section \<open>The cookies of a request\<close>

lemma request_cookies_set:
  "set (request_cookies target overlay store now) =
     {c \<in> set overlay. cookie_matches c (t_host target) (t_path target) (t_secure target) now}
     \<union> {c \<in> set (st_cookies store). cookie_matches c (t_host target) (t_path target) (t_secure target) now
          \<and> (\<forall>s \<in> set overlay. cookie_matches s (t_host target) (t_path target) (t_secure target) now
               \<longrightarrow> c_name s \<noteq> c_name c)}"
  by (auto simp: request_cookies_def appendMatching_def Let_def list_ex_iff)

lemma request_cookies_sorted:
  "sorted (map (\<lambda>c. - int (length (c_path c))) (request_cookies target overlay store now))"
  by (simp add: request_cookies_def Let_def)

lemma cookie_header_join:
  "value \<noteq> [] \<Longrightarrow> cookie_header cs value = value @ concat (map (\<lambda>c. ''; '' @ c_name c @ ''='' @ c_value c) cs)"
  by (induction cs arbitrary: "value") auto

section \<open>The cookies of a response\<close>





lemma collect_headers_persistent:
  assumes "collect_headers getdate target now hs r = Inr r'"
    and "list_all (\<lambda>c. c_expires c \<noteq> None) (persistent r)"
  shows "list_all (\<lambda>c. c_expires c \<noteq> None) (persistent r')"
  using assms
proof (induction hs arbitrary: r)
  case (Cons h hs)
  have "list_all (\<lambda>c. c_expires c \<noteq> None) (persistent (file_cookie parsed now c r))" for parsed c
    using Cons.prems(2) by (auto simp: file_cookie_def split: option.split)
  with Cons show ?case by (auto split: sum.splits option.splits)
qed simp

lemma store_response_distinct:
  assumes "distinct (map cookie_id ov)" and "distinct (map cookie_id (st_cookies s))"
  shows "distinct (map cookie_id (fst (store_response_cookies r (ov, s))))
    \<and> distinct (map cookie_id (st_cookies (snd (store_response_cookies r (ov, s)))))"
proof -
  have put: "distinct (map cookie_id (fold overlay_set cs ov'))"
    if "distinct (map cookie_id ov')" for cs ov'
    using that by (induction cs arbitrary: ov') (simp_all add: overlay_set_def upsert_distinct)
  have sput: "distinct (map cookie_id (st_cookies (fold store_set cs s')))"
    if "distinct (map cookie_id (st_cookies s'))" for cs s'
    using that
    by (induction cs arbitrary: s') (simp_all add: store_set_def upsert_distinct Let_def split: option.split)
  have del: "distinct (map cookie_id (fold (\<lambda>c. overlay_erase (c_name c) (c_domain c) (c_path c)) cs ov'))"
    if "distinct (map cookie_id ov')" for cs ov'
    using that by (induction cs arbitrary: ov') (simp_all add: overlay_erase_def remove_distinct)
  have sdel: "distinct (map cookie_id (st_cookies (fold (\<lambda>c. store_erase (c_name c) (c_domain c) (c_path c)) cs s')))"
    if "distinct (map cookie_id (st_cookies s'))" for cs s'
    using that by (induction cs arbitrary: s') (simp_all add: store_erase_def remove_distinct)
  show ?thesis
    unfolding store_response_cookies_def Let_def fst_conv snd_conv
    by (intro conjI del sdel put sput assms)
qed

section \<open>Properties\<close>

definition ex_ada :: "string \<Rightarrow> ada_url option" where
  "ex_ada url = Some \<lparr>u_protocol = ''https:'', u_hostname = url, u_host = url, u_pathname = ''/a/b'', u_href = url\<rparr>"

lemma ex_target:
  "targetFor ex_ada ''h.org'' = Inr (Some \<lparr>t_host = ''h.org'', t_path = ''/a/b'', t_secure = True\<rparr>)"
  by code_simp



text \<open>
  C23. The Cookie header of a request holds exactly the right cookies: every live cookie of
  the session that matches the host, path and transport, and every such persistent cookie
  whose name no matching session cookie has, the longer paths first, written as
  name=value pairs joined by a semicolon and a space; other fields stay as they are, and
  without a matching cookie the headers are left alone.
\<close>

theorem request_cookie_header:
  assumes "targetFor ada url = Inr (Some target)"
    and "ms = request_cookies target overlay store now"
    and "fits = (\<lambda>c. cookie_matches c (t_host target) (t_path target) (t_secure target) now)"
  shows "set ms = {c \<in> set overlay. fits c}
        \<union> {c \<in> set (st_cookies store). fits c \<and> (\<forall>s \<in> set overlay. fits s \<longrightarrow> c_name s \<noteq> c_name c)}
    \<and> sorted_wrt (\<lambda>a b. length (c_path b) \<le> length (c_path a)) ms
    \<and> applyRequestCookies ada url overlay store headers now
        = Inr (case ms of [] \<Rightarrow> headers
               | c # cs \<Rightarrow> headers_set ''Cookie''
                   (c_name c @ ''='' @ c_value c
                    @ concat (map (\<lambda>c. ''; '' @ c_name c @ ''='' @ c_value c) cs)) headers)"
proof -
  have "sorted_wrt (\<lambda>a b. length (c_path b) \<le> length (c_path a)) ms"
    using request_cookies_sorted [of target overlay store now] assms(2) by (simp add: sorted_map)
  moreover have "cookie_header (c # cs) [] = c_name c @ ''='' @ c_value c
      @ concat (map (\<lambda>c. ''; '' @ c_name c @ ''='' @ c_value c) cs)" for c cs
    by (simp add: cookie_header_join)
  ultimately show ?thesis
    using assms request_cookies_set [of target overlay store now]
    by (auto simp: applyRequestCookies_def Let_def simp del: cookie_header.simps split: list.split)
qed

theorem request_cookie_header_witness:
  "applyRequestCookies ex_ada ''h.org''
     [\<lparr>c_name = ''s'', c_value = ''1'', c_domain = ''org'', c_path = ''/'', c_secure = False,
       c_host_only = False, c_expires = None\<rparr>]
     \<lparr>st_cookies = [\<lparr>c_name = ''t'', c_value = ''2'', c_domain = ''h.org'', c_path = ''/a'', c_secure = True,
       c_host_only = True, c_expires = Some 9\<rparr>], st_persistence = False, st_calls = []\<rparr> [] 3
   = Inr [(''Cookie'', ''t=2; s=1'')]"
proof -
  let ?s = "\<lparr>c_name = ''s'', c_value = ''1'', c_domain = ''org'', c_path = ''/'', c_secure = False,
       c_host_only = False, c_expires = None\<rparr>"
  let ?t = "\<lparr>c_name = ''t'', c_value = ''2'', c_domain = ''h.org'', c_path = ''/a'', c_secure = True,
       c_host_only = True, c_expires = Some 9\<rparr>"
  have "request_cookies \<lparr>t_host = ''h.org'', t_path = ''/a/b'', t_secure = True\<rparr> [?s]
      \<lparr>st_cookies = [?t], st_persistence = False, st_calls = []\<rparr> 3 = [?t, ?s]"
    by code_simp
  then show ?thesis
    using request_cookie_header [OF ex_target refl refl, of "[?s]"
        "\<lparr>st_cookies = [?t], st_persistence = False, st_calls = []\<rparr>" 3 "[]"]
    by (simp add: headers_set_def headers_add_def headers_erase_def)
qed

text \<open>
  C24. Filing the cookies of a response.  In the session overlay and in the persistent store
  a cookie identity (name, domain, path) that the response removed is gone, one that it
  set holds the last value it set, and every other identity keeps what it held; and no
  identity is ever held twice.
\<close>

theorem response_cookies_filed:
  assumes "collectResponseCookies ada getdate url headers now = Inr r"
    and "store_response_cookies r (ov, s) = (ov', s')"
  shows "held ov' i = (if i \<in> cookie_id ` set (removed r) then None
        else case latest (session r) i of None \<Rightarrow> held ov i | Some c \<Rightarrow> Some c)
    \<and> held (st_cookies s') i = (if i \<in> cookie_id ` set (removed r) then None
        else case latest (persistent r) i of None \<Rightarrow> held (st_cookies s) i | Some c \<Rightarrow> Some c)
    \<and> (distinct (map cookie_id ov) \<and> distinct (map cookie_id (st_cookies s)) \<longrightarrow>
        distinct (map cookie_id ov') \<and> distinct (map cookie_id (st_cookies s')))"
proof -
  have p: "list_all (\<lambda>c. c_expires c \<noteq> None) (persistent r)"
    using assms(1) collect_headers_persistent
    by (fastforce simp: collectResponseCookies_def Let_def split: sum.splits option.splits)
  show ?thesis
    using assms(2) overlay.look_update [of "session r" "removed r" ov i]
      cookies.look_update [OF p, of "removed r" s i] store_response_distinct [of ov s r]
    by (auto simp: store_response_cookies_def Let_def list_all_iff)
qed

theorem response_cookies_filed_witness:
  "held (st_cookies (snd (store_response_cookies
      (case collectResponseCookies ex_ada (\<lambda>_. - 1) ''h.org'' [(''set-cookie'', ''s=1; Max-Age=5'')] 0 of
         Inr r \<Rightarrow> r) ([], newCookieStore True)))) (''s'', ''h.org'', ''/a'')
   = Some \<lparr>c_name = ''s'', c_value = ''1'', c_domain = ''h.org'', c_path = ''/a'', c_secure = False,
       c_host_only = True, c_expires = Some 5000000000\<rparr>"
proof -
  let ?c = "\<lparr>c_name = ''s'', c_value = ''1'', c_domain = ''h.org'', c_path = ''/a'', c_secure = False,
       c_host_only = True, c_expires = Some 5000000000\<rparr>"
  have r: "collectResponseCookies ex_ada (\<lambda>_. - 1) ''h.org'' [(''set-cookie'', ''s=1; Max-Age=5'')] 0
      = Inr \<lparr>persistent = [?c], session = [], removed = []\<rparr>"
    by code_simp
  show ?thesis
    using response_cookies_filed [OF r prod.collapse [symmetric],
        of "[]" "newCookieStore True" "(''s'', ''h.org'', ''/a'')"] r
    by (simp add: latest_def cookie_id_def)
qed

text \<open>
  Path matching is prefix matching at segment boundaries: a cookie path matches a request
  path when it is empty or the root, when the two are equal, or when the request path
  continues it at a slash; and the default path taken from a request matches that request.
\<close>

theorem cookie_path_rule:
  "(cookiePathMatches p c \<longleftrightarrow> c = [] \<or> c = ''/'' \<or> p = c
      \<or> (\<exists>rest. p = c @ rest \<and> (last c = CHR ''/'' \<or> hd rest = CHR ''/'') \<and> rest \<noteq> []))
   \<and> cookiePathMatches p (defaultCookiePath p)"
  using cookiePathMatches_iff defaultCookiePath_matches by blast

text \<open>
  C37. Normalising a host name lower-cases it only when it holds neither a colon nor a
  slash.  Otherwise everything up to two characters past the first of them is cut off,
  whatever it is, so that different IPv6 literals become the same host, and a host
  that ends there raises an out-of-range exception.
\<close>

theorem normalize_host_cases:
  assumes "\<forall>c \<in> set a. c \<noteq> CHR '':'' \<and> c \<noteq> CHR ''/''" and "x = CHR '':'' \<or> x = CHR ''/''"
  shows "normalizeHost a = Inr (lowered a)
    \<and> normalizeHost (a @ x # b) = (if length b < 2 then Inl OutOfRange else Inr (lowered (drop 2 b)))"
proof -
  have "first_of ''://'' a = None" using assms(1) by (auto simp: first_of_def)
  moreover have "first_of ''://'' (a @ x # b) = Some (length a)"
    using assms by (intro first_of_split) auto
  moreover have "drop (length a + 3) (a @ x # b) = drop 2 b" by (simp add: numeral_3_eq_3 numeral_2_eq_2)
  ultimately show ?thesis by (auto simp: normalizeHost_def)
qed

theorem normalize_host_cases_witness:
  "normalizeHost ''H.org'' = Inr ''h.org'' \<and> normalizeHost ''[::1]'' = normalizeHost ''[::2]''
   \<and> normalizeHost ''x:'' = Inl OutOfRange"
proof -
  have "lowered ''H.org'' = ''h.org''" by code_simp
  then show ?thesis
    using normalize_host_cases [of "''H.org''" "CHR '':''" "[]"]
      normalize_host_cases [of "''[''" "CHR '':''" "'':1]''"]
      normalize_host_cases [of "''[''" "CHR '':''" "'':2]''"]
      normalize_host_cases [of "''x''" "CHR '':''" "[]"]
    by simp
qed

text \<open>
  C38. A response that first clears a cookie and then sets it again loses it: removals are
  applied after all the values, so the cookie ends up in neither place although its last
  header set it.
\<close>

theorem cleared_then_set_is_lost:
  assumes "targetFor ada url = Inr (Some target)"
    and "headers_all ''set-cookie'' headers = [clear, set_again]"
    and "parseSetCookie getdate clear = Some pc" and "parseSetCookie getdate set_again = Some ps"
    and "response_cookie target pc = Inr (Some c)" and "response_cookie target ps = Inr (Some c')"
    and "sc_max_age pc = Some 0" and "cookie_id c = cookie_id c'"
  shows "\<exists>r. collectResponseCookies ada getdate url headers now = Inr r
    \<and> held (fst (store_response_cookies r (ov, s))) (cookie_id c') = None
    \<and> held (st_cookies (snd (store_response_cookies r (ov, s)))) (cookie_id c') = None"
proof -
  let ?none = "\<lparr>persistent = [], session = [], removed = []\<rparr>"
  let ?r = "file_cookie ps now c' (file_cookie pc now c ?none)"
  have r: "collectResponseCookies ada getdate url headers now = Inr ?r"
    using assms by (simp add: collectResponseCookies_def Let_def)
  have "c \<in> set (removed ?r)"
    using assms(7) by (auto simp: file_cookie_def split: option.split)
  then have "cookie_id c' \<in> cookie_id ` set (removed ?r)" using assms(8) by (metis imageI)
  then have "held (fst (store_response_cookies ?r (ov, s))) (cookie_id c') = None
    \<and> held (st_cookies (snd (store_response_cookies ?r (ov, s)))) (cookie_id c') = None"
    by (simp add: store_response_cookies_def Let_def overlay.look_erase_all cookies.look_erase_all)
  with r show ?thesis by blast
qed

theorem cleared_then_set_is_lost_witness:
  "\<exists>r. collectResponseCookies ex_ada (\<lambda>_. - 1) ''h.org''
        [(''Set-Cookie'', ''s=; Max-Age=0''), (''Set-Cookie'', ''s=2'')] 0 = Inr r
     \<and> held (fst (store_response_cookies r ([], newCookieStore True))) (''s'', ''h.org'', ''/a'') = None
     \<and> held (st_cookies (snd (store_response_cookies r ([], newCookieStore True)))) (''s'', ''h.org'', ''/a'') = None"
proof -
  let ?t = "\<lparr>t_host = ''h.org'', t_path = ''/a/b'', t_secure = True\<rparr>"
  let ?pc = "the (parseSetCookie (\<lambda>_. - 1) ''s=; Max-Age=0'')"
  let ?ps = "the (parseSetCookie (\<lambda>_. - 1) ''s=2'')"
  let ?c = "\<lparr>c_name = ''s'', c_value = [], c_domain = ''h.org'', c_path = ''/a'', c_secure = False,
       c_host_only = True, c_expires = None\<rparr>"
  have "headers_all ''set-cookie'' [(''Set-Cookie'', ''s=; Max-Age=0''), (''Set-Cookie'', ''s=2'')]
      = [''s=; Max-Age=0'', ''s=2'']"
    and "parseSetCookie (\<lambda>_. - 1) ''s=; Max-Age=0'' = Some ?pc" "parseSetCookie (\<lambda>_. - 1) ''s=2'' = Some ?ps"
    and "response_cookie ?t ?pc = Inr (Some ?c)" "response_cookie ?t ?ps = Inr (Some (?c\<lparr>c_value := ''2''\<rparr>))"
    and "sc_max_age ?pc = Some 0"
    by code_simp+
  from cleared_then_set_is_lost [OF ex_target this, of 0 "[]" "newCookieStore True"]
  show ?thesis by (simp add: cookie_id_def)
qed



end
