(* ===== verification/Lane_Pool.thy ===== *)
theory Lane_Pool
  imports Lane_Shard Cookie_Store "HOL-Library.AList"
begin

text \<open>
  The pool of lanes (\<^verbatim>\<open>http/LanePool.cpp\<close>): which lane a request goes to, the request of each
  hop, and what a finished hop leads to: cookies, the verdict on the host, a retry, a
  redirect or the answer to the caller.  Both hash maps of the pool are association lists in an
  iteration order; a null policy pointer is \<open>Some None\<close>.  An exchange is held by the callback
  of its current hop; \<open>exchanges\<close> lists the ones that wait for an answer, by identity, with
  the lane key the callback captured.  A call answers the callbacks of its lane later, as separate
  events.  The URL parser, the date parsers and the rate quotient are fields of \<open>externals\<close>;
  \<open>steady t k\<close> and \<open>wall t\<close> are the readings of the two clocks during a call.  An exception
  or the dereference of a null policy ends the call with the effect \<open>Raised\<close>.
\<close>

section \<open>State\<close>

record externals =
  parse_url :: "string \<Rightarrow> ada_url option \<Rightarrow> ada_url option"
  curl_getdate :: "string \<Rightarrow> int"
  rate_quotient :: "nat \<Rightarrow> nat \<Rightarrow> int"
  http_date :: "string \<Rightarrow> (int \<times> string) option"

abbreviation ada :: "externals \<Rightarrow> string \<Rightarrow> ada_url option" where
  "ada w url \<equiv> parse_url w url None"

record readings =
  steady :: "nat \<Rightarrow> int"
  wall :: int

record Exchange =
  x_method :: HttpMethod
  x_url :: string
  x_headers :: HttpHeaders
  x_body :: string
  x_sensitive_query :: "string list"
  x_options :: TransferOptions
  x_cookies :: "nat option"
  x_require_file :: bool
  x_cancellation :: "nat option"
  x_sink :: "nat option"
  x_callback :: nat
  x_hops :: "TransferHop list"
  x_redirects :: int

record PoolConfig =
  lane_config :: LaneConfig
  pool_keep_alive :: int
  default_rate :: RequestRate
  pool_http_version :: HttpVersion
  pool_user_agent :: string
  pool_max_response_bytes :: nat
  pool_timeout_ms :: int
  observer :: bool

record LanePool =
  pool_config :: PoolConfig
  resolver :: "(string \<Rightarrow> LaneSettings) option"
  policies :: "(string \<times> LanePolicy option) list"
  lanes :: "(string \<times> Lane) list"
  pool_stopped :: bool
  sweep_armed :: bool
  exchanges :: "(nat \<times> Exchange \<times> string) list"
  next_exchange :: nat
  overlays :: "nat \<Rightarrow> CookieOverlay"
  cookie_store :: CookieStore
  flags :: "nat \<Rightarrow> bool"

datatype pool_error = HostError url_error | PolicyRefused policy_error | NullPolicy

datatype pool_effect =
    LaneDid string lane_effect
  | Caller transfer_effect
  | Published LaneSnapshot
  | PostSweep int
  | Raised pool_error

section \<open>Lanes and policies\<close>

definition settings_for :: "LanePool \<Rightarrow> string \<Rightarrow> LaneSettings" where
  "settings_for pool host = (case resolver pool of Some r \<Rightarrow> r host | None \<Rightarrow> defaultSettings)"

definition keyFor :: "LanePool \<Rightarrow> string \<Rightarrow> string" where
  "keyFor pool host =
     (case lane_group (settings_for pool host) of Some g \<Rightarrow> ''group:'' @ g | None \<Rightarrow> host)"

definition laneKeyForUrl :: "externals \<Rightarrow> LanePool \<Rightarrow> string \<Rightarrow> (url_error, string) result" where
  "laneKeyForUrl w pool url =
     (case ada w url of
        None \<Rightarrow> Inr []
      | Some parsed \<Rightarrow>
          (case normalizeHost (u_hostname parsed) of Inl e \<Rightarrow> Inl e | Inr host \<Rightarrow> Inr (keyFor pool host)))"

definition policyFor :: "LanePool \<Rightarrow> string \<Rightarrow> LanePolicy option" where
  "policyFor pool key = (case map_of (policies pool) key of None \<Rightarrow> None | Some p \<Rightarrow> p)"

definition set_policy :: "string \<Rightarrow> LanePolicy option \<Rightarrow> LanePool \<Rightarrow> LanePool" where
  "set_policy key p pool = pool\<lparr>policies := AList.update key p (policies pool)\<rparr>"

definition maximum_backoff :: int where
  "maximum_backoff = 3600 * ns_per_second"

definition lane_settings :: "LanePool \<Rightarrow> string \<Rightarrow> LaneSettings" where
  "lane_settings pool host =
     (let s = settings_for pool host in
      if rate s = None \<and> lane_group s = None \<and> resolver pool = None
      then s\<lparr>rate := Some (default_rate (pool_config pool))\<rparr> else s)"

definition add_lane :: "string \<Rightarrow> int \<Rightarrow> LanePool \<Rightarrow> Lane \<times> LanePool" where
  "add_lane key now pool =
     (let lane = newLane key (lane_config (pool_config pool)) now in
      (lane, pool\<lparr>lanes := AList.update key lane (lanes pool)\<rparr>))"

definition laneFor ::
  "externals \<Rightarrow> int \<Rightarrow> string \<Rightarrow> string \<Rightarrow> LanePool \<Rightarrow> (pool_error, Lane option) result \<times> LanePool" where
  "laneFor w now key host pool =
     (if pool_stopped pool then (Inr None, pool)
      else
        (case map_of (lanes pool) key of
           Some lane \<Rightarrow> (Inr (Some lane), pool)
         | None \<Rightarrow>
             (case map_of (policies pool) key of
                Some (Some p) \<Rightarrow> (let (lane, pool1) = add_lane key now pool in (Inr (Some lane), pool1))
              | Some None \<Rightarrow> (Inl NullPolicy, pool)
              | None \<Rightarrow>
                  (case newPolicy (rate_quotient w) key (lane_settings pool host) maximum_backoff of
                     Inl e \<Rightarrow> (Inl (PolicyRefused e), set_policy key None pool)
                   | Inr p \<Rightarrow>
                       (let (lane, pool1) = add_lane key now (set_policy key (Some p) pool) in
                        (Inr (Some lane), pool1))))))"

text \<open>A call into the lane of a key, which shares its policy with the pool.\<close>

definition on_lane ::
  "string \<Rightarrow> (Lane \<Rightarrow> LanePolicy \<Rightarrow> lane_effect list \<times> Lane \<times> LanePolicy) \<Rightarrow> LanePool \<Rightarrow>
   pool_effect list \<times> LanePool" where
  "on_lane key f pool =
     (case (map_of (lanes pool) key, policyFor pool key) of
        (Some l, Some p) \<Rightarrow>
          (let (e, l', p') = f l p in
           (map (LaneDid key) e,
            set_policy key (Some p') (pool\<lparr>lanes := AList.update key l' (lanes pool)\<rparr>)))
      | _ \<Rightarrow> ([], pool))"

definition isRedirect :: "int \<Rightarrow> bool" where
  "isRedirect s \<longleftrightarrow> s = 301 \<or> s = 302 \<or> s = 303 \<or> s = 307 \<or> s = 308"

definition sameOrigin :: "externals \<Rightarrow> string \<Rightarrow> string \<Rightarrow> bool" where
  "sameOrigin w left right =
     (case (ada w left, ada w right) of
        (Some a, Some b) \<Rightarrow> u_protocol a = u_protocol b \<and> u_host a = u_host b
      | _ \<Rightarrow> False)"

section \<open>Reports\<close>

definition isThrottleHeader :: "string \<Rightarrow> bool" where
  "isThrottleHeader name =
     (let l = lowered name in
      if l = ''retry-after'' then True
      else find_sub ''ratelimit'' l \<noteq> None \<or> find_sub ''rate-limit'' l \<noteq> None)"

fun throttle_report :: "HttpHeaders \<Rightarrow> string \<Rightarrow> string" where
  "throttle_report [] reported = reported"
| "throttle_report ((name, value) # h) reported =
     (if \<not> isThrottleHeader name then throttle_report h reported
      else throttle_report h ((if reported = [] then reported else reported @ '', '') @ name @ ''='' @ value))"

definition reportThrottleHeaders :: "string \<Rightarrow> HttpHeaders \<Rightarrow> LanePool \<Rightarrow> LanePool" where
  "reportThrottleHeaders key headers pool =
     (let reported = throttle_report headers [] in
      if reported = [] then pool
      else
        (case policyFor pool key of
           None \<Rightarrow> pool
         | Some p \<Rightarrow> set_policy key (Some (advertised reported p)) pool))"

definition blankSnapshot :: LaneSnapshot where
  "blankSnapshot = \<lparr>s_key = [], s_group = None, rate_requests = 0, rate_seconds = 0, s_throttled = False,
     effective_interval = 0, remaining = 0, s_failures = 0, backed_off = False, in_flight = 0, queued = 0,
     shards = 0, s_bytes_per_second = 0, download_bytes_per_second = 0, s_advertised = [], active = False\<rparr>"

definition pool_snapshot :: "int \<Rightarrow> LanePool \<Rightarrow> string \<Rightarrow> LanePolicy \<Rightarrow> LaneSnapshot" where
  "pool_snapshot now pool key p =
     (let snap = fill now p blankSnapshot in
      case map_of (lanes pool) key of None \<Rightarrow> snap | Some l \<Rightarrow> lane_fill now l snap)"

definition publish :: "int \<Rightarrow> string \<Rightarrow> LanePool \<Rightarrow> pool_effect list" where
  "publish now key pool =
     (if \<not> observer (pool_config pool) then []
      else
        (case map_of (policies pool) key of
           None \<Rightarrow> []
         | Some None \<Rightarrow> [Raised NullPolicy]
         | Some (Some p) \<Rightarrow> [Published (pool_snapshot now pool key p)]))"

definition snapshots :: "int \<Rightarrow> LanePool \<Rightarrow> (pool_error, LaneSnapshot list) result" where
  "snapshots now pool =
     (if list_ex (\<lambda>(k, p). p = None) (policies pool) then Inl NullPolicy
      else Inr (List.map_filter (\<lambda>(k, p). map_option (pool_snapshot now pool k) p) (policies pool)))"

section \<open>Sending a hop\<close>

definition refuse_exchange :: "TransferResult \<Rightarrow> Exchange \<Rightarrow> pool_effect list" where
  "refuse_exchange r x =
     map Caller ((case x_sink x of None \<Rightarrow> [] | Some s \<Rightarrow> [AbortSink s]) @ [Answer (x_callback x) r])"

definition hop_options :: "PoolConfig \<Rightarrow> LaneSettings \<Rightarrow> TransferOptions \<Rightarrow> TransferOptions" where
  "hop_options config s opts = opts\<lparr>
     o_http_version := Some (case http_version s of Some v \<Rightarrow> v | None \<Rightarrow> pool_http_version config),
     o_bytes_per_second := bytes_per_second s,
     user_agent := pool_user_agent config,
     timeout_ms := pool_timeout_ms config,
     max_response_bytes :=
       (if max_response_bytes opts = 0 then pool_max_response_bytes config else max_response_bytes opts)\<rparr>"

definition hop_headers ::
  "externals \<Rightarrow> int \<Rightarrow> Exchange \<Rightarrow> LanePool \<Rightarrow> (url_error, HttpHeaders) result" where
  "hop_headers w now x pool =
     (case x_cookies x of
        None \<Rightarrow> Inr (x_headers x)
      | Some j \<Rightarrow>
          applyRequestCookies (ada w) (x_url x) (overlays pool j) (cookie_store pool)
            (headers_erase ''cookie'' (x_headers x)) now)"

definition hop_request :: "Exchange \<Rightarrow> HttpHeaders \<Rightarrow> TransferRequest" where
  "hop_request x headers = \<lparr>req_method = x_method x, req_url = x_url x, req_headers = headers,
     req_body = x_body x, sensitive_query = x_sensitive_query x, options = x_options x,
     req_cookies = x_cookies x, sink = x_sink x, require_file = x_require_file x,
     cancellation = x_cancellation x\<rparr>"

definition submit_hop ::
  "externals \<Rightarrow> readings \<Rightarrow> nat \<Rightarrow> string \<Rightarrow> Exchange \<Rightarrow> LanePool \<Rightarrow> pool_effect list \<times> LanePool" where
  "submit_hop w t i key x pool =
     (case hop_headers w (wall t) x pool of
        Inl e \<Rightarrow> ([Raised (HostError e)], pool)
      | Inr headers \<Rightarrow>
          (let pool1 = pool\<lparr>exchanges := exchanges pool @ [(i, x\<lparr>x_sink := None\<rparr>, key)]\<rparr>;
               hop = \<lparr>request = hop_request x headers, pending_callback = i\<rparr>;
               (e, pool2) = on_lane key (submit (\<lambda>k. steady t (k + 2)) hop) pool1 in
           (e @ publish (steady t 1) key pool2, pool2)))"

definition dispatch ::
  "externals \<Rightarrow> readings \<Rightarrow> nat \<Rightarrow> Exchange \<Rightarrow> LanePool \<Rightarrow> pool_effect list \<times> LanePool" where
  "dispatch w t i x pool =
     (if (case x_cancellation x of None \<Rightarrow> False | Some c \<Rightarrow> flags pool c)
      then (refuse_exchange (failure CANCELLED ''Transfer cancelled'') x, pool)
      else
        (case ada w (x_url x) of
           None \<Rightarrow> (refuse_exchange (failure INVALID_URL (''Not an HTTP URL: '' @ x_url x)) x, pool)
         | Some parsed \<Rightarrow>
             if u_protocol parsed \<noteq> ''http:'' \<and> u_protocol parsed \<noteq> ''https:''
             then (refuse_exchange (failure INVALID_URL (''Not an HTTP URL: '' @ x_url x)) x, pool)
             else
               (case normalizeHost (u_hostname parsed) of
                  Inl e \<Rightarrow> ([Raised (HostError e)], pool)
                | Inr host \<Rightarrow>
                    (let key = keyFor pool host in
                     case laneFor w (steady t 0) key host pool of
                       (Inl e, pool1) \<Rightarrow> ([Raised e], pool1)
                     | (Inr None, pool1) \<Rightarrow>
                         (refuse_exchange (failure SHUTDOWN ''The downloader is shutting down'') x, pool1)
                     | (Inr (Some _), pool1) \<Rightarrow>
                         submit_hop w t i key
                           (x\<lparr>x_options := hop_options (pool_config pool) (settings_for pool host) (x_options x)\<rparr>)
                           pool1))))"

definition exchange_of :: "TransferRequest \<Rightarrow> nat \<Rightarrow> Exchange" where
  "exchange_of r callback = \<lparr>x_method = req_method r, x_url = req_url r, x_headers = req_headers r,
     x_body = req_body r, x_sensitive_query = sensitive_query r, x_options = options r,
     x_cookies = req_cookies r, x_require_file = require_file r, x_cancellation = cancellation r,
     x_sink = sink r, x_callback = callback, x_hops = [], x_redirects = 0\<rparr>"

definition send ::
  "externals \<Rightarrow> readings \<Rightarrow> TransferRequest \<Rightarrow> nat \<Rightarrow> LanePool \<Rightarrow> pool_effect list \<times> LanePool" where
  "send w t r callback pool =
     dispatch w t (next_exchange pool) (exchange_of r callback) (pool\<lparr>next_exchange := next_exchange pool + 1\<rparr>)"

section \<open>Completing a hop\<close>

definition file_response_cookies ::
  "externals \<Rightarrow> int \<Rightarrow> Exchange \<Rightarrow> TransferResponse \<Rightarrow> LanePool \<Rightarrow> (url_error, LanePool) result" where
  "file_response_cookies w now x r pool =
     (case x_cookies x of
        None \<Rightarrow> Inr pool
      | Some j \<Rightarrow>
          (case collectResponseCookies (ada w) (curl_getdate w) (resp_url r) (resp_headers r) now of
             Inl e \<Rightarrow> Inl e
           | Inr collected \<Rightarrow>
               (let (overlay, store) = store_response_cookies collected (overlays pool j, cookie_store pool) in
                Inr (pool\<lparr>overlays := (overlays pool)(j := overlay), cookie_store := store\<rparr>))))"

text \<open>What the status of a response does to the policy of its lane.\<close>

definition judge ::
  "externals \<Rightarrow> readings \<Rightarrow> string \<Rightarrow> TransferResponse \<Rightarrow> LanePool \<Rightarrow> pool_effect list \<times> LanePool" where
  "judge w t key r pool =
     (case policyFor pool key of
        None \<Rightarrow> ([], pool)
      | Some p \<Rightarrow>
          (let retry = (if headers_contains ''retry-after'' (resp_headers r)
                        then Some (headers_get ''retry-after'' (resp_headers r)) else None) in
           if status r = 429 then
             (let pool1 = set_policy key (Some (snd (limited (http_date w) retry (steady t 0) (wall t) p))) pool
              in (publish (steady t 1) key pool1, pool1))
           else if status r \<ge> 400 \<and> status r \<noteq> 404 then
             (let pool1 = set_policy key (Some (failed (steady t 0) p)) pool
              in (publish (steady t 1) key pool1, pool1))
           else ([], pool)))"

definition redirect_target :: "externals \<Rightarrow> Exchange \<Rightarrow> TransferResponse \<Rightarrow> string option" where
  "redirect_target w x r =
     (let location = headers_get ''location'' (resp_headers r) in
      if follow_redirects (x_options x) \<and> isRedirect (status r) \<and> location \<noteq> []
         \<and> x_redirects x < max_redirects (x_options x)
      then map_option u_href (parse_url w location (ada w (resp_url r)))
      else None)"

definition strip_sensitive :: "HttpHeaders \<Rightarrow> HttpHeaders" where
  "strip_sensitive h = fold headers_erase (map fst (filter (\<lambda>e. isSensitiveHeader (fst e)) h)) h"

definition redirected :: "externals \<Rightarrow> TransferResponse \<Rightarrow> string \<Rightarrow> Exchange \<Rightarrow> Exchange" where
  "redirected w r target x =
     (let x1 = x\<lparr>x_hops := x_hops x @ [\<lparr>hop_url = resp_url r, hop_status = status r\<rparr>],
                 x_redirects := x_redirects x + 1\<rparr>;
          x2 = (if status r = 301 \<or> status r = 302 \<or> status r = 303
                then x1\<lparr>x_method := (if x_method x1 \<noteq> HEAD then GET else x_method x1), x_body := [],
                  x_headers := headers_erase ''content-length'' (headers_erase ''content-type'' (x_headers x1))\<rparr>
                else x1);
          x3 = (if \<not> sameOrigin w (resp_url r) target then x2\<lparr>x_headers := strip_sensitive (x_headers x2)\<rparr>
                else x2) in
      x3\<lparr>x_url := target\<rparr>)"

definition deliver :: "Exchange \<Rightarrow> TransferResponse \<Rightarrow> pool_effect list" where
  "deliver x r = refuse_exchange (Inr (r\<lparr>resp_sink := None, hops := x_hops x\<rparr>)) x"

definition later :: "nat \<Rightarrow> readings \<Rightarrow> readings" where
  "later n t = t\<lparr>steady := (\<lambda>k. steady t (k + n))\<rparr>"

definition complete_response ::
  "externals \<Rightarrow> readings \<Rightarrow> nat \<Rightarrow> Exchange \<Rightarrow> string \<Rightarrow> TransferResponse \<Rightarrow> LanePool \<Rightarrow>
   pool_effect list \<times> LanePool" where
  "complete_response w t i x0 key r pool =
     (let x = x0\<lparr>x_sink := resp_sink r\<rparr> in
      case file_response_cookies w (wall t) x r pool of
        Inl e \<Rightarrow> ([Raised (HostError e)], pool)
      | Inr pool1 \<Rightarrow>
          (let (e, pool2) = judge w t key r (reportThrottleHeaders key (resp_headers r) pool1) in
           if status r = 429 then
             (let (f, pool3) = dispatch w (later 2 t) i x pool2 in (e @ f, pool3))
           else
             (case redirect_target w x r of
                None \<Rightarrow> (e @ deliver x r, pool2)
              | Some target \<Rightarrow>
                  (let (f, pool3) = dispatch w (later 2 t) i (redirected w r target x) pool2 in
                   (e @ f, pool3)))))"

definition complete_error ::
  "readings \<Rightarrow> Exchange \<Rightarrow> string \<Rightarrow> TransferError \<Rightarrow> LanePool \<Rightarrow> pool_effect list \<times> LanePool" where
  "complete_error t x key err pool =
     (let deliberate = (code err = CANCELLED \<or> code err = SHUTDOWN);
          answer = [Caller (Answer (x_callback x) (Inl err))] in
      case policyFor pool key of
        None \<Rightarrow> (answer, pool)
      | Some p \<Rightarrow>
          if deliberate then (answer, pool)
          else (let pool1 = set_policy key (Some (failed (steady t 0) p)) pool in
                (publish (steady t 1) key pool1 @ answer, pool1)))"

definition complete ::
  "externals \<Rightarrow> readings \<Rightarrow> nat \<Rightarrow> TransferResult \<Rightarrow> LanePool \<Rightarrow> pool_effect list \<times> LanePool" where
  "complete w t i result pool =
     (case map_of (exchanges pool) i of
        None \<Rightarrow> ([], pool)
      | Some (x, key) \<Rightarrow>
          (let pool1 = pool\<lparr>exchanges := AList.delete i (exchanges pool)\<rparr> in
           case result of
             Inl err \<Rightarrow> complete_error t x key err pool1
           | Inr r \<Rightarrow> complete_response w t i x key r pool1))"

section \<open>Control\<close>

fun on_lanes ::
  "(string \<Rightarrow> Lane \<Rightarrow> LanePolicy \<Rightarrow> lane_effect list \<times> Lane \<times> LanePolicy) \<Rightarrow> string list \<Rightarrow> LanePool \<Rightarrow>
   pool_effect list \<times> LanePool" where
  "on_lanes f [] pool = ([], pool)"
| "on_lanes f (k # ks) pool =
     (let (e, pool1) = on_lane k (f k) pool; (es, pool2) = on_lanes f ks pool1 in (e @ es, pool2))"

definition cancel_lane :: "nat \<Rightarrow> Lane \<Rightarrow> LanePolicy \<Rightarrow> lane_effect list \<times> Lane \<times> LanePolicy" where
  "cancel_lane c l p = (let (e, l') = cancel (Some c) l in (e, l', p))"

definition pool_cancel :: "nat option \<Rightarrow> LanePool \<Rightarrow> pool_effect list \<times> LanePool" where
  "pool_cancel token pool =
     (case token of
        None \<Rightarrow> ([], pool)
      | Some c \<Rightarrow>
          on_lanes (\<lambda>_. cancel_lane c) (map fst (lanes pool)) (pool\<lparr>flags := (flags pool)(c := True)\<rparr>))"

definition resetBackoff :: "readings \<Rightarrow> string \<Rightarrow> LanePool \<Rightarrow> pool_effect list \<times> LanePool" where
  "resetBackoff t key pool =
     (case map_of (policies pool) key of
        None \<Rightarrow> ([], pool)
      | Some None \<Rightarrow> ([Raised NullPolicy], pool)
      | Some (Some p) \<Rightarrow>
          (let (e, pool1) = on_lane key (wake (\<lambda>k. steady t (k + 1))) (set_policy key (Some (reset p)) pool) in
           (e @ publish (steady t 0) key pool1, pool1)))"

definition resetAllBackoff :: "(string \<Rightarrow> readings) \<Rightarrow> LanePool \<Rightarrow> pool_effect list \<times> LanePool" where
  "resetAllBackoff t pool =
     (if list_ex (\<lambda>(k, p). p = None) (policies pool) then ([Raised NullPolicy], pool)
      else
        (let keys = map fst (policies pool);
             (e, pool1) = on_lanes (\<lambda>k. wake (\<lambda>n. steady (t k) (n + 1))) (map fst (lanes pool))
               (pool\<lparr>policies := map (\<lambda>(k, p). (k, map_option reset p)) (policies pool)\<rparr>) in
         (e @ concat (map (\<lambda>k. publish (steady (t k) 0) k pool1) keys), pool1)))"

definition armSweep :: "LanePool \<Rightarrow> pool_effect list \<times> LanePool" where
  "armSweep pool =
     (if pool_stopped pool \<or> sweep_armed pool then ([], pool)
      else ([PostSweep (min (pool_keep_alive (pool_config pool) div 2) 1)], pool\<lparr>sweep_armed := True\<rparr>))"

definition retire :: "string \<times> Lane \<Rightarrow> pool_effect list" where
  "retire kl = map (LaneDid (fst kl)) (fst (shutdown (snd kl)))"

definition sweep :: "readings \<Rightarrow> LanePool \<Rightarrow> pool_effect list \<times> LanePool" where
  "sweep t pool =
     (let pool1 = pool\<lparr>sweep_armed := False\<rparr> in
      if pool_stopped pool1 then ([], pool1)
      else
        (let keys = map fst (lanes pool);
             idle = (\<lambda>kl. retirable (pool_keep_alive (pool_config pool) * ns_per_second) (steady t 0) (snd kl));
             retired = filter idle (lanes pool);
             pool2 = pool1\<lparr>lanes := filter (\<lambda>kl. \<not> idle kl) (lanes pool)\<rparr>;
             (e, pool3) = armSweep pool2 in
         (concat (map retire retired) @ concat (map (\<lambda>k. publish (steady t 1) k pool2) keys) @ e, pool3)))"

definition pool_shutdown :: "LanePool \<Rightarrow> pool_effect list \<times> LanePool" where
  "pool_shutdown pool =
     (if pool_stopped pool then ([], pool)
      else (concat (map retire (lanes pool)), pool\<lparr>pool_stopped := True, lanes := []\<rparr>))"

definition newPool :: "PoolConfig \<Rightarrow> (string \<Rightarrow> LaneSettings) option \<Rightarrow> CookieStore \<Rightarrow> pool_effect list \<times> LanePool" where
  "newPool config res store = armSweep
     \<lparr>pool_config = config, resolver = res, policies = [], lanes = [], pool_stopped = False,
      sweep_armed = False, exchanges = [], next_exchange = 0, overlays = (\<lambda>_. []), cookie_store = store,
      flags = (\<lambda>_. False)\<rparr>"

section \<open>Histories\<close>

datatype lane_call = TransferFinished | TimerFired int

datatype pool_event =
    Send TransferRequest nat
  | Complete nat TransferResult
  | CancelToken "nat option"
  | ResetBackoff string
  | ResetAll
  | SweepTimer
  | OnLane string lane_call
  | StopPool

fun lane_called :: "readings \<Rightarrow> lane_call \<Rightarrow> Lane \<Rightarrow> LanePolicy \<Rightarrow> lane_effect list \<times> Lane \<times> LanePolicy" where
  "lane_called t TransferFinished = onTransferFinished (steady t)"
| "lane_called t (TimerFired d) = wakeup (steady t) d"

text \<open>\<open>t k\<close> are the clock readings taken in the lane of key \<open>k\<close>, \<open>t []\<close> those of the pool.\<close>

fun pool_step ::
  "externals \<Rightarrow> (string \<Rightarrow> readings) \<Rightarrow> pool_event \<Rightarrow> LanePool \<Rightarrow> pool_effect list \<times> LanePool" where
  "pool_step w t (Send r c) pool = send w (t []) r c pool"
| "pool_step w t (Complete i result) pool = complete w (t []) i result pool"
| "pool_step w t (CancelToken tok) pool = pool_cancel tok pool"
| "pool_step w t (ResetBackoff key) pool = resetBackoff (t []) key pool"
| "pool_step w t ResetAll pool = resetAllBackoff t pool"
| "pool_step w t SweepTimer pool = sweep (t []) pool"
| "pool_step w t (OnLane key c) pool = on_lane key (lane_called (t key) c) pool"
| "pool_step w t StopPool pool = pool_shutdown pool"

fun pool_run ::
  "externals \<Rightarrow> (pool_event \<times> (string \<Rightarrow> readings)) list \<Rightarrow> LanePool \<Rightarrow> pool_effect list \<times> LanePool" where
  "pool_run w [] pool = ([], pool)"
| "pool_run w ((e, t) # es) pool =
     (let (f, pool1) = pool_step w t e pool; (fs, pool2) = pool_run w es pool1 in (f @ fs, pool2))"

text \<open>The answers to the callers, and the effects of the lanes, in a list of effects.\<close>

fun replies :: "pool_effect list \<Rightarrow> (nat \<times> TransferResult) list" where
  "replies [] = []"
| "replies (Caller (Answer c r) # es) = (c, r) # replies es"
| "replies (_ # es) = replies es"

fun lane_effects :: "pool_effect list \<Rightarrow> lane_effect list" where
  "lane_effects [] = []"
| "lane_effects (LaneDid k e # es) = e # lane_effects es"
| "lane_effects (_ # es) = lane_effects es"

fun raised :: "pool_effect list \<Rightarrow> bool" where
  "raised [] = False"
| "raised (Raised e # es) = True"
| "raised (_ # es) = raised es"

definition handed :: "pool_effect list \<Rightarrow> nat list" where
  "handed e = map pending_callback (starts (lane_effects e)) @ answered (lane_effects e)"

definition pool_queue :: "LanePool \<Rightarrow> Pending list" where
  "pool_queue pool = concat (map (\<lambda>kl. l_queue (snd kl)) (lanes pool))"

abbreviation waiting :: "LanePool \<Rightarrow> nat list" where
  "waiting pool \<equiv> map fst (exchanges pool)"

abbreviation waiting_callbacks :: "LanePool \<Rightarrow> nat list" where
  "waiting_callbacks pool \<equiv> map (\<lambda>e. x_callback (fst (snd e))) (exchanges pool)"

fun sends :: "(pool_event \<times> (string \<Rightarrow> readings)) list \<Rightarrow> (TransferRequest \<times> nat) list" where
  "sends [] = []"
| "sends ((Send r c, t) # es) = (r, c) # sends es"
| "sends (_ # es) = sends es"

lemma pool_effects_append [simp]:
  "replies (a @ b) = replies a @ replies b"
  "lane_effects (a @ b) = lane_effects a @ lane_effects b"
  "raised (a @ b) \<longleftrightarrow> raised a \<or> raised b"
proof -
  show "replies (a @ b) = replies a @ replies b" by (induction a rule: replies.induct) auto
  show "lane_effects (a @ b) = lane_effects a @ lane_effects b" by (induction a rule: lane_effects.induct) auto
  show "raised (a @ b) \<longleftrightarrow> raised a \<or> raised b" by (induction a rule: raised.induct) auto
qed

lemma pool_effects_lane [simp]:
  "replies (map (LaneDid k) e) = []" "lane_effects (map (LaneDid k) e) = e" "\<not> raised (map (LaneDid k) e)"
  by (induction e) auto

lemma handed_append: "mset (handed (a @ b)) = mset (handed a) + mset (handed b)"
  by (simp add: handed_def)

lemma pool_effects_publish [simp]:
  "replies (publish n k pool) = []" "lane_effects (publish n k pool) = []"
  by (auto simp: publish_def split: option.split)

lemma pool_effects_publish_all [simp]:
  "replies (concat (map (\<lambda>k. publish (f k) (g k) pool) ks)) = []"
  "lane_effects (concat (map (\<lambda>k. publish (f k) (g k) pool) ks)) = []"
  by (induction ks) auto

lemma pool_effects_refuse [simp]:
  "replies (refuse_exchange r x) = [(x_callback x, r)]" "lane_effects (refuse_exchange r x) = []"
  "\<not> raised (refuse_exchange r x)"
  by (auto simp: refuse_exchange_def split: option.split)

section \<open>Calls into lanes\<close>

text \<open>
  The contract of a call into a lane: the transfers queued before and the new ones are
  queued after, started or answered, and nothing else is.
\<close>

locale lane_operation =
  fixes f :: "Lane \<Rightarrow> LanePolicy \<Rightarrow> lane_effect list \<times> Lane \<times> LanePolicy"
    and new :: "Pending list"
  assumes conserves: "f l p = (e, l', p') \<Longrightarrow>
      mset (map pending_callback (l_queue l @ new))
        = mset (map pending_callback (l_queue l' @ starts e) @ answered e)"
    and only: "f l p = (e, l', p') \<Longrightarrow> set (l_queue l') \<union> set (starts e) \<subseteq> set (l_queue l) \<union> set new"
    and runs_on: "f l p = (e, l', p') \<Longrightarrow> stopped l' = stopped l"

lemma mset_update:
  "map_of al k = Some v \<Longrightarrow> mset (AList.update k v' al) + {#(k, v)#} = mset al + {#(k, v')#}"
  by (induction al) (auto split: if_splits)

lemma set_update_subset: "set (AList.update k v al) \<subseteq> insert (k, v) (set al)"
  by (induction al) auto

lemma mset_pool_queue: "mset (pool_queue pool) = (\<Sum>kl\<in>#mset (lanes pool). mset (l_queue (snd kl)))"
  by (simp add: pool_queue_def mset_concat comp_def flip: sum_mset_sum_list)

lemma mset_queue_callbacks:
  "mset (map pending_callback (pool_queue pool)) = image_mset pending_callback (mset (pool_queue pool))"
  by simp

lemma pool_queue_update:
  assumes "map_of (lanes pool) k = Some l"
  shows "mset (pool_queue (pool\<lparr>lanes := AList.update k l' (lanes pool)\<rparr>)) + mset (l_queue l)
    = mset (pool_queue pool) + mset (l_queue l')"
proof -
  have "(\<Sum>kl\<in>#(mset (AList.update k l' (lanes pool)) + {#(k, l)#}). mset (l_queue (snd kl)))
      = (\<Sum>kl\<in>#(mset (lanes pool) + {#(k, l')#}). mset (l_queue (snd kl)))"
    by (simp only: mset_update [OF assms])
  then show ?thesis by (simp add: mset_pool_queue ac_simps)
qed

lemma mset_cancel_queue:
  fixes f :: "'a \<Rightarrow> 'b"
  assumes "B + L = A + M" and "image_mset f L + N = image_mset f M + H"
  shows "image_mset f A + N = image_mset f B + H"
proof -
  have "image_mset f B + image_mset f L = image_mset f A + image_mset f M"
    using assms(1) by (metis image_mset_union)
  then have "(image_mset f A + N) + image_mset f M = (image_mset f B + H) + image_mset f M"
    using assms(2) by (metis union_assoc union_commute)
  then show ?thesis by simp
qed

lemma pool_queue_frame [simp]:
  "pool_queue (set_policy k p pool) = pool_queue pool" "exchanges (set_policy k p pool) = exchanges pool"
  "next_exchange (set_policy k p pool) = next_exchange pool" "lanes (set_policy k p pool) = lanes pool"
  "pool_config (set_policy k p pool) = pool_config pool" "resolver (set_policy k p pool) = resolver pool"
  "pool_stopped (set_policy k p pool) = pool_stopped pool" "flags (set_policy k p pool) = flags pool"
  "overlays (set_policy k p pool) = overlays pool" "cookie_store (set_policy k p pool) = cookie_store pool"
  by (simp_all add: set_policy_def pool_queue_def)

lemma policyFor_set [simp]:
  "policyFor (set_policy k p pool) k' = (if k = k' then p else policyFor pool k')"
  by (simp add: policyFor_def set_policy_def update_conv')

lemma policyFor_Some: "map_of (policies pool) k = Some p \<Longrightarrow> policyFor pool k = p"
  by (simp add: policyFor_def)

lemma policyFor_lanes [simp]: "policyFor (pool\<lparr>lanes := x\<rparr>) = policyFor pool"
  by (simp add: policyFor_def fun_eq_iff)

text \<open>Every lane of the pool runs and has its policy.\<close>

definition lanes_served :: "LanePool \<Rightarrow> bool" where
  "lanes_served pool \<longleftrightarrow> (\<forall>k. map_of (lanes pool) k \<noteq> None \<longrightarrow> policyFor pool k \<noteq> None)
     \<and> (\<forall>kl \<in> set (lanes pool). \<not> stopped (snd kl))"

lemma on_lane_frame:
  assumes "on_lane k f pool = (e, pool')"
  shows "exchanges pool' = exchanges pool" "next_exchange pool' = next_exchange pool" "replies e = []"
    "\<not> raised e"
  using assms by (auto simp: on_lane_def split: option.splits prod.splits if_splits)

context lane_operation
begin

lemma on_lane_served:
  assumes "on_lane k f pool = (e, pool')" and "lanes_served pool"
  shows "lanes_served pool'"
proof (cases "map_of (lanes pool) k \<noteq> None \<and> policyFor pool k \<noteq> None")
  case True
  then obtain l p where lp: "map_of (lanes pool) k = Some l" "policyFor pool k = Some p" by auto
  obtain g l' p' where f: "f l p = (g, l', p')" by (cases "f l p")
  have "\<not> stopped l'" using runs_on [OF f] map_of_SomeD [OF lp(1)] assms(2) by (auto simp: lanes_served_def)
  moreover have "pool' = set_policy k (Some p') (pool\<lparr>lanes := AList.update k l' (lanes pool)\<rparr>)"
    using assms(1) lp f by (auto simp: on_lane_def)
  ultimately show ?thesis
    using assms(2) set_update_subset [of k l' "lanes pool"] by (auto simp: lanes_served_def update_conv')
qed (use assms in \<open>auto simp: on_lane_def split: option.splits\<close>)

lemma on_lane_conserves:
  assumes "on_lane k f pool = (e, pool')" and "new = [] \<or> map_of (lanes pool) k \<noteq> None \<and> policyFor pool k \<noteq> None"
  shows "mset (map pending_callback (pool_queue pool @ new)) = mset (map pending_callback (pool_queue pool') @ handed e)"
proof (cases "map_of (lanes pool) k \<noteq> None \<and> policyFor pool k \<noteq> None")
  case True
  then obtain l p where lp: "map_of (lanes pool) k = Some l" "policyFor pool k = Some p" by auto
  obtain g l' p' where f: "f l p = (g, l', p')" by (cases "f l p")
  have r: "e = map (LaneDid k) g" "pool' = set_policy k (Some p') (pool\<lparr>lanes := AList.update k l' (lanes pool)\<rparr>)"
    using assms(1) lp f by (auto simp: on_lane_def)
  have "image_mset pending_callback (mset (pool_queue pool)) + image_mset pending_callback (mset new)
      = image_mset pending_callback (mset (pool_queue (pool\<lparr>lanes := AList.update k l' (lanes pool)\<rparr>))) + mset (handed e)"
    by (rule mset_cancel_queue [OF pool_queue_update [OF lp(1), of l']])
      (use conserves [OF f] r in \<open>simp add: handed_def ac_simps\<close>)
  then show ?thesis by (simp add: r(2))
next
  case False
  then show ?thesis using assms by (auto simp: on_lane_def handed_def split: option.splits)
qed

lemma on_lane_only:
  assumes "on_lane k f pool = (e, pool')"
  shows "set (pool_queue pool') \<union> set (starts (lane_effects e)) \<subseteq> set (pool_queue pool) \<union> set new"
proof (cases "map_of (lanes pool) k \<noteq> None \<and> policyFor pool k \<noteq> None")
  case True
  then obtain l p where lp: "map_of (lanes pool) k = Some l" "policyFor pool k = Some p" by auto
  obtain g l' p' where f: "f l p = (g, l', p')" by (cases "f l p")
  have "set (AList.update k l' (lanes pool)) \<subseteq> insert (k, l') (set (lanes pool))"
    by (rule set_update_subset)
  then have "set (pool_queue pool') \<subseteq> set (l_queue l') \<union> set (pool_queue pool)"
    using assms lp f by (fastforce simp: on_lane_def pool_queue_def)
  moreover have "set (l_queue l) \<subseteq> set (pool_queue pool)"
    using map_of_SomeD [OF lp(1)] by (force simp: pool_queue_def)
  moreover have "starts (lane_effects e) = starts g" using assms lp f by (auto simp: on_lane_def)
  ultimately show ?thesis using only [OF f] by auto
qed (use assms in \<open>auto simp: on_lane_def split: option.splits\<close>)

end


lemma pump_operation:
  assumes "pump c l0 p = (e, l', p')"
  shows "mset (map pending_callback (l_queue l0)) = mset (map pending_callback (l_queue l' @ starts e) @ answered e)"
    and "set (l_queue l') \<union> set (starts e) = set (l_queue l0)"
proof -
  have c: "starts e @ l_queue l' = l_queue l0" "answered e = []"
    using pumped_conserves [OF pump_pumped [OF assms]] by auto
  show "mset (map pending_callback (l_queue l0)) = mset (map pending_callback (l_queue l' @ starts e) @ answered e)"
    using c(2) by (simp flip: c(1))
  show "set (l_queue l') \<union> set (starts e) = set (l_queue l0)" by (auto simp flip: c(1))
qed

lemma pump_runs_on: "pump c l0 p = (e, l', p') \<Longrightarrow> stopped l' = stopped l0"
  using pumped_conserves [OF pump_pumped] by blast

lemma effects_refused [simp]: "starts (refuse r x) = []" "answered (refuse r x) = [pending_callback x]"
  by (rule effects_refuse)+

interpretation submitting: lane_operation "submit clock pending" "[pending]" for clock pending
proof
  fix l p e l' p'
  assume "submit clock pending l p = (e, l', p')"
  then show "mset (map pending_callback (l_queue l @ [pending]))
      = mset (map pending_callback (l_queue l' @ starts e) @ answered e)"
    and "set (l_queue l') \<union> set (starts e) \<subseteq> set (l_queue l) \<union> set [pending]" and "stopped l' = stopped l"
    using pump_runs_on [of "\<lambda>k. clock (k + 1)" "l\<lparr>last_enqueued := clock 0, l_queue := l_queue l @ [pending]\<rparr>" p e l' p']
      pump_operation [of "\<lambda>k. clock (k + 1)" "l\<lparr>last_enqueued := clock 0, l_queue := l_queue l @ [pending]\<rparr>" p e l' p']
    by (auto simp: submit_def split: if_splits)
qed

interpretation waking: lane_operation "wake clock" "[]" for clock
proof
  fix l p e l' p'
  assume "wake clock l p = (e, l', p')"
  then show "mset (map pending_callback (l_queue l @ []))
      = mset (map pending_callback (l_queue l' @ starts e) @ answered e)"
    and "set (l_queue l') \<union> set (starts e) \<subseteq> set (l_queue l) \<union> set []" and "stopped l' = stopped l"
    using pump_operation [of clock l p e l' p'] pump_runs_on [of clock l p e l' p'] by (auto simp: wake_def)
qed

interpretation calling: lane_operation "lane_called t c" "[]" for t c
proof
  fix l :: Lane and p e l' p'
  let ?l = "case c of TransferFinished \<Rightarrow> if l_in_flight l > 0 then l\<lparr>l_in_flight := l_in_flight l - 1\<rparr> else l
    | TimerFired d \<Rightarrow> l\<lparr>timers := remove1 d (timers l), gate := (gate l)\<lparr>armed := False\<rparr>\<rparr>"
  assume "lane_called t c l p = (e, l', p')"
  then show "mset (map pending_callback (l_queue l @ []))
      = mset (map pending_callback (l_queue l' @ starts e) @ answered e)"
    and "set (l_queue l') \<union> set (starts e) \<subseteq> set (l_queue l) \<union> set []" and "stopped l' = stopped l"
    using pump_operation [of "steady t" ?l p e l' p'] pump_runs_on [of "steady t" ?l p e l' p']
    by (cases c; auto simp: onTransferFinished_def wakeup_def Let_def split: if_splits)+
qed

interpretation cancelling: lane_operation "cancel_lane c" "[]" for c
proof
  fix l p e l' p'
  assume "cancel_lane c l p = (e, l', p')"
  then have e: "e = fst (cancel (Some c) l)" "l' = snd (cancel (Some c) l)"
    by (auto simp: cancel_lane_def cancel_def)
  show "set (l_queue l') \<union> set (starts e) \<subseteq> set (l_queue l) \<union> set []" "stopped l' = stopped l"
    using e by (auto simp: cancel_def)
  show "mset (map pending_callback (l_queue l @ []))
      = mset (map pending_callback (l_queue l' @ starts e) @ answered e)"
    using e image_mset_union [of pending_callback "filter_mset (\<lambda>x. cancellation (request x) = Some c) (mset (l_queue l))"
        "filter_mset (\<lambda>x. cancellation (request x) \<noteq> Some c) (mset (l_queue l))"]
      multiset_partition [of "mset (l_queue l)" "\<lambda>x. cancellation (request x) = Some c"]
    by (simp add: cancel_def ac_simps)
qed

text \<open>Calls into several lanes keep the contract of the single call.\<close>

locale lane_operations =
  fixes F :: "string \<Rightarrow> Lane \<Rightarrow> LanePolicy \<Rightarrow> lane_effect list \<times> Lane \<times> LanePolicy"
  assumes each: "lane_operation (F k) []"
begin

lemma on_lanes_frame:
  "on_lanes F ks pool = (e, pool') \<Longrightarrow>
     exchanges pool' = exchanges pool \<and> next_exchange pool' = next_exchange pool \<and> replies e = []
     \<and> \<not> raised e \<and> (lanes_served pool \<longrightarrow> lanes_served pool')"
proof (induction ks arbitrary: pool e)
  case (Cons k ks)
  obtain f pool1 where 1: "on_lane k (F k) pool = (f, pool1)" by (cases "on_lane k (F k) pool")
  obtain g where 2: "on_lanes F ks pool1 = (g, pool')" and e: "e = f @ g"
    using Cons.prems 1 by (auto split: prod.splits)
  show ?case using Cons.IH [OF 2] on_lane_frame [OF 1] lane_operation.on_lane_served [OF each 1] e by auto
qed simp

lemma on_lanes_conserves:
  "on_lanes F ks pool = (e, pool') \<Longrightarrow>
     mset (map pending_callback (pool_queue pool)) = mset (map pending_callback (pool_queue pool') @ handed e)
     \<and> set (pool_queue pool') \<union> set (starts (lane_effects e)) \<subseteq> set (pool_queue pool)"
proof (induction ks arbitrary: pool e)
  case (Cons k ks)
  obtain f pool1 where 1: "on_lane k (F k) pool = (f, pool1)" by (cases "on_lane k (F k) pool")
  obtain g where 2: "on_lanes F ks pool1 = (g, pool')" and e: "e = f @ g"
    using Cons.prems 1 by (auto split: prod.splits)
  show ?case
    using Cons.IH [OF 2] lane_operation.on_lane_conserves [OF each 1] lane_operation.on_lane_only [OF each 1] e
    by (auto simp: handed_append simp del: mset_map)
qed (simp add: handed_def)

end

interpretation cancel_all: lane_operations "\<lambda>_. cancel_lane c" for c
  by unfold_locales

interpretation wake_all: lane_operations "\<lambda>k. wake (clock k)" for clock
  by unfold_locales


section \<open>The ledger of exchanges\<close>

text \<open>
  A call that takes the callbacks \<open>S\<close> and completes the hops \<open>C\<close> accounts for every callback
  (answered or waiting) and for every hop (queued in a lane, or handed out by one).
\<close>

definition ledger :: "LanePool \<Rightarrow> nat list \<Rightarrow> nat list \<Rightarrow> pool_effect list \<Rightarrow> LanePool \<Rightarrow> bool" where
  "ledger pool S C e pool' \<longleftrightarrow>
     mset (waiting_callbacks pool @ S) = mset (map fst (replies e) @ waiting_callbacks pool')
     \<and> mset (waiting pool' @ map pending_callback (pool_queue pool) @ C)
       = mset (waiting pool @ map pending_callback (pool_queue pool') @ handed e)"

definition pool_inv :: "LanePool \<Rightarrow> bool" where
  "pool_inv pool \<longleftrightarrow> lanes_served pool \<and> distinct (waiting pool) \<and> (\<forall>i \<in> set (waiting pool). i < next_exchange pool)"

lemma ledger_arith:
  fixes a :: "'a multiset"
  assumes "a + s = r + b" and "b + s' = r' + c"
  shows "a + (s + s') = r + r' + c"
proof -
  have "a + (s + s') = (r + b) + s'" by (simp only: assms(1) flip: add.assoc)
  also have "\<dots> = r + r' + c" by (simp only: assms(2) add.assoc)
  finally show ?thesis .
qed

lemma ledger_arith2:
  fixes a :: "'a multiset"
  assumes "b + (p + s) = a + (q + h)" and "c + (q + s') = b + (r + h')"
  shows "c + (p + (s + s')) = a + (r + (h + h'))"
proof -
  have "(c + (p + (s + s'))) + (b + q) = (b + (p + s)) + (c + (q + s'))" by (simp add: ac_simps)
  also have "\<dots> = (a + (r + (h + h'))) + (b + q)" by (simp only: assms) (simp add: ac_simps)
  finally show ?thesis by (simp only: add_right_cancel)
qed

lemma ledger_trans:
  assumes "ledger pool S C e pool1" and "ledger pool1 S' C' e' pool2"
  shows "ledger pool (S @ S') (C @ C') (e @ e') pool2"
  using assms unfolding ledger_def mset_append handed_append pool_effects_append map_append
  by (blast intro: ledger_arith ledger_arith2)

lemma ledger_refl [simp]: "ledger pool [] [] [] pool"
  by (simp add: ledger_def handed_def)

lemma ledger_quiet:
  assumes "exchanges pool' = exchanges pool" and "replies e = []"
    and "mset (map pending_callback (pool_queue pool)) = mset (map pending_callback (pool_queue pool') @ handed e)"
  shows "ledger pool [] [] e pool'"
  using assms by (simp add: ledger_def del: mset_map)

lemma on_lane_exchanges: "exchanges (snd (on_lane k f pool)) = exchanges pool"
  by (cases "on_lane k f pool") (auto dest: on_lane_frame)

lemma laneFor_frame:
  assumes "laneFor w now key host pool = (r, pool1)"
  shows "exchanges pool1 = exchanges pool" "next_exchange pool1 = next_exchange pool"
    "pool_queue pool1 = pool_queue pool"
    "lanes_served pool \<Longrightarrow> lanes_served pool1"
    "lanes_served pool \<Longrightarrow> r = Inr (Some l) \<Longrightarrow> map_of (lanes pool1) key \<noteq> None \<and> policyFor pool1 key \<noteq> None"
    "r = Inr None \<Longrightarrow> pool1 = pool"
proof -
  have q: "pool_queue (p\<lparr>lanes := AList.update key (newLane k c n) (lanes pool)\<rparr>) = pool_queue pool"
    if "map_of (lanes pool) key = None" for p k c n
  proof -
    have "AList.update key v al = al @ [(key, v)]" if "map_of al key = None" for al :: "(string \<times> Lane) list" and v
      using that by (induction al) (auto split: if_splits)
    then show ?thesis using that by (simp add: pool_queue_def newLane_def)
  qed
  note defs = laneFor_def add_lane_def Let_def
  show "exchanges pool1 = exchanges pool" "next_exchange pool1 = next_exchange pool"
    "pool_queue pool1 = pool_queue pool"
    using assms by (auto simp: defs q split: if_splits option.splits sum.splits)
  have n: "\<not> stopped (newLane k c m)" for k c m by (simp add: newLane_def)
  show "lanes_served pool \<Longrightarrow> lanes_served pool1"
    using assms set_update_subset [of key "newLane key (lane_config (pool_config pool)) now" "lanes pool"] n
    by (fastforce simp: defs lanes_served_def update_conv' policyFor_Some split: if_splits option.splits sum.splits)
  show "lanes_served pool \<Longrightarrow> r = Inr (Some l) \<Longrightarrow> map_of (lanes pool1) key \<noteq> None \<and> policyFor pool1 key \<noteq> None"
    using assms
    by (auto simp: defs lanes_served_def update_conv' policyFor_Some split: if_splits option.splits sum.splits)
  show "r = Inr None \<Longrightarrow> pool1 = pool"
    using assms by (auto simp: defs split: if_splits option.splits sum.splits)
qed

lemma submit_hop_ledger:
  assumes "submit_hop w t i key x pool = (e, pool')" and "\<not> raised e"
    and "map_of (lanes pool) key \<noteq> None" and "policyFor pool key \<noteq> None"
  shows "ledger pool [x_callback x] [] e pool' \<and> waiting pool' = waiting pool @ [i]
    \<and> next_exchange pool' = next_exchange pool \<and> (lanes_served pool \<longrightarrow> lanes_served pool')"
proof -
  let ?pool1 = "pool\<lparr>exchanges := exchanges pool @ [(i, x\<lparr>x_sink := None\<rparr>, key)]\<rparr>"
  obtain headers where h: "hop_headers w (wall t) x pool = Inr headers"
    using assms by (cases "hop_headers w (wall t) x pool") (auto simp: submit_hop_def)
  let ?hop = "\<lparr>request = hop_request x headers, pending_callback = i\<rparr>"
  obtain f where f: "on_lane key (submit (\<lambda>k. steady t (k + 2)) ?hop) ?pool1 = (f, pool')"
      and e: "e = f @ publish (steady t 1) key pool'"
    using assms(1) h by (auto simp: submit_hop_def Let_def split: prod.splits)
  note F = on_lane_frame [OF f]
  have s: "lanes_served ?pool1 = lanes_served pool" "pool_queue ?pool1 = pool_queue pool"
    by (simp_all add: lanes_served_def policyFor_def pool_queue_def)
  have "mset (map pending_callback (pool_queue ?pool1 @ [?hop])) = mset (map pending_callback (pool_queue pool') @ handed f)"
    by (rule submitting.on_lane_conserves [OF f]) (use assms(3,4) in \<open>simp add: policyFor_def\<close>)
  then have "mset (map pending_callback (pool_queue pool)) + {#i#} = mset (map pending_callback (pool_queue pool') @ handed e)"
    using e s(2) by (simp add: handed_def)
  then show ?thesis
    using F s e submitting.on_lane_served [OF f] by (simp add: ledger_def ac_simps del: mset_map)
qed

lemma dispatch_cases:
  assumes "dispatch w t i x pool = (e, pool')" and "\<not> raised e"
  obtains err where "e = refuse_exchange (Inl err) x" "pool' = pool"
  | host l pool1 opts where "laneFor w (steady t 0) (keyFor pool host) host pool = (Inr (Some l), pool1)"
    "submit_hop w t i (keyFor pool host) (x\<lparr>x_options := opts\<rparr>) pool1 = (e, pool')"
    "opts = hop_options (pool_config pool) (settings_for pool host) (x_options x)"
proof -
  show thesis
  proof (cases "\<exists>err. e = refuse_exchange (Inl err) x \<and> pool' = pool")
    case False
    obtain parsed where p: "ada w (x_url x) = Some parsed"
      using assms False by (cases "ada w (x_url x)") (auto simp: dispatch_def failure_def split: if_splits)
    obtain host where h: "normalizeHost (u_hostname parsed) = Inr host"
      using assms False p by (cases "normalizeHost (u_hostname parsed)") (auto simp: dispatch_def failure_def split: if_splits)
    obtain r pool1 where l: "laneFor w (steady t 0) (keyFor pool host) host pool = (r, pool1)"
      by (cases "laneFor w (steady t 0) (keyFor pool host) host pool")
    show thesis
    proof (cases r)
      case (Inr a)
      then show ?thesis
        using assms False p h l laneFor_frame(6) [OF l] that(2) [of host]
        by (cases a) (auto simp: dispatch_def failure_def split: if_splits)
    qed (use assms False p h l in \<open>auto simp: dispatch_def failure_def split: if_splits\<close>)
  qed (use that(1) in blast)
qed

lemma dispatch_ledger:
  assumes "dispatch w t i x pool = (e, pool')" and "\<not> raised e" and "lanes_served pool"
  shows "ledger pool [x_callback x] [] e pool' \<and> (waiting pool' = waiting pool \<or> waiting pool' = waiting pool @ [i])
    \<and> next_exchange pool' = next_exchange pool \<and> lanes_served pool'"
proof -
  show ?thesis using assms(1,2)
  proof (cases rule: dispatch_cases)
    case (1 r)
    then show ?thesis using assms(3) by (simp add: ledger_def handed_def)
  next
    case (2 host l pool1 opts)
    note L = laneFor_frame [OF this(1)] and s = 2(2)
    have "ledger pool1 S C e pool' = ledger pool S C e pool'" for S C by (simp add: ledger_def L)
    then show ?thesis
      using submit_hop_ledger [OF s assms(2)] L(1,2,4,5) assms(3) by simp
  qed
qed


lemma file_cookies_frame:
  assumes "file_response_cookies w now x r pool = Inr pool1"
  shows "exchanges pool1 = exchanges pool" "next_exchange pool1 = next_exchange pool"
    "lanes pool1 = lanes pool" "policies pool1 = policies pool" "pool_config pool1 = pool_config pool"
    "resolver pool1 = resolver pool" "pool_stopped pool1 = pool_stopped pool" "flags pool1 = flags pool"
  using assms by (auto simp: file_response_cookies_def Let_def split: option.splits sum.splits prod.splits)

lemma report_frame [simp]:
  "exchanges (reportThrottleHeaders k h pool) = exchanges pool"
  "next_exchange (reportThrottleHeaders k h pool) = next_exchange pool"
  "lanes (reportThrottleHeaders k h pool) = lanes pool"
  "pool_config (reportThrottleHeaders k h pool) = pool_config pool"
  "policyFor (reportThrottleHeaders k h pool) k' = None \<longleftrightarrow> policyFor pool k' = None"
  by (auto simp: reportThrottleHeaders_def Let_def split: option.split)

lemma judge_frame:
  assumes "judge w t k r pool = (e, pool1)"
  shows "exchanges pool1 = exchanges pool" "next_exchange pool1 = next_exchange pool"
    "lanes pool1 = lanes pool" "policyFor pool1 k' = None \<longleftrightarrow> policyFor pool k' = None"
    "replies e = []" "lane_effects e = []"
  using assms by (auto simp: judge_def Let_def split: option.splits if_splits)

lemma ledger_step:
  assumes "exchanges pool1 = exchanges pool" and "lanes pool1 = lanes pool"
    and "replies e = []" and "lane_effects e = []"
  shows "ledger pool1 S C f pool' = ledger pool S C (e @ f) pool'"
  using assms by (simp add: ledger_def handed_def pool_queue_def)

lemma complete_response_ledger:
  assumes "complete_response w t i x key r pool = (e, pool')" and "\<not> raised e" and "lanes_served pool"
  shows "ledger pool [x_callback x] [] e pool' \<and> (waiting pool' = waiting pool \<or> waiting pool' = waiting pool @ [i])
    \<and> next_exchange pool' = next_exchange pool \<and> lanes_served pool'"
proof -
  let ?x = "x\<lparr>x_sink := resp_sink r\<rparr>"
  obtain pool1 where c: "file_response_cookies w (wall t) ?x r pool = Inr pool1"
    using assms(1,2) by (cases "file_response_cookies w (wall t) ?x r pool") (auto simp: complete_response_def)
  obtain f pool2 where j: "judge w t key r (reportThrottleHeaders key (resp_headers r) pool1) = (f, pool2)"
    by (cases "judge w t key r (reportThrottleHeaders key (resp_headers r) pool1)")
  note C = file_cookies_frame [OF c] and J = judge_frame [OF j]
  have same: "exchanges pool2 = exchanges pool" "lanes pool2 = lanes pool" "next_exchange pool2 = next_exchange pool"
    using C J by simp_all
  have served: "lanes_served pool2"
  proof -
    have "policyFor pool1 k = policyFor pool k" for k using C(4) by (simp add: policyFor_def)
    then have "policyFor pool2 k = None \<longleftrightarrow> policyFor pool k = None" for k
      using J(4) by simp
    then show ?thesis using assms(3) same(2) by (simp add: lanes_served_def del: not_None_eq)
  qed
  have dispatched: ?thesis
    if "dispatch w (later 2 t) i y pool2 = (g, pool')" "e = f @ g" "x_callback y = x_callback x" for y g
    using dispatch_ledger [OF that(1)] that(2,3) assms(2) served same J(5,6) ledger_step [OF same(1,2) J(5,6)] by simp
  have delivered: ?thesis if "e = f @ deliver ?x r" "pool' = pool2"
    using that served same J(5,6) by (simp add: ledger_def deliver_def handed_def pool_queue_def)
  have "x_callback (redirected w r tgt ?x) = x_callback x" for tgt
    by (simp add: redirected_def Let_def)
  then show ?thesis
    using assms(1) c j dispatched delivered
    by (auto simp: complete_response_def Let_def split: if_splits option.splits prod.splits)
qed

lemma complete_error_ledger:
  assumes "complete_error t x key err pool = (e, pool')" and "lanes_served pool"
  shows "ledger pool [x_callback x] [] e pool' \<and> waiting pool' = waiting pool
    \<and> next_exchange pool' = next_exchange pool \<and> lanes_served pool'"
  using assms
  by (auto simp: complete_error_def Let_def ledger_def handed_def pool_queue_def lanes_served_def
      split: option.splits if_splits)

lemma mset_delete_distinct:
  "distinct (map fst al) \<Longrightarrow> map_of al k = Some v \<Longrightarrow> mset al = add_mset (k, v) (mset (AList.delete k al))"
proof (induction al)
  case (Cons a al)
  show ?case
  proof (cases "fst a = k")
    case True
    moreover have "AList.delete k al = al"
      using Cons.prems True by (intro delete_id) auto
    ultimately show ?thesis using Cons.prems by (cases a) simp
  next
    case False
    then show ?thesis using Cons by (cases a) (auto split: if_splits)
  qed
qed simp

lemma complete_ledger:
  assumes "complete w t i result pool = (e, pool')" and "\<not> raised e" and "pool_inv pool"
  shows "ledger pool [] (if i \<in> set (waiting pool) then [i] else []) e pool' \<and> pool_inv pool'"
proof (cases "map_of (exchanges pool) i")
  case None
  then have "i \<notin> set (waiting pool)" by (force simp: map_of_eq_None_iff)
  then show ?thesis using assms None by (simp add: complete_def)
next
  case (Some a)
  obtain x key where a: "a = (x, key)" by (cases a)
  let ?pool1 = "pool\<lparr>exchanges := AList.delete i (exchanges pool)\<rparr>"
  have i: "i \<in> set (waiting pool)" using map_of_SomeD [OF Some] by force
  have d: "mset (exchanges pool) = add_mset (i, a) (mset (exchanges ?pool1))"
    using assms(3) Some by (simp add: mset_delete_distinct pool_inv_def)
  have w: "mset (waiting pool) = add_mset i (mset (waiting ?pool1))"
    "mset (waiting_callbacks pool) = add_mset (x_callback x) (mset (waiting_callbacks ?pool1))"
    using d a by simp_all
  have s: "lanes_served ?pool1" "pool_queue ?pool1 = pool_queue pool" "next_exchange ?pool1 = next_exchange pool"
    using assms(3) by (simp_all add: pool_inv_def lanes_served_def policyFor_def pool_queue_def)
  have L: "ledger ?pool1 [x_callback x] [] e pool' \<and> (waiting pool' = waiting ?pool1 \<or> waiting pool' = waiting ?pool1 @ [i])
      \<and> next_exchange pool' = next_exchange ?pool1 \<and> lanes_served pool'"
    using assms(1,2) Some a complete_error_ledger [OF _ s(1)] complete_response_ledger [OF _ _ s(1)]
    by (cases result) (auto simp: complete_def Let_def)
  have "i \<notin> set (waiting ?pool1) \<and> distinct (waiting ?pool1) \<and> (\<forall>j \<in> set (waiting ?pool1). j < next_exchange pool)"
    using assms(3) by (auto simp: pool_inv_def delete_keys distinct_removeAll)
  moreover have "i < next_exchange pool" using assms(3) i by (auto simp: pool_inv_def)
  ultimately have "pool_inv pool'" using L s(3) by (auto simp: pool_inv_def simp del: set_map)
  moreover have "ledger pool [] [i] e pool'"
    using L w s(2) unfolding ledger_def mset_append by (simp add: ac_simps del: mset_map)
  ultimately show ?thesis using i by simp
qed


lemma retire_effects:
  "starts (lane_effects (concat (map retire ls))) = []" "replies (concat (map retire ls)) = []"
  "\<not> raised (concat (map retire ls))"
proof -
  have one: "starts (fst (shutdown l)) = []" for l by (simp add: shutdown_def)
  show "starts (lane_effects (concat (map retire ls))) = []" "replies (concat (map retire ls)) = []"
    "\<not> raised (concat (map retire ls))"
    by (induction ls) (simp_all add: retire_def one)
qed

lemma retire_answers:
  assumes "\<forall>kl \<in> set ls. stopped (snd kl) \<longrightarrow> l_queue (snd kl) = []"
  shows "answered (lane_effects (concat (map retire ls)))
    = map pending_callback (concat (map (\<lambda>kl. l_queue (snd kl)) ls))"
  using assms by (induction ls) (simp_all add: retire_def shutdown_def)

lemma pool_inv_quiet:
  assumes "exchanges pool' = exchanges pool" and "next_exchange pool' = next_exchange pool"
    and "pool_inv pool" and "lanes_served pool'"
  shows "pool_inv pool'"
  using assms by (simp add: pool_inv_def)


lemma sweep_ledger:
  assumes "sweep t pool = (e, pool')" and "pool_inv pool"
  shows "ledger pool [] [] e pool' \<and> pool_inv pool'"
proof (cases "pool_stopped pool")
  case True
  then have "e = [] \<and> pool' = pool\<lparr>sweep_armed := False\<rparr>" using assms(1) by (simp add: sweep_def)
  then show ?thesis
    using assms(2) by (simp add: ledger_def handed_def pool_queue_def pool_inv_def lanes_served_def policyFor_def)
next
  case False
  let ?idle = "\<lambda>kl. retirable (pool_keep_alive (pool_config pool) * ns_per_second) (steady t 0) (snd kl)"
  let ?pool2 = "pool\<lparr>sweep_armed := False, lanes := filter (\<lambda>kl. \<not> ?idle kl) (lanes pool)\<rparr>"
  have r: "exchanges pool' = exchanges pool" "next_exchange pool' = next_exchange pool"
    "lanes pool' = filter (\<lambda>kl. \<not> ?idle kl) (lanes pool)" "policies pool' = policies pool"
    and e: "replies e = []" "lane_effects e = lane_effects (concat (map retire (filter ?idle (lanes pool))))"
    using assms(1) False retire_effects(2) [of "filter ?idle (lanes pool)"]
    by (auto simp: sweep_def armSweep_def Let_def comp_def split: if_splits)
  have q: "pool_queue pool' = pool_queue pool"
  proof -
    have "concat (map (\<lambda>kl. l_queue (snd kl)) (filter (\<lambda>kl. \<not> ?idle kl) ls)) = concat (map (\<lambda>kl. l_queue (snd kl)) ls)"
      for ls by (induction ls) (auto simp: retirable_def)
    then show ?thesis by (simp add: pool_queue_def r(3))
  qed
  have c: "concat (map (\<lambda>kl. l_queue (snd kl)) (filter ?idle (lanes pool))) = []"
    by (auto simp: retirable_def)
  have "\<forall>kl \<in> set (filter ?idle (lanes pool)). stopped (snd kl) \<longrightarrow> l_queue (snd kl) = []"
    by (auto simp: retirable_def)
  then have "answered (lane_effects e) = []"
    by (simp only: e(2) retire_answers c list.map)
  then have h: "handed e = []" using e(2) retire_effects(1) by (simp add: handed_def)
  have "lanes_served pool'"
    using assms(2) r(3,4) by (auto simp: pool_inv_def lanes_served_def policyFor_def map_of_eq_None_iff)
  then show ?thesis
    using ledger_quiet [OF r(1) e(1)] pool_inv_quiet [OF r(1,2) assms(2)] q h by simp
qed

lemma shutdown_ledger:
  assumes "pool_shutdown pool = (e, pool')" and "pool_inv pool"
  shows "ledger pool [] [] e pool' \<and> pool_inv pool'"
proof (cases "pool_stopped pool")
  case False
  have r: "e = concat (map retire (lanes pool))" "pool' = pool\<lparr>pool_stopped := True, lanes := []\<rparr>"
    using assms(1) False by (auto simp: pool_shutdown_def)
  have "handed e = map pending_callback (pool_queue pool)"
    using retire_effects(1) retire_answers [of "lanes pool"] assms(2)
    by (auto simp: r handed_def pool_queue_def pool_inv_def lanes_served_def)
  then have "ledger pool [] [] e pool'"
    using retire_effects(2) by (simp add: ledger_def r pool_queue_def)
  then show ?thesis using assms(2) r(2) by (simp add: pool_inv_def lanes_served_def)
qed (use assms in \<open>simp add: pool_shutdown_def\<close>)

lemma resetAll_ledger:
  assumes "resetAllBackoff t pool = (e, pool')" and "\<not> raised e" and "pool_inv pool"
  shows "ledger pool [] [] e pool' \<and> pool_inv pool'"
proof -
  let ?pool0 = "pool\<lparr>policies := map (\<lambda>(k, p). (k, map_option reset p)) (policies pool)\<rparr>"
  obtain f where f: "on_lanes (\<lambda>k. wake (\<lambda>n. steady (t k) (n + 1))) (map fst (lanes pool)) ?pool0 = (f, pool')"
    and e: "replies e = replies f" "lane_effects e = lane_effects f"
    using assms(1,2) by (auto simp: resetAllBackoff_def Let_def comp_def split: if_splits prod.splits)
  have m: "map_of (map (\<lambda>(k, p). (k, map_option reset p)) al) k = map_option (map_option reset) (map_of al k)"
    for al :: "(string \<times> LanePolicy option) list" and k by (induction al) auto
  have "policyFor ?pool0 k = map_option reset (policyFor pool k)" for k
    by (auto simp: policyFor_def m split: option.split)
  then have s: "lanes_served ?pool0" "pool_queue ?pool0 = pool_queue pool"
    using assms(3) by (auto simp: pool_inv_def lanes_served_def pool_queue_def)
  note F = wake_all.on_lanes_frame [OF f] and C = wake_all.on_lanes_conserves [OF f]
  have "ledger pool [] [] e pool'"
    by (rule ledger_quiet) (use F C s(2) e in \<open>simp_all add: handed_def\<close>)
  then show ?thesis using F s(1) assms(3) by (auto simp: pool_inv_def)
qed

lemma resetBackoff_ledger:
  assumes "resetBackoff t key pool = (e, pool')" and "pool_inv pool"
  shows "ledger pool [] [] e pool' \<and> pool_inv pool'"
proof (cases "\<exists>p. map_of (policies pool) key = Some (Some p)")
  case True
  then obtain p where p: "map_of (policies pool) key = Some (Some p)" by blast
  let ?pool0 = "set_policy key (Some (reset p)) pool"
  obtain f where f: "on_lane key (wake (\<lambda>k. steady t (k + 1))) ?pool0 = (f, pool')"
    and e: "replies e = replies f" "lane_effects e = lane_effects f"
    using assms(1) p by (auto simp: resetBackoff_def Let_def split: prod.splits)
  have s: "lanes_served ?pool0" using assms(2) by (auto simp: pool_inv_def lanes_served_def)
  note F = on_lane_frame [OF f] and C = waking.on_lane_conserves [OF f]
  have "ledger pool [] [] e pool'"
    by (rule ledger_quiet) (use F C e in \<open>simp_all add: handed_def\<close>)
  then show ?thesis using F waking.on_lane_served [OF f s] assms(2) by (auto simp: pool_inv_def)
qed (use assms in \<open>auto simp: resetBackoff_def ledger_def handed_def split: option.splits\<close>)

lemma cancel_ledger:
  assumes "pool_cancel token pool = (e, pool')" and "pool_inv pool"
  shows "ledger pool [] [] e pool' \<and> pool_inv pool'"
proof (cases token)
  case (Some c)
  let ?pool0 = "pool\<lparr>flags := (flags pool)(c := True)\<rparr>"
  have f: "on_lanes (\<lambda>_. cancel_lane c) (map fst (lanes pool)) ?pool0 = (e, pool')"
    using assms(1) Some by (simp add: pool_cancel_def)
  have s: "lanes_served ?pool0" "pool_queue ?pool0 = pool_queue pool"
    using assms(2) by (simp_all add: pool_inv_def lanes_served_def policyFor_def pool_queue_def)
  note F = cancel_all.on_lanes_frame [OF f] and C = cancel_all.on_lanes_conserves [OF f]
  have "ledger pool [] [] e pool'"
    by (rule ledger_quiet) (use F C s(2) in simp_all)
  then show ?thesis using F s(1) assms(2) by (auto simp: pool_inv_def)
qed (use assms in \<open>simp add: pool_cancel_def\<close>)

fun new_callbacks :: "pool_event \<Rightarrow> nat list" where
  "new_callbacks (Send r c) = [c]"
| "new_callbacks _ = []"

fun completed :: "pool_event \<Rightarrow> LanePool \<Rightarrow> nat list" where
  "completed (Complete i r) pool = (if i \<in> set (waiting pool) then [i] else [])"
| "completed _ pool = []"

lemma pool_step_ledger:
  assumes "pool_step w t ev pool = (e, pool')" and "\<not> raised e" and "pool_inv pool"
  shows "ledger pool (new_callbacks ev) (completed ev pool) e pool' \<and> pool_inv pool'"
proof (cases ev)
  case (Send r c)
  let ?pool0 = "pool\<lparr>next_exchange := next_exchange pool + 1\<rparr>"
  have d: "dispatch w (t []) (next_exchange pool) (exchange_of r c) ?pool0 = (e, pool')"
    using assms(1) Send by (simp add: send_def)
  have "lanes_served ?pool0" using assms(3) by (simp add: pool_inv_def lanes_served_def policyFor_def)
  note D = dispatch_ledger [OF d assms(2) this]
  have "ledger ?pool0 S C e pool' = ledger pool S C e pool'" for S C
    by (simp add: ledger_def pool_queue_def)
  moreover have "pool_inv pool'"
    using D assms(3) unfolding pool_inv_def by (auto simp del: set_map simp: less_Suc_eq)
  ultimately show ?thesis using D Send by (simp add: exchange_of_def)
next
  case (OnLane key c)
  have f: "on_lane key (lane_called (t key) c) pool = (e, pool')" using assms(1) OnLane by simp
  note F = on_lane_frame [OF f] and C = calling.on_lane_conserves [OF f]
  have "ledger pool [] [] e pool'" by (rule ledger_quiet) (use F C in simp_all)
  then show ?thesis
    using OnLane F calling.on_lane_served [OF f] assms(3) by (auto simp: pool_inv_def)
qed (use assms complete_ledger cancel_ledger resetBackoff_ledger resetAll_ledger sweep_ledger shutdown_ledger
    in \<open>auto split: if_splits\<close>)


section \<open>What an exchange keeps of its request\<close>

definition origin :: "externals \<Rightarrow> string \<Rightarrow> (string \<times> string) option" where
  "origin w url = map_option (\<lambda>u. (u_protocol u, u_host u)) (ada w url)"

lemma sameOrigin_origin: "sameOrigin w a b \<longleftrightarrow> origin w a = origin w b \<and> origin w a \<noteq> None"
  by (auto simp: sameOrigin_def origin_def split: option.split)

text \<open>
  The exchange \<open>x\<close> of the request \<open>r\<close> sent with callback \<open>c\<close>: it carries sensitive fields only
  to the origin of the request, and has followed at most the permitted redirects.
\<close>

definition follows :: "externals \<Rightarrow> TransferRequest \<times> nat \<Rightarrow> Exchange \<Rightarrow> bool" where
  "follows w rc x \<longleftrightarrow>
     x_callback x = snd rc \<and> x_cookies x = req_cookies (fst rc)
     \<and> max_redirects (x_options x) = max_redirects (options (fst rc))
     \<and> ((\<exists>e \<in> set (x_headers x). isSensitiveHeader (fst e)) \<longrightarrow> origin w (x_url x) = origin w (req_url (fst rc)))
     \<and> x_redirects x = int (length (x_hops x))
     \<and> x_redirects x \<le> max 0 (max_redirects (options (fst rc)))
     \<and> (\<forall>h \<in> set (x_hops x). isRedirect (hop_status h))"

definition hop_safe :: "externals \<Rightarrow> (TransferRequest \<times> nat) list \<Rightarrow> Pending \<Rightarrow> bool" where
  "hop_safe w rs p \<longleftrightarrow> pending_callback p < length rs
     \<and> (\<forall>e \<in> set (req_headers (request p)). isSensitiveHeader (fst e) \<longrightarrow>
          origin w (req_url (request p)) = origin w (req_url (fst (rs ! pending_callback p)))
          \<or> lowered (fst e) = ''cookie'' \<and> req_cookies (fst (rs ! pending_callback p)) \<noteq> None)"

definition reply_bounded :: "(TransferRequest \<times> nat) list \<Rightarrow> nat \<times> TransferResult \<Rightarrow> bool" where
  "reply_bounded rs cr \<longleftrightarrow> (\<forall>resp. snd cr = Inr resp \<longrightarrow>
     (\<exists>r. (r, fst cr) \<in> set rs \<and> int (length (hops resp)) \<le> max 0 (max_redirects (options r))
        \<and> (\<forall>h \<in> set (hops resp). isRedirect (hop_status h))))"

definition traced :: "externals \<Rightarrow> (TransferRequest \<times> nat) list \<Rightarrow> LanePool \<Rightarrow> bool" where
  "traced w rs pool \<longleftrightarrow> next_exchange pool = length rs
     \<and> (\<forall>(i, x, key) \<in> set (exchanges pool). i < length rs \<and> follows w (rs ! i) x)
     \<and> (\<forall>p \<in> set (pool_queue pool). hop_safe w rs p)"

text \<open>The effects of a call: started hops are safe and replies are bounded.\<close>

definition effects_safe :: "externals \<Rightarrow> (TransferRequest \<times> nat) list \<Rightarrow> pool_effect list \<Rightarrow> bool" where
  "effects_safe w rs e \<longleftrightarrow> (\<forall>p \<in> set (starts (lane_effects e)). hop_safe w rs p)
     \<and> (\<forall>cr \<in> set (replies e). reply_bounded rs cr)"

text \<open>
  libcurl follows no redirect itself, so the effective URL of an answer is on the origin
  that the hop was sent to.
\<close>

fun answers_in_place :: "externals \<Rightarrow> pool_event \<Rightarrow> LanePool \<Rightarrow> bool" where
  "answers_in_place w (Complete i (Inr r)) pool =
     (case map_of (exchanges pool) i of
        None \<Rightarrow> True | Some (x, key) \<Rightarrow> origin w (resp_url r) = origin w (x_url x))"
| "answers_in_place w _ pool = True"

lemma set_erase: "set (headers_erase n h) = {e \<in> set h. \<not> headerNamesEqual (fst e) n}"
  by (auto simp: headers_erase_def)

lemma set_strip: "set (strip_sensitive h) = {e \<in> set h. \<not> isSensitiveHeader (fst e)}"
proof -
  have "set (fold headers_erase ns h) = {e \<in> set h. \<forall>n \<in> set ns. \<not> headerNamesEqual (fst e) n}" for ns h
    by (induction ns arbitrary: h) (auto simp: set_erase)
  then show ?thesis
    by (auto simp: strip_sensitive_def headerNamesEqual_def isSensitiveHeader_def) 
qed

lemma hop_headers_sensitive:
  assumes "hop_headers w now x pool = Inr hs" and "e \<in> set hs"
  shows "e \<in> set (x_headers x) \<or> x_cookies x \<noteq> None \<and> lowered (fst e) = ''cookie''"
proof -
  have "lowered ''Cookie'' = ''cookie''" by code_simp
  then show ?thesis
    using assms
    by (auto simp: hop_headers_def applyRequestCookies_def headers_set_def headers_add_def headers_erase_def Let_def
        split: option.splits sum.splits if_splits)
qed

lemma follows_redirect:
  assumes "follows w rc x" and "redirect_target w x r = Some target" and "origin w (resp_url r) = origin w (x_url x)"
  shows "follows w rc (redirected w r target x)"
proof -
  let ?y = "redirected w r target x"
  have t: "isRedirect (status r)" "x_redirects x < max_redirects (x_options x)"
    using assms(2) by (auto simp: redirect_target_def Let_def split: if_splits)
  have fields: "x_callback ?y = x_callback x" "x_cookies ?y = x_cookies x" "x_options ?y = x_options x" "x_url ?y = target"
    "x_redirects ?y = x_redirects x + 1" "x_hops ?y = x_hops x @ [\<lparr>hop_url = resp_url r, hop_status = status r\<rparr>]"
    by (simp_all add: redirected_def Let_def)
  have sub: "set (x_headers ?y) \<subseteq> set (x_headers x)"
    by (auto simp: redirected_def Let_def set_erase set_strip)
  have "origin w target = origin w (req_url (fst rc))" if "\<exists>e \<in> set (x_headers ?y). isSensitiveHeader (fst e)"
  proof (cases "sameOrigin w (resp_url r) target")
    case True
    then show ?thesis using that sub assms(1,3) by (auto simp: sameOrigin_origin follows_def)
  next
    case False
    then show ?thesis using that by (auto simp: redirected_def Let_def set_strip)
  qed
  then show ?thesis using assms(1) t unfolding follows_def by (auto simp: fields)
qed

lemma follows_fields:
  "follows w rc (x\<lparr>x_sink := s\<rparr>) = follows w rc x"
  "max_redirects opts = max_redirects (x_options x) \<Longrightarrow> follows w rc (x\<lparr>x_options := opts\<rparr>) = follows w rc x"
  by (simp_all add: follows_def)

lemma follows_new: "follows w (r, c) (exchange_of r c)"
  by (simp add: follows_def exchange_of_def)

lemma dispatch_traced:
  assumes "dispatch w t i x pool = (e, pool')" and "\<not> raised e" and "traced w rs pool"
    and "i < length rs" and "follows w (rs ! i) x"
  shows "traced w rs pool' \<and> effects_safe w rs e"
  using assms(1,2)
proof (cases rule: dispatch_cases)
  case (1 r)
  then show ?thesis using assms(3) by (simp add: effects_safe_def reply_bounded_def)
next
  case (2 host l pool1 opts)
  let ?x = "x\<lparr>x_options := opts\<rparr>"
  let ?key = "keyFor pool host"
  let ?pool1 = "pool1\<lparr>exchanges := exchanges pool1 @ [(i, ?x\<lparr>x_sink := None\<rparr>, ?key)]\<rparr>"
  note L = laneFor_frame [OF 2(1)]
  have fx: "follows w (rs ! i) ?x" "follows w (rs ! i) (?x\<lparr>x_sink := None\<rparr>)"
    using assms(5) 2(3) by (simp_all add: follows_fields hop_options_def)
  obtain headers where h: "hop_headers w (wall t) ?x pool1 = Inr headers"
    using 2(2) assms(2) by (cases "hop_headers w (wall t) ?x pool1") (auto simp: submit_hop_def)
  let ?hop = "\<lparr>request = hop_request ?x headers, pending_callback = i\<rparr>"
  obtain f where f: "on_lane ?key (submit (\<lambda>k. steady t (k + 2)) ?hop) ?pool1 = (f, pool')"
    and e: "e = f @ publish (steady t 1) ?key pool'"
    using 2(2) h by (auto simp: submit_hop_def Let_def split: prod.splits)
  have safe: "hop_safe w rs ?hop"
    using hop_headers_sensitive [OF h] fx(1) assms(4) by (fastforce simp: hop_safe_def hop_request_def follows_def)
  note F = on_lane_frame [OF f] and O = submitting.on_lane_only [OF f]
  have "pool_queue ?pool1 = pool_queue pool" using L(3) by (simp add: pool_queue_def)
  then have "\<forall>p \<in> set (pool_queue pool') \<union> set (starts (lane_effects f)). hop_safe w rs p"
    using O safe assms(3) by (auto simp: traced_def)
  then show ?thesis
    using F L assms(3,4) fx(2) e by (auto simp: traced_def effects_safe_def)
qed


lemma complete_response_traced:
  assumes "complete_response w t i x key r pool = (e, pool')" and "\<not> raised e" and "traced w rs pool"
    and "i < length rs" and "follows w (rs ! i) x" and "origin w (resp_url r) = origin w (x_url x)"
  shows "traced w rs pool' \<and> effects_safe w rs e"
proof -
  let ?x = "x\<lparr>x_sink := resp_sink r\<rparr>"
  obtain pool1 where c: "file_response_cookies w (wall t) ?x r pool = Inr pool1"
    using assms(1,2) by (cases "file_response_cookies w (wall t) ?x r pool") (auto simp: complete_response_def)
  obtain f pool2 where j: "judge w t key r (reportThrottleHeaders key (resp_headers r) pool1) = (f, pool2)"
    by (cases "judge w t key r (reportThrottleHeaders key (resp_headers r) pool1)")
  note C = file_cookies_frame [OF c] and J = judge_frame [OF j]
  have tr: "traced w rs pool2"
    using assms(3) C J by (simp add: traced_def pool_queue_def)
  have x: "follows w (rs ! i) ?x" using assms(5) by (simp add: follows_fields)
  have dispatched: ?thesis
    if "dispatch w (later 2 t) i y pool2 = (g, pool')" "e = f @ g" "follows w (rs ! i) y" for y g
    using dispatch_traced [OF that(1) _ tr assms(4) that(3)] that(2) assms(2) J(5,6)
    by (auto simp: effects_safe_def)
  have delivered: ?thesis if "e = f @ deliver ?x r" "pool' = pool2"
  proof -
    have "(fst (rs ! i), snd (rs ! i)) \<in> set rs" using assms(4) by simp
    then have "reply_bounded rs (x_callback x, Inr (r\<lparr>resp_sink := None, hops := x_hops x\<rparr>))"
      using assms(5) unfolding reply_bounded_def follows_def
      by (intro allI impI exI [of _ "fst (rs ! i)"]) auto
    then show ?thesis using that tr J(5,6) by (simp add: effects_safe_def deliver_def)
  qed
  show ?thesis
  proof (cases "status r = 429")
    case True
    then show ?thesis
      using assms(1) c j dispatched [OF _ _ x] by (auto simp: complete_response_def Let_def split: prod.splits)
  next
    case False
    then show ?thesis
      using assms(1,6) c j delivered dispatched [OF _ _ follows_redirect [OF x]]
      by (cases "redirect_target w ?x r") (auto simp: complete_response_def Let_def split: prod.splits)
  qed
qed

lemma set_delete_subset: "set (AList.delete k al) \<subseteq> set al"
  by (induction al) auto

lemma complete_traced:
  assumes "complete w t i result pool = (e, pool')" and "\<not> raised e" and "traced w rs pool"
    and "answers_in_place w (Complete i result) pool"
  shows "traced w rs pool' \<and> effects_safe w rs e"
proof (cases "map_of (exchanges pool) i")
  case None
  then show ?thesis using assms by (simp add: complete_def effects_safe_def)
next
  case (Some a)
  obtain x key where a: "a = (x, key)" by (cases a)
  let ?pool1 = "pool\<lparr>exchanges := AList.delete i (exchanges pool)\<rparr>"
  have i: "i < length rs" "follows w (rs ! i) x"
    using map_of_SomeD [OF Some] assms(3) a by (auto simp: traced_def)
  have tr: "traced w rs ?pool1"
    using assms(3) set_delete_subset [of i "exchanges pool"] by (auto simp: traced_def pool_queue_def)
  show ?thesis
  proof (cases result)
    case (Inl err)
    then have "complete_error t x key err ?pool1 = (e, pool')" using assms(1) Some a by (simp add: complete_def)
    then show ?thesis
      using tr by (auto simp: complete_error_def traced_def effects_safe_def reply_bounded_def pool_queue_def Let_def
          split: option.splits if_splits)
  next
    case (Inr r)
    then show ?thesis
      using complete_response_traced [OF _ assms(2) tr i] assms(1,4) Some a by (simp add: complete_def)
  qed
qed

lemma traced_quiet:
  assumes "traced w rs pool" and "exchanges pool' = exchanges pool" and "next_exchange pool' = next_exchange pool"
    and "replies e = []" and "set (pool_queue pool') \<union> set (starts (lane_effects e)) \<subseteq> set (pool_queue pool)"
  shows "traced w rs pool' \<and> effects_safe w rs e"
  using assms by (auto simp: traced_def effects_safe_def)

lemma sweep_quiet:
  assumes "sweep t pool = (e, pool')"
  shows "exchanges pool' = exchanges pool \<and> next_exchange pool' = next_exchange pool \<and> replies e = []
    \<and> set (pool_queue pool') \<union> set (starts (lane_effects e)) \<subseteq> set (pool_queue pool)"
  using assms
  by (auto simp: sweep_def armSweep_def pool_queue_def Let_def comp_def retire_effects split: if_splits)

lemma control_quiet:
  assumes "pool_step w t ev pool = (e, pool')" and "\<not> raised e"
    and "\<nexists>r c. ev = Send r c" and "\<nexists>i r. ev = Complete i r"
  shows "exchanges pool' = exchanges pool \<and> next_exchange pool' = next_exchange pool \<and> replies e = []
    \<and> set (pool_queue pool') \<union> set (starts (lane_effects e)) \<subseteq> set (pool_queue pool)"
proof (cases ev)
  case (CancelToken token)
  have q: "pool_queue (pool\<lparr>flags := z\<rparr>) = pool_queue pool" for z by (simp add: pool_queue_def)
  show ?thesis
  proof (cases token)
    case (Some c)
    then have f: "on_lanes (\<lambda>_. cancel_lane c) (map fst (lanes pool)) (pool\<lparr>flags := (flags pool)(c := True)\<rparr>) = (e, pool')"
      using assms(1) CancelToken by (simp add: pool_cancel_def)
    show ?thesis using cancel_all.on_lanes_frame [OF f] cancel_all.on_lanes_conserves [OF f] q by auto
  qed (use assms(1) CancelToken in \<open>auto simp: pool_cancel_def\<close>)
next
  case (ResetBackoff key)
  show ?thesis
  proof (cases "\<exists>p. map_of (policies pool) key = Some (Some p)")
    case True
    then obtain p where p: "map_of (policies pool) key = Some (Some p)" by blast
    obtain f where f: "on_lane key (wake (\<lambda>k. steady (t []) (k + 1))) (set_policy key (Some (reset p)) pool) = (f, pool')"
      and e: "replies e = replies f" "lane_effects e = lane_effects f"
      using assms(1) ResetBackoff p by (auto simp: resetBackoff_def Let_def split: prod.splits)
    show ?thesis using on_lane_frame [OF f] waking.on_lane_only [OF f] e by simp
  qed (use assms ResetBackoff in \<open>auto simp: resetBackoff_def split: option.splits\<close>)
next
  case ResetAll
  let ?pool0 = "pool\<lparr>policies := map (\<lambda>(k, p). (k, map_option reset p)) (policies pool)\<rparr>"
  obtain f where f: "on_lanes (\<lambda>k. wake (\<lambda>n. steady (t k) (n + 1))) (map fst (lanes pool)) ?pool0 = (f, pool')"
    and e: "replies e = replies f" "lane_effects e = lane_effects f"
    using assms(1,2) ResetAll by (auto simp: resetAllBackoff_def Let_def comp_def split: if_splits prod.splits)
  have "pool_queue ?pool0 = pool_queue pool" by (simp add: pool_queue_def)
  then show ?thesis using wake_all.on_lanes_frame [OF f] wake_all.on_lanes_conserves [OF f] e by auto
next
  case (OnLane key c)
  have f: "on_lane key (lane_called (t key) c) pool = (e, pool')" using assms(1) OnLane by simp
  show ?thesis using on_lane_frame [OF f] calling.on_lane_only [OF f] by simp
next
  case StopPool
  then show ?thesis
    using assms(1) retire_effects by (auto simp: pool_shutdown_def pool_queue_def split: if_splits)
qed (use assms sweep_quiet in auto)


section \<open>Whole histories\<close>

fun hops_completed :: "externals \<Rightarrow> (pool_event \<times> (string \<Rightarrow> readings)) list \<Rightarrow> LanePool \<Rightarrow> nat list" where
  "hops_completed w [] pool = []"
| "hops_completed w ((e, t) # es) pool = completed e pool @ hops_completed w es (snd (pool_step w t e pool))"

fun all_in_place :: "externals \<Rightarrow> (pool_event \<times> (string \<Rightarrow> readings)) list \<Rightarrow> LanePool \<Rightarrow> bool" where
  "all_in_place w [] pool = True"
| "all_in_place w ((e, t) # es) pool \<longleftrightarrow>
     answers_in_place w e pool \<and> all_in_place w es (snd (pool_step w t e pool))"

lemma sends_Cons: "map snd (sends ((e, t) # es)) = new_callbacks e @ map snd (sends es)"
  by (cases e) auto

lemma pool_run_Cons:
  assumes "pool_run w ((e, t) # es) pool = (f, pool')"
  obtains f1 pool1 f2 where "pool_step w t e pool = (f1, pool1)" "pool_run w es pool1 = (f2, pool')" "f = f1 @ f2"
  using assms by (auto split: prod.splits)

lemma pool_run_ledger:
  "pool_run w es pool = (f, pool') \<Longrightarrow> \<not> raised f \<Longrightarrow> pool_inv pool \<Longrightarrow>
     ledger pool (map snd (sends es)) (hops_completed w es pool) f pool' \<and> pool_inv pool'"
proof (induction es arbitrary: pool f)
  case (Cons et es)
  obtain e t where et: "et = (e, t)" by (cases et)
  obtain f1 pool1 f2 where s: "pool_step w t e pool = (f1, pool1)" "pool_run w es pool1 = (f2, pool')" "f = f1 @ f2"
    using pool_run_Cons Cons.prems(1) et by blast
  then have r: "\<not> raised f1" "\<not> raised f2" using Cons.prems(2) by auto
  note S = pool_step_ledger [OF s(1) r(1) Cons.prems(3)]
  note R = Cons.IH [OF s(2) r(2) conjunct2 [OF S]]
  have "ledger pool (new_callbacks e @ map snd (sends es)) (completed e pool @ hops_completed w es pool1) (f1 @ f2) pool'"
    by (rule ledger_trans [OF conjunct1 [OF S] conjunct1 [OF R]])
  moreover have "snd (pool_step w t e pool) = pool1" using s(1) by simp
  ultimately show ?case
    using R unfolding et sends_Cons hops_completed.simps s(3) by simp
qed simp

lemma hop_safe_mono: "hop_safe w rs p \<Longrightarrow> hop_safe w (rs @ rs') p"
  by (simp add: hop_safe_def nth_append)

lemma effects_safe_mono: "effects_safe w rs e \<Longrightarrow> effects_safe w (rs @ rs') e"
  by (fastforce simp: effects_safe_def reply_bounded_def intro: hop_safe_mono)

lemma pool_step_traced:
  assumes "pool_step w t ev pool = (e, pool')" and "\<not> raised e" and "traced w rs pool"
    and "answers_in_place w ev pool"
  shows "traced w (rs @ sends [(ev, t)]) pool' \<and> effects_safe w (rs @ sends [(ev, t)]) e"
proof (cases "\<exists>r c. ev = Send r c")
  case True
  then obtain r c where ev: "ev = Send r c" by blast
  let ?rs = "rs @ [(r, c)]"
  let ?pool0 = "pool\<lparr>next_exchange := next_exchange pool + 1\<rparr>"
  have n: "next_exchange pool = length rs" using assms(3) by (simp add: traced_def)
  have "traced w ?rs ?pool0"
    using assms(3) hop_safe_mono by (fastforce simp: traced_def pool_queue_def nth_append)
  moreover have "dispatch w (t []) (length rs) (exchange_of r c) ?pool0 = (e, pool')"
    using assms(1) ev n by (simp add: send_def)
  ultimately show ?thesis
    using dispatch_traced [OF _ assms(2), of w "t []" "length rs" "exchange_of r c" ?pool0 pool' ?rs] follows_new ev
    by (simp add: nth_append)
next
  case False
  then have none: "sends [(ev, t)] = []" by (cases ev) auto
  show ?thesis
  proof (cases "\<exists>i r. ev = Complete i r")
    case True
    then show ?thesis using complete_traced assms none by fastforce
  next
    case other: False
    show ?thesis
      using control_quiet [OF assms(1,2) False other] traced_quiet [OF assms(3), of pool' e] none by simp
  qed
qed

lemma pool_run_traced:
  "pool_run w es pool = (f, pool') \<Longrightarrow> \<not> raised f \<Longrightarrow> traced w rs pool \<Longrightarrow> all_in_place w es pool \<Longrightarrow>
     traced w (rs @ sends es) pool' \<and> effects_safe w (rs @ sends es) f"
proof (induction es arbitrary: pool f rs)
  case Nil
  then show ?case by (simp add: effects_safe_def)
next
  case (Cons et es)
  obtain e t where et: "et = (e, t)" by (cases et)
  obtain f1 pool1 f2 where s: "pool_step w t e pool = (f1, pool1)" "pool_run w es pool1 = (f2, pool')" "f = f1 @ f2"
    using pool_run_Cons Cons.prems(1) et by blast
  then have r: "\<not> raised f1" "\<not> raised f2" using Cons.prems(2) by auto
  have a: "answers_in_place w e pool" "all_in_place w es pool1" using Cons.prems(4) et s(1) by auto
  note S = pool_step_traced [OF s(1) r(1) Cons.prems(3) a(1)]
  note R = Cons.IH [OF s(2) r(2) conjunct1 [OF S] a(2)]
  have "sends (et # es) = sends [(e, t)] @ sends es" unfolding et by (cases e) auto
  then show ?case
    using R effects_safe_mono [OF conjunct2 [OF S], of "sends es"] s(3) by (auto simp: effects_safe_def)
qed

lemma newPool_start:
  assumes "newPool config res store = (pe, pool)"
  shows "pool_inv pool" "traced w [] pool" "exchanges pool = []" "pool_queue pool = []"
  using assms
  by (auto simp: newPool_def armSweep_def pool_inv_def lanes_served_def traced_def pool_queue_def)

section \<open>Held lanes\<close>







section \<open>Properties\<close>

definition ex_world :: externals where
  "ex_world = \<lparr>parse_url = (\<lambda>u base. Some \<lparr>u_protocol = ''https:'', u_hostname = u, u_host = u,
     u_pathname = ''/'', u_href = u\<rparr>), curl_getdate = (\<lambda>_. - 1), rate_quotient = (\<lambda>s r. int s * 1000000000 div int r),
     http_date = (\<lambda>_. Some (120, []))\<rparr>"

definition ex_pool_config :: PoolConfig where
  "ex_pool_config = \<lparr>lane_config = ex_config, pool_keep_alive = 30, default_rate = \<lparr>requests = 1, seconds = 5\<rparr>,
     pool_http_version = HTTP_3, pool_user_agent = [], pool_max_response_bytes = 0, pool_timeout_ms = 0,
     observer = False\<rparr>"

definition ex_pool :: LanePool where
  "ex_pool = snd (newPool ex_pool_config None (newCookieStore False))"

definition ex_time :: "int \<Rightarrow> string \<Rightarrow> readings" where
  "ex_time n = (\<lambda>_. \<lparr>steady = (\<lambda>_. n), wall = n\<rparr>)"

definition ex_response :: "int \<Rightarrow> string \<Rightarrow> HttpHeaders \<Rightarrow> TransferResponse" where
  "ex_response st url h = \<lparr>status = st, resp_url = url, resp_headers = h, resp_body = [], resp_bytes = 0,
     hops = [], resp_import = None, import_metadata = \<lparr>im_size = 0, im_content_type = [], im_filename = [],
     im_final_url = []\<rparr>, resp_sink = None\<rparr>"

definition ex_history :: "(pool_event \<times> (string \<Rightarrow> readings)) list" where
  "ex_history = [(Send ((ex_request None)\<lparr>req_url := ''a'', req_headers := [(''Authorization'', ''k''), (''Accept'', ''x'')]\<rparr>) 7, ex_time 0),
     (Complete 0 (Inr (ex_response 302 ''a'' [(''Location'', ''b'')])), ex_time 1),
     (Complete 0 (Inr (ex_response 200 ''b'' [])), ex_time 2)]"

lemma ex_history_run:
  "case pool_run ex_world ex_history ex_pool of (f, pool) \<Rightarrow> \<not> raised f
     \<and> map (\<lambda>cr. (fst cr, isl (snd cr))) (replies f) = [(7, False)]
     \<and> map (\<lambda>p. req_headers (request p)) (starts (lane_effects f))
       = [[(''Authorization'', ''k''), (''Accept'', ''x'')], [(''Accept'', ''x'')]]"
  by code_simp

lemma ex_history_eval:
  "\<not> raised (fst (pool_run ex_world ex_history ex_pool))"
  "map fst (replies (fst (pool_run ex_world ex_history ex_pool))) = [7]"
  "\<exists>resp. replies (fst (pool_run ex_world ex_history ex_pool)) = [(7, Inr resp)]"
  "map (\<lambda>p. req_headers (request p)) (starts (lane_effects (fst (pool_run ex_world ex_history ex_pool))))
     = [[(''Authorization'', ''k''), (''Accept'', ''x'')], [(''Accept'', ''x'')]]"
  using ex_history_run by (auto simp: case_prod_beta map_eq_Cons_conv isl_def) (metis sum.exhaust)?

lemma ex_history_in_place: "all_in_place ex_world ex_history ex_pool"
  by code_simp


text \<open>
  C2. The downloader answers every request exactly once.  Through any history of requests,
  hop completions, cancellations, resets, sweeps, lane events and shutdown that raises no
  exception, the callbacks of the sent requests are, as a multiset, the answered ones and those of
  the exchanges that wait; and the hops that wait or were completed are exactly those still queued
  in a lane and those that a lane started on a shard or refused.
\<close>

theorem pool_answers_once:
  assumes "newPool config res store = (pe, pool0)"
    and "pool_run w es pool0 = (f, pool)" and "\<not> raised f"
  shows "mset (map snd (sends es)) = mset (map fst (replies f)) + mset (waiting_callbacks pool)
    \<and> mset (waiting pool) + mset (hops_completed w es pool0)
      = mset (map pending_callback (pool_queue pool)) + mset (handed f)"
  using pool_run_ledger [OF assms(2,3) newPool_start(1) [OF assms(1)]] newPool_start(3,4) [OF assms(1)]
  by (simp add: ledger_def)

theorem pool_answers_once_witness:
  "map snd (sends ex_history) = [7] \<and> waiting_callbacks (snd (pool_run ex_world ex_history ex_pool)) = []"
proof -
  have s: "sends ex_history = [(fst (hd (sends ex_history)), 7)]" by (simp add: ex_history_def)
  have "newPool ex_pool_config None (newCookieStore False)
      = (fst (newPool ex_pool_config None (newCookieStore False)), ex_pool)"
    by (simp add: ex_pool_def)
  from pool_answers_once [OF this prod.collapse [symmetric] ex_history_eval(1)]
  show ?thesis unfolding ex_history_eval(2) by (subst s) (simp add: s [THEN arg_cong, of "map snd"])
qed

text \<open>
  C1. Credentials stay on their origin.  As long as answers come from the origin the hop was
  sent to, every hop that a lane queues or starts belongs to a sent request, and it carries a
  sensitive field (Authorization, Proxy-Authorization, Cookie, Set-Cookie, X-Api-Key) only
  when its URL has the scheme and host of that request's URL, however many redirects and retries
  lie between, except the Cookie field that the cookie jar of the request makes for the hop.
\<close>

theorem credentials_stay_on_origin:
  assumes "newPool config res store = (pe, pool0)"
    and "pool_run w es pool0 = (f, pool)" and "\<not> raised f" and "all_in_place w es pool0"
    and "p \<in> set (starts (lane_effects f)) \<union> set (pool_queue pool)"
    and "(name, value) \<in> set (req_headers (request p))" and "isSensitiveHeader name"
  shows "\<exists>r c. pending_callback p < length (sends es) \<and> sends es ! pending_callback p = (r, c)
    \<and> (origin w (req_url (request p)) = origin w (req_url r)
       \<or> lowered name = ''cookie'' \<and> req_cookies r \<noteq> None)"
proof -
  have "traced w (sends es) pool \<and> effects_safe w (sends es) f"
    using pool_run_traced [OF assms(2,3) newPool_start(2) [OF assms(1)] assms(4)] by simp
  then have "hop_safe w (sends es) p"
    using assms(5) by (auto simp: traced_def effects_safe_def)
  then show ?thesis
    using assms(6,7) by (cases "sends es ! pending_callback p") (force simp: hop_safe_def)
qed

text \<open>The hops that carried credentials in the example all went to the first host.\<close>

theorem credentials_stay_on_origin_witness:
  "\<exists>p \<in> set (starts (lane_effects (fst (pool_run ex_world ex_history ex_pool)))).
     (''Authorization'', ''k'') \<in> set (req_headers (request p))
     \<and> origin ex_world (req_url (request p)) = origin ex_world ''a''"
proof -
  let ?f = "fst (pool_run ex_world ex_history ex_pool)"
  have new: "newPool ex_pool_config None (newCookieStore False)
      = (fst (newPool ex_pool_config None (newCookieStore False)), ex_pool)"
    by (simp add: ex_pool_def)
  obtain p q where pq: "starts (lane_effects ?f) = [p, q]"
      and p: "req_headers (request p) = [(''Authorization'', ''k''), (''Accept'', ''x'')]"
    using ex_history_eval(4) by (auto simp: map_eq_Cons_conv)
  have started: "p \<in> set (starts (lane_effects ?f))" unfolding pq by simp
  have sens: "isSensitiveHeader ''Authorization''" by code_simp
  have c: "lowered ''Authorization'' \<noteq> ''cookie''" by code_simp
  obtain r c' where rc: "pending_callback p < length (sends ex_history)" "sends ex_history ! pending_callback p = (r, c')"
      "origin ex_world (req_url (request p)) = origin ex_world (req_url r)"
    using credentials_stay_on_origin [OF new prod.collapse [symmetric] ex_history_eval(1) ex_history_in_place, of p "''Authorization''" "''k''"]
      started p sens c by auto
  have "length (sends ex_history) = 1" "req_url (fst (sends ex_history ! 0)) = ''a''" by (simp_all add: ex_history_def)
  then have "req_url r = ''a''" using rc(1,2) by simp
  then show ?thesis using rc p started by (intro bexI [of _ p]) auto
qed

text \<open>
  C14. Redirects are bounded.  The hops recorded in a response that is delivered to a caller
  are redirects, and there are at most as many as the request with that callback permits;
  and no exchange that still waits has followed more.
\<close>

theorem redirects_bounded:
  assumes "newPool config res store = (pe, pool0)"
    and "pool_run w es pool0 = (f, pool)" and "\<not> raised f" and "all_in_place w es pool0"
  shows "(\<forall>(c, result) \<in> set (replies f). \<forall>resp. result = Inr resp \<longrightarrow>
      (\<exists>r. (r, c) \<in> set (sends es) \<and> int (length (hops resp)) \<le> max 0 (max_redirects (options r))
        \<and> (\<forall>h \<in> set (hops resp). isRedirect (hop_status h))))
    \<and> (\<forall>(i, x, key) \<in> set (exchanges pool). \<exists>r c. sends es ! i = (r, c)
        \<and> x_redirects x \<le> max 0 (max_redirects (options r)))"
proof -
  have T: "traced w (sends es) pool \<and> effects_safe w (sends es) f"
    using pool_run_traced [OF assms(2,3) newPool_start(2) [OF assms(1)] assms(4)] by simp
  have "\<exists>r c. sends es ! i = (r, c) \<and> x_redirects x \<le> max 0 (max_redirects (options r))"
    if "(i, x, key) \<in> set (exchanges pool)" for i x key
    using T that by (cases "sends es ! i") (fastforce simp: traced_def follows_def)
  moreover have "\<exists>r. (r, c) \<in> set (sends es) \<and> int (length (hops resp)) \<le> max 0 (max_redirects (options r))
        \<and> (\<forall>h \<in> set (hops resp). isRedirect (hop_status h))"
    if "(c, Inr resp) \<in> set (replies f)" for c resp
    using T that unfolding effects_safe_def reply_bounded_def by fastforce
  ultimately show ?thesis by blast
qed

theorem redirects_bounded_witness:
  "\<exists>resp. replies (fst (pool_run ex_world ex_history ex_pool)) = [(7, Inr resp)] \<and> int (length (hops resp)) \<le> 10"
proof -
  have new: "newPool ex_pool_config None (newCookieStore False)
      = (fst (newPool ex_pool_config None (newCookieStore False)), ex_pool)"
    by (simp add: ex_pool_def)
  have "max_redirects (options r) = 10" if "(r, c) \<in> set (sends ex_history)" for r c
    using that by (auto simp: ex_history_def ex_request_def)
  moreover note redirects_bounded [OF new prod.collapse [symmetric] ex_history_eval(1) ex_history_in_place, THEN conjunct1]
  moreover obtain resp where "replies (fst (pool_run ex_world ex_history ex_pool)) = [(7, Inr resp)]"
    using ex_history_eval(3) by blast
  ultimately show ?thesis by auto
qed




text \<open>
  C30. A host whose settings carry an unusable rate breaks the pool instead of failing its own
  requests only: the first request to it throws, and leaves an empty entry in the table of
  policies; from then on every request to that host dereferences it, and so do the
  listing of all lanes and the reset of all lanes.
\<close>

theorem refused_rate_poisons_pool:
  assumes "resolver pool = Some res" and "rate (res host) = Some rt" and "requests rt = 0 \<or> seconds rt = 0"
    and "lane_group (res host) = None"
    and "\<not> pool_stopped pool" and "map_of (policies pool) host = None" and "map_of (lanes pool) host = None"
    and "x_cancellation x = None" and "ada w (x_url x) = Some u"
    and "u_protocol u = ''http:'' \<or> u_protocol u = ''https:''" and "normalizeHost (u_hostname u) = Inr host"
    and "dispatch w t i x pool = (e, pool')"
  shows "e = [Raised (PolicyRefused BadRate)] \<and> fst (dispatch w t' j x pool') = [Raised NullPolicy]
    \<and> snapshots now pool' = Inl NullPolicy \<and> fst (resetAllBackoff ts pool') = [Raised NullPolicy]"
proof -
  have k: "keyFor pool host = host" "settings_for pool host = res host"
    using assms(1,4) by (simp_all add: keyFor_def settings_for_def)
  have "lane_settings pool host = res host" using assms(1) k(2) by (simp add: lane_settings_def)
  then have l: "laneFor w n host host pool = (Inl (PolicyRefused BadRate), set_policy host None pool)" for n
    using assms(2,3,5,6,7)
    by (simp add: laneFor_def newPolicy_def configure_def intervalFor_def maximum_backoff_def ns_per_second_def)
  have r: "e = [Raised (PolicyRefused BadRate)]" "pool' = set_policy host None pool"
    using assms(8-12) k l by (auto simp: dispatch_def)
  have k': "keyFor pool' host = host" using k r(2) by (simp add: keyFor_def settings_for_def)
  have "map_of (policies pool') host = Some None" "map_of (lanes pool') host = None" "\<not> pool_stopped pool'"
    using r(2) assms(5,7) by (simp_all add: set_policy_def update_conv')
  then have "laneFor w n host host pool' = (Inl NullPolicy, pool')" for n by (simp add: laneFor_def)
  then have "fst (dispatch w t' j x pool') = [Raised NullPolicy]"
    using assms(8-11) k' by (auto simp: dispatch_def)
  moreover have "list_ex (\<lambda>(k, p). p = None) (policies pool')"
    using map_of_SomeD [OF \<open>map_of (policies pool') host = Some None\<close>] by (force simp: list_ex_iff)
  ultimately show ?thesis using r(1) by (simp add: snapshots_def resetAllBackoff_def)
qed

theorem refused_rate_poisons_pool_witness:
  "let pool = ex_pool\<lparr>resolver := Some (\<lambda>_. defaultSettings\<lparr>rate := Some \<lparr>requests = 0, seconds = 5\<rparr>\<rparr>)\<rparr>;
       x = exchange_of (ex_request None) 1 in
   fst (dispatch ex_world (ex_time 0 []) 0 x pool) = [Raised (PolicyRefused BadRate)]
   \<and> snapshots 0 (snd (dispatch ex_world (ex_time 0 []) 0 x pool)) = Inl NullPolicy"
proof -
  let ?res = "\<lambda>_ :: string. defaultSettings\<lparr>rate := Some \<lparr>requests = 0, seconds = 5\<rparr>\<rparr>"
  let ?pool = "ex_pool\<lparr>resolver := Some ?res\<rparr>" and ?x = "exchange_of (ex_request None) 1"
  have "normalizeHost ''u'' = Inr ''u''" by code_simp
  moreover have "ada ex_world (x_url ?x) = Some \<lparr>u_protocol = ''https:'', u_hostname = ''u'', u_host = ''u'',
      u_pathname = ''/'', u_href = ''u''\<rparr>" "x_cancellation ?x = None"
    by (simp_all add: ex_world_def exchange_of_def ex_request_def)
  moreover have "policies ex_pool = []" "lanes ex_pool = []" "\<not> pool_stopped ex_pool"
    by (simp_all add: ex_pool_def newPool_def armSweep_def)
  ultimately show ?thesis
    using refused_rate_poisons_pool [of ?pool ?res "''u''" "\<lparr>requests = 0, seconds = 5\<rparr>" ?x ex_world
        "\<lparr>u_protocol = ''https:'', u_hostname = ''u'', u_host = ''u'', u_pathname = ''/'', u_href = ''u''\<rparr>"
        "ex_time 0 []" 0 "fst (dispatch ex_world (ex_time 0 []) 0 ?x ?pool)"
        "snd (dispatch ex_world (ex_time 0 []) 0 ?x ?pool)"]
    by (simp add: defaultSettings_def)
qed

end
