(* ===== verification/Json_Value.thy ===== *)
theory Json_Value
  imports IDHAN_Prelude
begin

text \<open>
  The JSON library as the PTR tools use it.  A value is of an abstract type, and the record
  \<open>Jsoncpp\<close> holds the operations the sources call: they are parameters of every definition that
  reads or writes JSON.  Accessors of the library that throw return an option.  Values that differ
  only in whether a nonnegative number is tagged signed or unsigned count as one value, since no
  accessor the sources call tells them apart.  \<open>json_laws\<close> states the documented behaviour of
  containers and of conversions within range.
\<close>

section \<open>Results\<close>

definition and_then :: "('e, 'a) result \<Rightarrow> ('a \<Rightarrow> ('e, 'b) result) \<Rightarrow> ('e, 'b) result" where
  "and_then r f = (case r of Inl e \<Rightarrow> Inl e | Inr x \<Rightarrow> f x)"

lemma and_then_simps [simp]: "and_then (Inl e) f = Inl e" "and_then (Inr x) f = f x"
  by (simp_all add: and_then_def)

lemma and_then_Inr: "and_then r f = Inr y \<longleftrightarrow> (\<exists>x. r = Inr x \<and> f x = Inr y)"
  by (cases r) simp_all

text \<open>A loop whose body may throw.\<close>

fun fold_result :: "('a \<Rightarrow> 's \<Rightarrow> ('e, 's) result) \<Rightarrow> 'a list \<Rightarrow> 's \<Rightarrow> ('e, 's) result" where
  "fold_result f [] s = Inr s"
| "fold_result f (x # xs) s = and_then (f x s) (fold_result f xs)"

lemma fold_result_append: "fold_result f (xs @ ys) s = and_then (fold_result f xs s) (fold_result f ys)"
  by (induction xs arbitrary: s) (simp_all add: and_then_def split: sum.splits)

lemma fold_result_map: "(\<And>x s. x \<in> set xs \<Longrightarrow> f (d x) s = Inr (g x s)) \<Longrightarrow> fold_result f (map d xs) s = Inr (fold g xs s)"
  by (induction xs arbitrary: s) simp_all

lemma fold_push: "fold (\<lambda>x ys. ys @ [g x]) xs ys = ys @ map g xs"
  by (induction xs arbitrary: ys) simp_all

section \<open>The library\<close>

record 'j Jsoncpp =
  j_object :: 'j
  j_array :: 'j
  j_null :: 'j
  j_of_int :: "int \<Rightarrow> 'j"
  j_of_bool :: "bool \<Rightarrow> 'j"
  j_of_string :: "string \<Rightarrow> 'j"
  j_set :: "'j \<Rightarrow> string \<Rightarrow> 'j \<Rightarrow> 'j"
  j_append :: "'j \<Rightarrow> 'j \<Rightarrow> 'j"
  j_isObject :: "'j \<Rightarrow> bool"
  j_isArray :: "'j \<Rightarrow> bool"
  j_isMember :: "'j \<Rightarrow> string \<Rightarrow> bool"
  j_at :: "'j \<Rightarrow> string \<Rightarrow> 'j option"
  j_get :: "'j \<Rightarrow> string \<Rightarrow> 'j \<Rightarrow> 'j option"
  j_elems :: "'j \<Rightarrow> 'j list"
  j_asInt :: "'j \<Rightarrow> int option"
  j_asInt64 :: "'j \<Rightarrow> int option"
  j_asUInt :: "'j \<Rightarrow> nat option"
  j_asUInt64 :: "'j \<Rightarrow> nat option"
  j_asBool :: "'j \<Rightarrow> bool option"
  j_asString :: "'j \<Rightarrow> string option"
  j_write :: "'j \<Rightarrow> byte list"
  j_parse :: "byte list \<Rightarrow> 'j option"

definition j_of_nat :: "'j Jsoncpp \<Rightarrow> nat \<Rightarrow> 'j" where
  "j_of_nat J n = j_of_int J (int n)"

definition int32 :: "int \<Rightarrow> bool" where
  "int32 i \<longleftrightarrow> - (2 ^ 31) \<le> i \<and> i < 2 ^ 31"

definition int64 :: "int \<Rightarrow> bool" where
  "int64 i \<longleftrightarrow> - (2 ^ 63) \<le> i \<and> i < 2 ^ 63"

text \<open>
  What the library documents: an object answers for the members set in it, an array lists what was
  appended, assigning a member of a null value makes it an object, and a number, boolean or string
  converts back to itself within the range of the target type.
\<close>

definition object_laws :: "'j Jsoncpp \<Rightarrow> bool" where
  "object_laws J \<longleftrightarrow>
     j_isObject J (j_object J) \<and> (\<forall>k. \<not> j_isMember J (j_object J) k) \<and>
     (\<forall>k. j_at J (j_object J) k = Some (j_null J)) \<and> (\<forall>k d. j_get J (j_object J) k d = Some d) \<and>
     (\<forall>k v. j_set J (j_null J) k v = j_set J (j_object J) k v) \<and>
     (\<forall>j k v. j_isObject J j \<longrightarrow> j_isObject J (j_set J j k v)) \<and>
     (\<forall>j k v k'. j_isObject J j \<longrightarrow> j_isMember J (j_set J j k v) k' = (k' = k \<or> j_isMember J j k')) \<and>
     (\<forall>j k v k'. j_isObject J j \<longrightarrow> j_at J (j_set J j k v) k' = (if k' = k then Some v else j_at J j k')) \<and>
     (\<forall>j k v k' d. j_isObject J j \<longrightarrow> j_get J (j_set J j k v) k' d = (if k' = k then Some v else j_get J j k' d))"

definition array_laws :: "'j Jsoncpp \<Rightarrow> bool" where
  "array_laws J \<longleftrightarrow>
     j_isArray J (j_array J) \<and> j_elems J (j_array J) = [] \<and>
     (\<forall>a v. j_isArray J a \<longrightarrow> j_isArray J (j_append J a v) \<and> j_elems J (j_append J a v) = j_elems J a @ [v])"

definition scalar_laws :: "'j Jsoncpp \<Rightarrow> bool" where
  "scalar_laws J \<longleftrightarrow>
     (\<forall>i. int32 i \<longrightarrow> j_asInt J (j_of_int J i) = Some i) \<and>
     (\<forall>i. int64 i \<longrightarrow> j_asInt64 J (j_of_int J i) = Some i) \<and>
     (\<forall>n. n < 2 ^ 32 \<longrightarrow> j_asUInt J (j_of_nat J n) = Some n) \<and>
     (\<forall>n. n < 2 ^ 64 \<longrightarrow> j_asUInt64 J (j_of_nat J n) = Some n) \<and>
     (\<forall>b. j_asBool J (j_of_bool J b) = Some b) \<and> (\<forall>s. j_asString J (j_of_string J s) = Some s)"

definition json_laws :: "'j Jsoncpp \<Rightarrow> bool" where
  "json_laws J \<longleftrightarrow> object_laws J \<and> array_laws J \<and> scalar_laws J"

text \<open>Building an array and an object member by member.\<close>

definition j_list :: "'j Jsoncpp \<Rightarrow> 'j list \<Rightarrow> 'j" where
  "j_list J vs = fold (\<lambda>v a. j_append J a v) vs (j_array J)"

definition j_members :: "'j Jsoncpp \<Rightarrow> (string \<times> 'j) list \<Rightarrow> 'j \<Rightarrow> 'j" where
  "j_members J ms j = fold (\<lambda>(k, v) j. j_set J j k v) ms j"

lemma j_list_laws:
  assumes "json_laws J"
  shows "j_isArray J (j_list J vs)" "j_elems J (j_list J vs) = vs"
proof -
  have "j_isArray J (fold (\<lambda>v a. j_append J a v) vs a) \<and> j_elems J (fold (\<lambda>v a. j_append J a v) vs a) = j_elems J a @ vs"
    if "j_isArray J a" for a
    using that assms by (induction vs arbitrary: a) (auto simp: json_laws_def array_laws_def)
  moreover have "j_isArray J (j_array J)" "j_elems J (j_array J) = []" using assms by (simp_all add: json_laws_def array_laws_def)
  ultimately show "j_isArray J (j_list J vs)" "j_elems J (j_list J vs) = vs" unfolding j_list_def by simp_all
qed

lemma j_members_laws:
  assumes "json_laws J" and "j_isObject J j"
  shows "j_isObject J (j_members J ms j) \<and>
    j_isMember J (j_members J ms j) k = (k \<in> fst ` set ms \<or> j_isMember J j k) \<and>
    j_at J (j_members J ms j) k = (case map_of (rev ms) k of Some v \<Rightarrow> Some v | None \<Rightarrow> j_at J j k) \<and>
    j_get J (j_members J ms j) k d = (case map_of (rev ms) k of Some v \<Rightarrow> Some v | None \<Rightarrow> j_get J j k d)"
  using assms(2)
proof (induction ms arbitrary: j)
  case Nil
  then show ?case by (simp add: j_members_def)
next
  case (Cons m ms)
  obtain k' v where m: "m = (k', v)" by (cases m)
  have set: "j_isObject J (j_set J j k' v)" "j_isMember J (j_set J j k' v) k = (k = k' \<or> j_isMember J j k)"
    "j_at J (j_set J j k' v) k = (if k = k' then Some v else j_at J j k)"
    "j_get J (j_set J j k' v) k d = (if k = k' then Some v else j_get J j k d)"
    using assms(1) Cons.prems by (simp_all add: json_laws_def object_laws_def)
  have "j_members J (m # ms) j = j_members J ms (j_set J j k' v)" by (simp add: j_members_def m)
  then show ?case using Cons.IH [OF set(1)] set by (auto simp: m map_add_def split: option.splits)
qed

lemmas object_start = object_laws_def json_laws_def

text \<open>A concrete library: trees with members as an association list and a store of written documents.\<close>

datatype json_tree = JNull | JInt int | JBool bool | JString string | JArray "json_tree list" | JObject "(string \<times> json_tree) list"

fun tree_set :: "json_tree \<Rightarrow> string \<Rightarrow> json_tree \<Rightarrow> json_tree" where
  "tree_set (JObject ms) k v = JObject ((k, v) # ms)"
| "tree_set j k v = JObject [(k, v)]"

fun tree_append :: "json_tree \<Rightarrow> json_tree \<Rightarrow> json_tree" where
  "tree_append (JArray vs) v = JArray (vs @ [v])"
| "tree_append j v = JArray [v]"

fun tree_get :: "json_tree \<Rightarrow> string \<Rightarrow> json_tree \<Rightarrow> json_tree option" where
  "tree_get (JObject ms) k d = Some (case map_of ms k of Some v \<Rightarrow> v | None \<Rightarrow> d)"
| "tree_get JNull k d = Some d"
| "tree_get j k d = None"

definition tree_int :: "(int \<Rightarrow> bool) \<Rightarrow> json_tree \<Rightarrow> int option" where
  "tree_int fits j = (case j of JInt i \<Rightarrow> if fits i then Some i else None | _ \<Rightarrow> None)"

definition json_trees :: "json_tree \<Rightarrow> json_tree Jsoncpp" where
  "json_trees doc = \<lparr>j_object = JObject [], j_array = JArray [], j_null = JNull, j_of_int = JInt, j_of_bool = JBool, j_of_string = JString,
     j_set = tree_set, j_append = tree_append, j_isObject = (\<lambda>j. case j of JObject _ \<Rightarrow> True | _ \<Rightarrow> False),
     j_isArray = (\<lambda>j. case j of JArray _ \<Rightarrow> True | _ \<Rightarrow> False),
     j_isMember = (\<lambda>j k. case j of JObject ms \<Rightarrow> k \<in> fst ` set ms | _ \<Rightarrow> False), j_at = (\<lambda>j k. tree_get j k JNull), j_get = tree_get,
     j_elems = (\<lambda>j. case j of JArray vs \<Rightarrow> vs | _ \<Rightarrow> []), j_asInt = tree_int int32, j_asInt64 = tree_int int64,
     j_asUInt = (\<lambda>j. map_option nat (tree_int (\<lambda>i. 0 \<le> i \<and> i < 2 ^ 32) j)),
     j_asUInt64 = (\<lambda>j. map_option nat (tree_int (\<lambda>i. 0 \<le> i \<and> i < 2 ^ 64) j)),
     j_asBool = (\<lambda>j. case j of JBool b \<Rightarrow> Some b | _ \<Rightarrow> None), j_asString = (\<lambda>j. case j of JString s \<Rightarrow> Some s | _ \<Rightarrow> None),
     j_write = (\<lambda>_. [123, 125]), j_parse = (\<lambda>b. if b = [123, 125] then Some doc else None)\<rparr>"

lemma json_trees_laws: "json_laws (json_trees doc)"
proof -
  have "object_laws (json_trees doc)" by (auto simp: object_laws_def json_trees_def split: json_tree.splits)
  moreover have "array_laws (json_trees doc)" by (auto simp: array_laws_def json_trees_def split: json_tree.splits)
  moreover have "scalar_laws (json_trees doc)"
    by (simp add: scalar_laws_def json_trees_def tree_int_def j_of_nat_def)
  ultimately show ?thesis by (simp add: json_laws_def)
qed

end
