(* ===== verification/Byte_Codec.thy ===== *)
theory Byte_Codec
  imports Cpp_Text
begin

text \<open>
  How the PTR tools put plain values into byte buffers and take them out again
  (\<^verbatim>\<open>appendPod\<close> and \<^verbatim>\<open>takePod\<close> of \<^verbatim>\<open>ptr-core/src/ChunkFormat.cpp\<close> and
  \<^verbatim>\<open>RelationsFile.cpp\<close>) on a little-endian machine, and the hexadecimal form of hashes
  (\<^verbatim>\<open>HexEncode.cpp\<close>, \<^verbatim>\<open>DefinitionStore.cpp\<close>).  A reader works at an offset into a whole
  buffer, as the sources do.  The locale \<open>offset_codec\<close> is the contract between a writer and
  its reader, lifted inside it to counted sequences; composite values get it from the rules on
  \<open>take_then\<close>.
\<close>

section \<open>Little-endian integers\<close>

fun le_bytes :: "nat \<Rightarrow> nat \<Rightarrow> byte list" where
  "le_bytes 0 n = []"
| "le_bytes (Suc k) n = of_nat n # le_bytes k (n div 256)"

fun le_val :: "byte list \<Rightarrow> nat" where
  "le_val [] = 0"
| "le_val (b # bs) = unat b + 256 * le_val bs"

lemma byte_less: "unat (b :: byte) < 256"
  using unsigned_less [of b] by simp

lemma u32_less: "unat (v :: u32) < 2 ^ 32"
  using unsigned_less [of v] by simp

lemma length_le_bytes [simp]: "length (le_bytes k n) = k"
  by (induction k n rule: le_bytes.induct) auto

lemma le_val_le_bytes: "le_val (le_bytes k n) = n mod 256 ^ k"
proof (induction k n rule: le_bytes.induct)
  case (2 k n)
  have "n mod (256 * 256 ^ k) = 256 * (n div 256 mod 256 ^ k) + n mod 256" by (rule mod_mult2_eq)
  moreover have "unat (of_nat n :: byte) = n mod 256" by (simp add: unat_of_nat)
  ultimately show ?case using 2 by simp
qed simp

lemma le_bytes_le_val: "le_bytes (length bs) (le_val bs) = bs"
proof (induction bs)
  case (Cons b bs)
  note b = byte_less [of b]
  have "(unat b + 256 * le_val bs) div 256 = le_val bs" using b by simp
  moreover have "of_nat (unat b + 256 * le_val bs) = b"
  proof (rule word_unat_eq_iff [THEN iffD2])
    show "unat (of_nat (unat b + 256 * le_val bs) :: byte) = unat b" by (subst unat_of_nat) (use b in simp)
  qed
  ultimately show ?case using Cons by simp
qed simp

lemma le_val_less: "le_val bs < 256 ^ length bs"
proof (induction bs)
  case (Cons b bs)
  have "unat b < 256" by (rule byte_less)
  then have "unat b + 256 * le_val bs < 256 * (le_val bs + 1)" by simp
  also have "\<dots> \<le> 256 * 256 ^ length bs" using Cons by (intro mult_le_mono2) simp
  finally show ?case by simp
qed simp

section \<open>Readers and writers\<close>

datatype read_error = Truncated string

definition appendPod32 :: "u32 \<Rightarrow> byte list" where
  "appendPod32 v = le_bytes 4 (unat v)"

definition takePod32 :: "string \<Rightarrow> byte list \<Rightarrow> nat \<Rightarrow> (read_error, u32 \<times> nat) result" where
  "takePod32 what body offset =
     (if offset + 4 > length body then Inl (Truncated what)
      else Inr (of_nat (le_val (take 4 (drop offset body))), offset + 4))"

definition takePod8 :: "string \<Rightarrow> byte list \<Rightarrow> nat \<Rightarrow> (read_error, byte \<times> nat) result" where
  "takePod8 what body offset =
     (if offset + 1 > length body then Inl (Truncated what) else Inr (body ! offset, offset + 1))"

text \<open>Reads in sequence, each from the offset the previous one left, and a counted loop of them.\<close>

type_synonym 'a taker = "byte list \<Rightarrow> nat \<Rightarrow> (read_error, 'a \<times> nat) result"

definition take_then :: "'a taker \<Rightarrow> ('a \<Rightarrow> 'b taker) \<Rightarrow> 'b taker" where
  "take_then d f body offset = (case d body offset of Inl e \<Rightarrow> Inl e | Inr (x, offset1) \<Rightarrow> f x body offset1)"

definition take_done :: "'a \<Rightarrow> 'a taker" where
  "take_done x body offset = Inr (x, offset)"

text \<open>A block of bytes whose length was read before, with the explicit check the readers make.\<close>

definition take_block :: "string \<Rightarrow> nat \<Rightarrow> byte list taker" where
  "take_block what n body offset =
     (if offset + n > length body then Inl (Truncated what) else Inr (take n (drop offset body), offset + n))"

fun take_many :: "'a taker \<Rightarrow> nat \<Rightarrow> 'a list taker" where
  "take_many dec 0 body offset = Inr ([], offset)"
| "take_many dec (Suc n) body offset =
     (case dec body offset of
        Inl e \<Rightarrow> Inl e
      | Inr (x, offset1) \<Rightarrow>
          (case take_many dec n body offset1 of Inl e \<Rightarrow> Inl e | Inr (xs, offset2) \<Rightarrow> Inr (x # xs, offset2)))"

text \<open>
  The contract between a writer and its reader: wherever the bytes of a value stand in a buffer,
  the reader returns the value and moves the offset past them.
\<close>

definition reads_as :: "'a taker \<Rightarrow> byte list \<Rightarrow> 'a \<Rightarrow> bool" where
  "reads_as d bs v \<longleftrightarrow> (\<forall>pre post. d (pre @ bs @ post) (length pre) = Inr (v, length pre + length bs))"

lemma reads_as_then:
  assumes "reads_as d bs v" and "reads_as (f v) cs u"
  shows "reads_as (take_then d f) (bs @ cs) u"
  unfolding reads_as_def
proof (intro allI)
  fix pre post
  have "d (pre @ bs @ cs @ post) (length pre) = Inr (v, length pre + length bs)"
    using assms(1) by (simp add: reads_as_def)
  moreover have "f v ((pre @ bs) @ cs @ post) (length (pre @ bs)) = Inr (u, length (pre @ bs) + length cs)"
    using assms(2) unfolding reads_as_def by blast
  ultimately show "take_then d f (pre @ (bs @ cs) @ post) (length pre) = Inr (u, length pre + length (bs @ cs))"
    by (simp add: take_then_def)
qed

lemma reads_as_done: "reads_as (take_done v) [] v"
  by (simp add: reads_as_def take_done_def)

lemma reads_as_last:
  assumes "reads_as d bs v"
  shows "reads_as (take_then d (\<lambda>x. take_done (f x))) bs (f v)"
  using reads_as_then [OF assms reads_as_done, of f] by (simp add: o_def)

lemma reads_as_block: "length bs = n \<Longrightarrow> reads_as (take_block what n) bs bs"
  by (simp add: reads_as_def take_block_def)

lemma reads_as_start: "reads_as d bs v \<Longrightarrow> d (bs @ post) 0 = Inr (v, length bs)"
  by (auto simp: reads_as_def dest: spec [of _ "[]"])

locale offset_codec =
  fixes enc :: "'a \<Rightarrow> byte list"
    and dec :: "'a taker"
    and ok :: "'a \<Rightarrow> bool"
  assumes reads: "ok x \<Longrightarrow> reads_as dec (enc x) x"
begin

lemma reads_many: "list_all ok xs \<Longrightarrow> reads_as (take_many dec (length xs)) (concat (map enc xs)) xs"
proof (induction xs)
  case (Cons x xs)
  have "reads_as (take_then dec (\<lambda>x. take_then (take_many dec (length xs)) (\<lambda>xs. take_done (x # xs))))
      (enc x @ concat (map enc xs)) (x # xs)"
    using Cons by (intro reads_as_then [of dec _ x] reads_as_last) (simp_all add: reads)
  moreover have "take_then dec (\<lambda>x. take_then (take_many dec n) (\<lambda>xs. take_done (x # xs))) = take_many dec (Suc n)" for n
    by (intro ext) (simp add: take_then_def take_done_def split: sum.splits)
  ultimately show ?case by (simp only: list.size list.map concat.simps add_Suc_right add_0_right)
qed (simp add: reads_as_def)

end

lemma takePod32_reads: "reads_as (takePod32 what) (appendPod32 x) x"
proof -
  have "unat x < 2 ^ 32" by (rule u32_less)
  then have "unat x mod 256 ^ 4 = unat x" by simp
  then show ?thesis by (simp add: reads_as_def takePod32_def appendPod32_def le_val_le_bytes)
qed

interpretation pod32: offset_codec appendPod32 "takePod32 what" "\<lambda>_. True" for what
  by unfold_locales (rule takePod32_reads)

lemma length_appendPod32 [simp]: "length (appendPod32 v) = 4"
  by (simp add: appendPod32_def)

section \<open>Text\<close>

definition text_bytes :: "string \<Rightarrow> byte list" where
  "text_bytes s = map (\<lambda>c. of_nat (char_code c)) s"

definition bytes_text :: "byte list \<Rightarrow> string" where
  "bytes_text bs = map (\<lambda>b. char_of (unat b)) bs"

lemma text_roundtrip [simp]: "bytes_text (text_bytes s) = s"
proof -
  have "char_of (unat (of_nat (char_code c) :: byte)) = c" for c
    by (simp add: char_code_def unat_of_nat)
  then show ?thesis by (induction s) (simp_all add: bytes_text_def text_bytes_def)
qed

lemma length_text_bytes [simp]: "length (text_bytes s) = length s"
  by (simp add: text_bytes_def)

lemma unat_u32: "n < 2 ^ 32 \<Longrightarrow> unat (of_nat n :: u32) = n"
  by (subst unat_of_nat) simp

section \<open>Hexadecimal hashes\<close>

definition hex_digit :: "nat \<Rightarrow> char" where
  "hex_digit n = ''0123456789abcdef'' ! n"

fun toHex :: "byte list \<Rightarrow> string" where
  "toHex [] = []"
| "toHex (b # bs) = hex_digit (unat b div 16 mod 16) # hex_digit (unat b mod 16) # toHex bs"

definition hexNibble :: "char \<Rightarrow> nat option" where
  "hexNibble c =
     (if 48 \<le> char_code c \<and> char_code c \<le> 57 then Some (char_code c - 48)
      else if 97 \<le> char_code c \<and> char_code c \<le> 102 then Some (char_code c - 97 + 10)
      else if 65 \<le> char_code c \<and> char_code c \<le> 70 then Some (char_code c - 65 + 10)
      else None)"

definition SHA256_BYTES :: nat where
  "SHA256_BYTES = 32"

fun hex_pairs :: "string \<Rightarrow> byte list option" where
  "hex_pairs (h # l # s) =
     (case (hexNibble h, hexNibble l) of
        (Some high, Some low) \<Rightarrow> map_option ((#) (of_nat (high * 16 + low))) (hex_pairs s)
      | _ \<Rightarrow> None)"
| "hex_pairs _ = Some []"

definition decodeSha256Hex :: "string \<Rightarrow> byte list option" where
  "decodeSha256Hex hex = (if length hex \<noteq> SHA256_BYTES * 2 then None else hex_pairs hex)"

lemma hexNibble_digit: "n < 16 \<Longrightarrow> hexNibble (hex_digit n) = Some n"
proof -
  have "\<forall>n \<in> set [0..<16]. hexNibble (hex_digit n) = Some n" by code_simp
  then show "n < 16 \<Longrightarrow> hexNibble (hex_digit n) = Some n" by simp
qed

lemma hexNibble_less: "hexNibble c = Some n \<Longrightarrow> n < 16"
  by (auto simp: hexNibble_def split: if_splits)

lemma hex_digit_nibble: "hexNibble c = Some n \<Longrightarrow> hex_digit n = to_lower c"
proof -
  have "\<forall>n \<in> set [0..<16]. hex_digit n = char_of (if n < 10 then n + 48 else n + 87)" by code_simp
  then have d: "hex_digit n = char_of (if n < 10 then n + 48 else n + 87)" if "n < 16" for n using that by simp
  assume "hexNibble c = Some n"
  then show ?thesis
    using d [OF hexNibble_less] by (auto simp: hexNibble_def to_lower_def char_code_def split: if_splits)
qed

lemma hex_pairs_toHex: "hex_pairs (toHex bs) = Some bs"
proof (induction bs)
  case (Cons b bs)
  have "unat b < 256" by (rule byte_less)
  then have "unat b div 16 mod 16 = unat b div 16" by simp
  then have "of_nat (unat b div 16 mod 16 * 16 + unat b mod 16) = b" by simp
  then show ?case using Cons by (simp add: hexNibble_digit)
qed simp

lemma length_toHex [simp]: "length (toHex bs) = 2 * length bs"
  by (induction bs) auto

lemma toHex_hex_pairs: "even (length s) \<Longrightarrow> hex_pairs s = Some bs \<Longrightarrow> toHex bs = lowered s"
proof (induction s arbitrary: bs rule: hex_pairs.induct)
  case (1 h l s)
  obtain a b cs where s: "hexNibble h = Some a" "hexNibble l = Some b" "hex_pairs s = Some cs"
      "bs = of_nat (a * 16 + b) # cs"
    using "1.prems" by (auto split: option.splits)
  have "toHex cs = lowered s" using "1.IH" "1.prems"(1) s by simp
  moreover have "a < 16" "b < 16" using s hexNibble_less by blast+
  then have "unat (of_nat (a * 16 + b) :: byte) = a * 16 + b"
    by (subst unat_of_nat) simp
  ultimately show ?case
    using s(1,2,4) \<open>a < 16\<close> \<open>b < 16\<close> by (simp add: hex_digit_nibble lowered_def)
qed (auto simp: lowered_def)

end
