(* ===== verification/Ipc_Frame.thy ===== *)
theory Ipc_Frame
  imports Json_Value Byte_Codec
begin

text \<open>
  The framing of messages between the server and its module workers
  (\<^verbatim>\<open>IDHANModules/ipc/include/ipc/Frame.hpp\<close>, \<^verbatim>\<open>ipc/src/linux/FrameLinux.cpp\<close>).  A frame is a header with
  two lengths, sent together with the file descriptors, followed by the JSON text.  The socket is
  the list of bytes in flight, each with the descriptors that travel with it; how much of it a call
  moves, and whether the call is interrupted, blocked or fails, is an argument.
\<close>

type_synonym fd = nat
type_synonym wire = "(byte \<times> fd list) list"

record 'j Frame =
  fr_body :: 'j
  fr_fds :: "fd list"

record Header =
  m_body_expected :: u32
  m_fds_expected :: u32

datatype frame_error =
    TooManyFds nat | BodyTooLarge nat | DupFailed | WriteFailed | ReadFailed | TruncatedFds | AnnouncedBody u32 | AnnouncedFds u32
  | BodyNotJson | FdMismatch u32 nat | PeerClosed | TimedOut | PollFailed

definition MAX_FRAME_BODY :: nat where
  "MAX_FRAME_BODY = 64 * 1024 * 1024"

definition MAX_FRAME_FDS :: nat where
  "MAX_FRAME_FDS = 8"

definition HEADER_SIZE :: nat where
  "HEADER_SIZE = 8"

definition wire_header :: "Header \<Rightarrow> byte list" where
  "wire_header h = appendPod32 (m_body_expected h) @ appendPod32 (m_fds_expected h)"

definition header_from :: "byte list \<Rightarrow> Header" where
  "header_from bs = \<lparr>m_body_expected = of_nat (le_val (take 4 bs)), m_fds_expected = of_nat (le_val (take 4 (drop 4 bs)))\<rparr>"

text \<open>Bytes that carry descriptors carry them with the first byte.\<close>

fun attach :: "fd list \<Rightarrow> byte list \<Rightarrow> wire" where
  "attach fds [] = []"
| "attach fds (b # bs) = (b, fds) # map (\<lambda>b. (b, [])) bs"

section \<open>Sending\<close>

datatype send_outcome = Sent nat | SendInterrupted | SendBlocked | SendFailed

datatype send_state = SendDone | SendPending | SendBroken

text \<open>Without further outcomes a blocking call is still waiting.\<close>

fun sendAll :: "byte list \<Rightarrow> send_outcome list \<Rightarrow> wire \<times> send_state" where
  "sendAll [] ocs = ([], SendDone)"
| "sendAll (b # bs) [] = ([], SendPending)"
| "sendAll (b # bs) (Sent n # ocs) =
     (let k = min n (length (b # bs)) in
      case sendAll (drop k (b # bs)) ocs of (sent, st) \<Rightarrow> (attach [] (take k (b # bs)) @ sent, st))"
| "sendAll (b # bs) (SendInterrupted # ocs) = sendAll (b # bs) ocs"
| "sendAll (b # bs) (SendBlocked # ocs) = ([], SendBroken)"
| "sendAll (b # bs) (SendFailed # ocs) = ([], SendBroken)"

fun send_header :: "byte list \<Rightarrow> fd list \<Rightarrow> byte list \<Rightarrow> send_outcome list \<Rightarrow> wire \<times> send_state" where
  "send_header header fds payload [] = ([], SendPending)"
| "send_header header fds payload (SendInterrupted # ocs) = send_header header fds payload ocs"
| "send_header header fds payload (SendBlocked # ocs) = ([], SendBroken)"
| "send_header header fds payload (SendFailed # ocs) = ([], SendBroken)"
| "send_header header fds payload (Sent n # ocs) =
     (let k = min n (length header) in
      case sendAll (drop k header @ payload) ocs of (sent, st) \<Rightarrow> (attach fds (take k header) @ sent, st))"

definition sendFrame :: "'j Jsoncpp \<Rightarrow> 'j \<Rightarrow> fd list \<Rightarrow> send_outcome list \<Rightarrow> (frame_error, wire \<times> send_state) result" where
  "sendFrame J body fds ocs =
     (if length fds > MAX_FRAME_FDS then Inl (TooManyFds (length fds))
      else
        (let payload = j_write J body in
         if length payload > MAX_FRAME_BODY then Inl (BodyTooLarge (length payload))
         else
           (let header = \<lparr>m_body_expected = of_nat (length payload), m_fds_expected = of_nat (length fds)\<rparr> in
            Inr (send_header (wire_header header) fds payload ocs))))"

record Pending =
  p_buffer :: "byte list"
  p_fds :: "fd list"
  p_sent :: nat

type_synonym FrameWriter = "Pending list"

text \<open>\<open>dup\<close> is the descriptor that duplicating one yields, if that succeeds.\<close>

definition enqueue :: "'j Jsoncpp \<Rightarrow> (fd \<Rightarrow> fd option) \<Rightarrow> 'j \<Rightarrow> fd list \<Rightarrow> FrameWriter \<Rightarrow> (frame_error, FrameWriter) result" where
  "enqueue J dup body fds queue =
     (if length fds > MAX_FRAME_FDS then Inl (TooManyFds (length fds))
      else
        (let payload = j_write J body in
         if length payload > MAX_FRAME_BODY then Inl (BodyTooLarge (length payload))
         else if list_ex (\<lambda>fd. dup fd = None) fds then Inl DupFailed
         else
           (let header = \<lparr>m_body_expected = of_nat (length payload), m_fds_expected = of_nat (length fds)\<rparr> in
            Inr (queue @ [\<lparr>p_buffer = wire_header header @ payload, p_fds = map (the \<circ> dup) fds, p_sent = 0\<rparr>]))))"

text \<open>One write for the frame at the front: the header alone with the descriptors, or what is left.\<close>

definition send_some :: "nat \<Rightarrow> Pending \<Rightarrow> wire \<times> Pending" where
  "send_some n p =
     (let with_fds = (p_sent p = 0 \<and> p_fds p \<noteq> []);
          asked = (if with_fds then HEADER_SIZE else length (p_buffer p) - p_sent p);
          written = min n asked in
      (attach (if with_fds then p_fds p else []) (take written (drop (p_sent p) (p_buffer p))),
       p\<lparr>p_fds := (if written > 0 then [] else p_fds p), p_sent := p_sent p + written\<rparr>))"

fun drain :: "FrameWriter \<Rightarrow> send_outcome list \<Rightarrow> (frame_error, bool) result \<times> FrameWriter \<times> wire" where
  "drain [] ocs = (Inr True, [], [])"
| "drain (p # q) [] = (Inr False, p # q, [])"
| "drain (p # q) (SendInterrupted # ocs) = drain (p # q) ocs"
| "drain (p # q) (SendBlocked # ocs) = (Inr False, p # q, [])"
| "drain (p # q) (SendFailed # ocs) = (Inl WriteFailed, p # q, [])"
| "drain (p # q) (Sent n # ocs) =
     (case send_some n p of (out, p1) \<Rightarrow>
      case drain (if p_sent p1 \<ge> length (p_buffer p1) then q else p1 # q) ocs of (res, q1, sent) \<Rightarrow> (res, q1, out @ sent))"

section \<open>Receiving\<close>

record FrameReader =
  r_header_bytes :: "byte list"
  r_complete :: bool
  r_header :: Header
  r_body :: "byte list"
  r_pending :: "fd list"
  r_eof :: bool

definition newReader :: FrameReader where
  "newReader = \<lparr>r_header_bytes = [], r_complete = False, r_header = \<lparr>m_body_expected = 0, m_fds_expected = 0\<rparr>, r_body = [],
     r_pending = [], r_eof = False\<rparr>"

definition wanted :: "FrameReader \<Rightarrow> nat" where
  "wanted r = (if \<not> r_complete r then HEADER_SIZE - length (r_header_bytes r) else unat (m_body_expected (r_header r)) - length (r_body r))"

text \<open>What one receive does: bytes arrive (at most as many as wanted and available), or it does not happen.\<close>

datatype recv_outcome = Arrives nat | RecvInterrupted | RecvBlocked | RecvClosed | RecvFailed

definition take_in :: "byte list \<Rightarrow> fd list \<Rightarrow> FrameReader \<Rightarrow> FrameReader" where
  "take_in bs fds r =
     (let r1 = r\<lparr>r_pending := r_pending r @ fds\<rparr> in
      if \<not> r_complete r then r1\<lparr>r_header_bytes := r_header_bytes r @ bs\<rparr> else r1\<lparr>r_body := r_body r @ bs\<rparr>)"

definition finish_frame :: "'j Jsoncpp \<Rightarrow> FrameReader \<Rightarrow> (frame_error, 'j Frame option) result \<times> FrameReader" where
  "finish_frame J r =
     (case j_parse J (r_body r) of
        None \<Rightarrow> (Inl BodyNotJson, r)
      | Some parsed \<Rightarrow>
          if length (r_pending r) \<noteq> unat (m_fds_expected (r_header r))
          then (Inl (FdMismatch (m_fds_expected (r_header r)) (length (r_pending r))), r)
          else (Inr (Some \<lparr>fr_body = parsed, fr_fds = r_pending r\<rparr>), newReader\<lparr>r_eof := r_eof r\<rparr>))"

definition after_receive :: "'j Jsoncpp \<Rightarrow> FrameReader \<Rightarrow> (frame_error, 'j Frame option) result \<times> FrameReader" where
  "after_receive J r =
     (if \<not> r_complete r then
        (if length (r_header_bytes r) < HEADER_SIZE then (Inr None, r)
         else
           (let h = header_from (r_header_bytes r) in
            if unat (m_body_expected h) > MAX_FRAME_BODY then (Inl (AnnouncedBody (m_body_expected h)), r)
            else if unat (m_fds_expected h) > MAX_FRAME_FDS then (Inl (AnnouncedFds (m_fds_expected h)), r)
            else
              (let r1 = r\<lparr>r_header := h, r_body := [], r_complete := True\<rparr> in
               if unat (m_body_expected h) > 0 then (Inr None, r1) else finish_frame J r1)))
      else if length (r_body r) < unat (m_body_expected (r_header r)) then (Inr None, r)
      else finish_frame J r)"

lemma after_receive_wants:
  "wanted r = 0 \<Longrightarrow> (Inr x, r1) = after_receive J r \<Longrightarrow> 0 < wanted r1"
  by (auto simp: after_receive_def finish_frame_def wanted_def newReader_def HEADER_SIZE_def Let_def split: if_splits option.splits)

text \<open>The loop over one call; without further outcomes the socket has nothing to read.\<close>

function read_loop ::
  "'j Jsoncpp \<Rightarrow> recv_outcome list \<Rightarrow> 'j Frame list \<Rightarrow> FrameReader \<Rightarrow> wire \<Rightarrow> (frame_error, 'j Frame list) result \<times> FrameReader \<times> wire" where
  "read_loop J ocs completed r sock =
     (if wanted r = 0 then
        (case after_receive J r of
           (Inl e, r1) \<Rightarrow> (Inl e, r1, sock)
         | (Inr None, r1) \<Rightarrow> read_loop J ocs completed r1 sock
         | (Inr (Some f), r1) \<Rightarrow> read_loop J ocs (completed @ [f]) r1 sock)
      else
        (case ocs of
           [] \<Rightarrow> (Inr completed, r, sock)
         | RecvInterrupted # ocs1 \<Rightarrow> read_loop J ocs1 completed r sock
         | RecvBlocked # ocs1 \<Rightarrow> (Inr completed, r, sock)
         | RecvFailed # ocs1 \<Rightarrow> (Inl ReadFailed, r, sock)
         | RecvClosed # ocs1 \<Rightarrow> (Inr completed, r\<lparr>r_eof := True\<rparr>, sock)
         | Arrives n # ocs1 \<Rightarrow>
             (let k = min n (min (wanted r) (length sock)); fds = concat (map snd (take k sock)) in
              if k = 0 then (Inr completed, r, sock)
              else if length fds > MAX_FRAME_FDS then (Inl TruncatedFds, r, drop k sock)
              else
                (case after_receive J (take_in (map fst (take k sock)) fds r) of
                   (Inl e, r1) \<Rightarrow> (Inl e, r1, drop k sock)
                 | (Inr None, r1) \<Rightarrow> read_loop J ocs1 completed r1 (drop k sock)
                 | (Inr (Some f), r1) \<Rightarrow> read_loop J ocs1 (completed @ [f]) r1 (drop k sock)))))"
  by pat_completeness auto

termination
  by (relation "measure (\<lambda>(J, ocs, completed, r, sock). 2 * length ocs + (if wanted r = 0 then 1 else 0))")
    (auto dest: after_receive_wants)

declare read_loop.simps [simp del]

definition read :: "'j Jsoncpp \<Rightarrow> recv_outcome list \<Rightarrow> FrameReader \<Rightarrow> wire \<Rightarrow> (frame_error, 'j Frame list) result \<times> FrameReader \<times> wire" where
  "read J ocs r sock = read_loop J ocs [] r sock"

text \<open>
  Waiting for one frame.  Each round is a read, the time after it and the answer of the poll; a
  frame that arrives together with the first one is lost with the reader.
\<close>

datatype poll_outcome = PollReady | PollInterrupted | PollTimeout | PollBroken

fun blocking_rounds ::
  "'j Jsoncpp \<Rightarrow> int \<Rightarrow> (recv_outcome list \<times> int \<times> poll_outcome) list \<Rightarrow> FrameReader \<Rightarrow> wire \<Rightarrow> (frame_error, 'j Frame) result option \<times> wire" where
  "blocking_rounds J deadline [] r sock = (None, sock)"
| "blocking_rounds J deadline ((ocs, now, ready) # rounds) r sock =
     (case read J ocs r sock of
        (Inl e, r1, sock1) \<Rightarrow> (Some (Inl e), sock1)
      | (Inr (f # fs), r1, sock1) \<Rightarrow> (Some (Inr f), sock1)
      | (Inr [], r1, sock1) \<Rightarrow>
          if r_eof r1 then (Some (Inl PeerClosed), sock1)
          else if now \<ge> deadline then (Some (Inl TimedOut), sock1)
          else (case ready of
              PollInterrupted \<Rightarrow> blocking_rounds J deadline rounds r1 sock1
            | PollReady \<Rightarrow> blocking_rounds J deadline rounds r1 sock1
            | PollBroken \<Rightarrow> (Some (Inl PollFailed), sock1)
            | PollTimeout \<Rightarrow> (Some (Inl TimedOut), sock1)))"

definition readFrameBlocking ::
  "'j Jsoncpp \<Rightarrow> int \<Rightarrow> (recv_outcome list \<times> int \<times> poll_outcome) list \<Rightarrow> wire \<Rightarrow> (frame_error, 'j Frame) result option \<times> wire" where
  "readFrameBlocking J deadline rounds sock = blocking_rounds J deadline rounds newReader sock"

section \<open>What a writer puts on the socket\<close>

definition frame_wire :: "'j Jsoncpp \<Rightarrow> 'j Frame \<Rightarrow> wire" where
  "frame_wire J f = attach (fr_fds f)
     (wire_header \<lparr>m_body_expected = of_nat (length (j_write J (fr_body f))), m_fds_expected = of_nat (length (fr_fds f))\<rparr> @ j_write J (fr_body f))"

definition pending_wire :: "Pending \<Rightarrow> wire" where
  "pending_wire p = attach (if p_sent p = 0 then p_fds p else []) (drop (p_sent p) (p_buffer p))"

definition pending_ok :: "Pending \<Rightarrow> bool" where
  "pending_ok p \<longleftrightarrow> p_sent p < length (p_buffer p) \<and> HEADER_SIZE \<le> length (p_buffer p) \<and> (0 < p_sent p \<longrightarrow> p_fds p = [])"

lemma attach_nil: "attach [] bs = map (\<lambda>b. (b, [])) bs"
  by (cases bs) simp_all

lemma attach_append: "attach fds (xs @ ys) = attach fds xs @ attach (if xs = [] then fds else []) ys"
  by (cases xs) (simp_all add: attach_nil)

lemma attach_fst [simp]: "map fst (attach fds bs) = bs"
  by (cases bs) (simp_all add: o_def)

lemma length_attach [simp]: "length (attach fds bs) = length bs"
  by (cases bs) simp_all

lemma attach_snd: "bs \<noteq> [] \<Longrightarrow> concat (map snd (attach fds bs)) = fds"
  by (cases bs) (simp_all add: o_def)

lemma wire_header_length [simp]: "length (wire_header h) = HEADER_SIZE"
  by (simp add: wire_header_def appendPod32_def HEADER_SIZE_def)

lemma send_some_conserves:
  assumes "pending_ok p" and "send_some n p = (out, p1)"
  shows "pending_wire p = out @ pending_wire p1" and "p_sent p1 < length (p_buffer p1) \<Longrightarrow> pending_ok p1"
    and "length (p_buffer p1) \<le> p_sent p1 \<Longrightarrow> pending_wire p1 = []"
proof -
  let ?d = "drop (p_sent p) (p_buffer p)"
  define with_fds where "with_fds = (p_sent p = 0 \<and> p_fds p \<noteq> [])"
  define written where "written = min n (if with_fds then HEADER_SIZE else length (p_buffer p) - p_sent p)"
  have out: "out = attach (if with_fds then p_fds p else []) (take written ?d)"
    "p1 = p\<lparr>p_fds := (if written > 0 then [] else p_fds p), p_sent := p_sent p + written\<rparr>"
    using assms(2) [unfolded send_some_def Let_def, folded with_fds_def, folded written_def] by (simp_all only: prod.inject)
  have ne: "take written ?d = [] \<longleftrightarrow> written = 0" using assms(1) by (auto simp: pending_ok_def)
  have "pending_wire p = attach (if with_fds then p_fds p else []) (take written ?d @ drop written ?d)"
    by (simp only: append_take_drop_id) (simp add: pending_wire_def with_fds_def)
  also have "\<dots> = out @ attach (if written = 0 then (if with_fds then p_fds p else []) else []) (drop written ?d)"
    by (simp only: attach_append ne out(1))
  also have "attach (if written = 0 then (if with_fds then p_fds p else []) else []) (drop written ?d) = pending_wire p1"
    by (simp add: pending_wire_def out(2) with_fds_def add.commute)
  finally show "pending_wire p = out @ pending_wire p1" .
  show "p_sent p1 < length (p_buffer p1) \<Longrightarrow> pending_ok p1" "length (p_buffer p1) \<le> p_sent p1 \<Longrightarrow> pending_wire p1 = []"
    using assms(1) by (auto simp: out(2) pending_ok_def pending_wire_def)
qed

lemma drain_conserves:
  "drain q ocs = (res, q1, sent) \<Longrightarrow> list_all pending_ok q \<Longrightarrow>
   concat (map pending_wire q) = sent @ concat (map pending_wire q1) \<and> list_all pending_ok q1 \<and>
   (res = Inr True \<longrightarrow> q1 = []) \<and> (res = Inl e \<longrightarrow> e = WriteFailed)"
proof (induction q ocs arbitrary: sent rule: drain.induct)
  case (6 p q n ocs)
  obtain out p1 where s: "send_some n p = (out, p1)" by (cases "send_some n p")
  define q' where "q' = (if p_sent p1 \<ge> length (p_buffer p1) then q else p1 # q)"
  obtain sent' where d: "drain q' ocs = (res, q1, sent')" "sent = out @ sent'"
    using "6.prems"(1) by (auto simp: s q'_def split: prod.splits)
  have ok: "pending_ok p" "list_all pending_ok q" using "6.prems"(2) by simp_all
  note piece = send_some_conserves [OF ok(1) s]
  have "list_all pending_ok q'" "concat (map pending_wire (p1 # q)) = concat (map pending_wire q')"
    using ok(2) piece(2,3) unfolding q'_def by auto
  moreover have "concat (map pending_wire q') = sent' @ concat (map pending_wire q1) \<and> list_all pending_ok q1 \<and>
      (res = Inr True \<longrightarrow> q1 = []) \<and> (res = Inl e \<longrightarrow> e = WriteFailed)"
    using "6.IH" [OF s [symmetric]] d(1) calculation(1) unfolding q'_def by simp
  ultimately show ?case using piece(1) d(2) by simp
qed auto

lemma enqueue_wire:
  assumes "enqueue J dup body fds q = Inr q1"
  shows "concat (map pending_wire q1) = concat (map pending_wire q) @ frame_wire J \<lparr>fr_body = body, fr_fds = map (the \<circ> dup) fds\<rparr>"
    and "list_all pending_ok q \<Longrightarrow> list_all pending_ok q1"
    and "length fds \<le> MAX_FRAME_FDS" and "length (j_write J body) \<le> MAX_FRAME_BODY"
  using assms by (auto simp: enqueue_def Let_def pending_wire_def frame_wire_def pending_ok_def HEADER_SIZE_def split: if_splits)

section \<open>What a reader makes of it\<close>

definition frame_ok :: "'j Jsoncpp \<Rightarrow> 'j Frame \<Rightarrow> bool" where
  "frame_ok J f \<longleftrightarrow> length (fr_fds f) \<le> MAX_FRAME_FDS \<and> length (j_write J (fr_body f)) \<le> MAX_FRAME_BODY \<and>
     j_parse J (j_write J (fr_body f)) = Some (fr_body f)"

definition frame_header :: "'j Jsoncpp \<Rightarrow> 'j Frame \<Rightarrow> Header" where
  "frame_header J f = \<lparr>m_body_expected = of_nat (length (j_write J (fr_body f))), m_fds_expected = of_nat (length (fr_fds f))\<rparr>"

text \<open>A reader that has received the part \<open>cur\<close> of a frame.\<close>

definition reader_holds :: "FrameReader \<Rightarrow> wire \<Rightarrow> bool" where
  "reader_holds r cur \<longleftrightarrow> r_pending r = concat (map snd cur) \<and>
     (if r_complete r
      then map fst cur = r_header_bytes r @ r_body r \<and> length (r_header_bytes r) = HEADER_SIZE \<and>
        r_header r = header_from (r_header_bytes r) \<and> length (r_body r) < unat (m_body_expected (r_header r))
      else map fst cur = r_header_bytes r \<and> length cur < HEADER_SIZE)"

lemma header_reads: "header_from (wire_header h) = h"
  using u32_less [of "m_body_expected h"] u32_less [of "m_fds_expected h"]
  by (cases h) (simp add: header_from_def wire_header_def appendPod32_def le_val_le_bytes)

lemma frame_header_values:
  assumes "frame_ok J f"
  shows "unat (m_body_expected (frame_header J f)) = length (j_write J (fr_body f))"
    and "unat (m_fds_expected (frame_header J f)) = length (fr_fds f)"
  using assms by (simp_all add: frame_header_def frame_ok_def MAX_FRAME_BODY_def MAX_FRAME_FDS_def unat_of_nat)

lemma frame_wire_parts:
  "map fst (frame_wire J f) = wire_header (frame_header J f) @ j_write J (fr_body f)" (is ?bytes)
  "concat (map snd (frame_wire J f)) = fr_fds f"
  "length (frame_wire J f) = HEADER_SIZE + length (j_write J (fr_body f))"
proof -
  show ?bytes by (simp add: frame_wire_def frame_header_def)
  have "wire_header (frame_header J f) \<noteq> []" using wire_header_length [of "frame_header J f"] by (metis HEADER_SIZE_def list.size(3) zero_neq_numeral)
  then show "concat (map snd (frame_wire J f)) = fr_fds f" by (simp add: frame_wire_def attach_snd frame_header_def)
  show "length (frame_wire J f) = HEADER_SIZE + length (j_write J (fr_body f))" by (simp add: frame_wire_def)
qed

lemma reader_holds_wants: "reader_holds r cur \<Longrightarrow> 0 < wanted r"
  by (auto simp: reader_holds_def wanted_def HEADER_SIZE_def split: if_splits dest: arg_cong [of _ _ length])

lemma newReader_holds: "reader_holds (newReader\<lparr>r_eof := b\<rparr>) []"
  by (simp add: reader_holds_def newReader_def HEADER_SIZE_def)

lemma holds_length: "reader_holds r cur \<Longrightarrow> r_complete r \<Longrightarrow> length cur = HEADER_SIZE + length (r_body r)"
  unfolding reader_holds_def by (metis length_append length_map)

lemma holds_header:
  assumes "reader_holds r cur" and "r_complete r" and "cur @ x = frame_wire J f @ y"
  shows "r_header_bytes r = wire_header (frame_header J f)" and "r_header r = frame_header J f"
proof -
  have "take HEADER_SIZE (map fst (cur @ x)) = take HEADER_SIZE (map fst (frame_wire J f @ y))" using assms(3) by simp
  then show h: "r_header_bytes r = wire_header (frame_header J f)"
    using assms(1,2) holds_length [OF assms(1,2)] by (simp add: reader_holds_def frame_wire_parts(1))
  then show "r_header r = frame_header J f" using assms(1,2) by (simp add: reader_holds_def header_reads)
qed

lemma holds_proper:
  assumes "reader_holds r cur" and "frame_ok J f" and "cur @ x = frame_wire J f @ y"
  shows "length cur < length (frame_wire J f)"
proof (cases "r_complete r")
  case True
  show ?thesis using assms(1) True holds_length [OF assms(1) True] holds_header(2) [OF assms(1) True assms(3)] frame_header_values [OF assms(2)]
    by (simp add: reader_holds_def frame_wire_parts(3))
next
  case False
  then show ?thesis using assms(1) by (simp add: reader_holds_def frame_wire_parts(3))
qed

lemma finish_frame_ok:
  assumes "frame_ok J f" and "r_header r = frame_header J f" and "r_body r = j_write J (fr_body f)" and "r_pending r = fr_fds f"
  shows "finish_frame J r = (Inr (Some f), newReader\<lparr>r_eof := r_eof r\<rparr>)"
  using assms frame_header_values(2) [OF assms(1)] by (cases f) (simp add: finish_frame_def frame_ok_def)

text \<open>One receive inside a frame extends what the reader holds or completes the frame.\<close>

lemma receive_step:
  assumes ok: "frame_ok J f" and holds: "reader_holds r cur" and wire: "frame_wire J f = cur @ piece @ tail"
    and len: "length piece \<le> wanted r"
  shows "case after_receive J (take_in (map fst piece) (concat (map snd piece)) r) of
      (Inl e, r1) \<Rightarrow> False
    | (Inr None, r1) \<Rightarrow> reader_holds r1 (cur @ piece)
    | (Inr (Some g), r1) \<Rightarrow> g = f \<and> tail = [] \<and> reader_holds r1 []"
proof -
  let ?r = "take_in (map fst piece) (concat (map snd piece)) r"
  let ?h = "frame_header J f" and ?p = "j_write J (fr_body f)"
  note vals = frame_header_values [OF ok]
  have pend: "r_pending ?r = concat (map snd (cur @ piece))" "r_eof ?r = r_eof r"
    using holds by (simp_all add: take_in_def reader_holds_def Let_def)
  have bytes: "map fst (cur @ piece) @ map fst tail = wire_header ?h @ ?p"
    using frame_wire_parts(1) [of J f] wire by simp
  have all_fds: "tail = [] \<Longrightarrow> concat (map snd (cur @ piece)) = fr_fds f" using frame_wire_parts(2) [of J f] wire by simp
  have limits: "unat (m_body_expected ?h) \<le> MAX_FRAME_BODY" "unat (m_fds_expected ?h) \<le> MAX_FRAME_FDS"
    using ok vals by (simp_all add: frame_ok_def)
  show ?thesis
  proof (cases "r_complete r")
    case False
    have "length (r_header_bytes r) = length cur" using False holds unfolding reader_holds_def by (metis length_map)
    with False have r: "\<not> r_complete ?r" "r_header_bytes ?r = map fst (cur @ piece)" and short: "length (cur @ piece) \<le> HEADER_SIZE"
      using holds len by (auto simp: take_in_def reader_holds_def wanted_def Let_def)
    show ?thesis
    proof (cases "length (cur @ piece) < HEADER_SIZE")
      case True
      then show ?thesis using r pend by (simp add: after_receive_def reader_holds_def)
    next
      case False
      with short have "length (map fst (cur @ piece)) = length (wire_header ?h)" by simp
      then have full: "map fst (cur @ piece) = wire_header ?h" "map fst tail = ?p"
        using bytes append_eq_append_conv [of "map fst (cur @ piece)" "wire_header ?h"] by blast+
      have a: "after_receive J ?r = (let r1 = ?r\<lparr>r_header := ?h, r_body := [], r_complete := True\<rparr> in
          if unat (m_body_expected ?h) > 0 then (Inr None, r1) else finish_frame J r1)"
        using r(1) limits unfolding after_receive_def r(2) full(1) by (simp add: header_reads Let_def)
      show ?thesis
      proof (cases "?p = []")
        case True
        then have "tail = []" using full(2) by simp
        then have "finish_frame J (?r\<lparr>r_header := ?h, r_body := [], r_complete := True\<rparr>) = (Inr (Some f), newReader\<lparr>r_eof := r_eof r\<rparr>)"
          using finish_frame_ok [OF ok, of "?r\<lparr>r_header := ?h, r_body := [], r_complete := True\<rparr>"] True pend all_fds by simp
        then show ?thesis using a True vals(1) \<open>tail = []\<close> newReader_holds by simp
      next
        case False
        then show ?thesis using a vals(1) pend(1) r(2) full(1) by (simp add: Let_def reader_holds_def header_reads)
      qed
    qed
  next
    case True
    note head = holds_header [of r cur "piece @ tail" J f "[]", OF holds True, simplified, OF wire [symmetric]]
    have r: "r_complete ?r" "r_header ?r = ?h" "r_body ?r = r_body r @ map fst piece" "r_header_bytes ?r = wire_header ?h"
      using True head by (simp_all add: take_in_def Let_def)
    have "map fst cur = wire_header ?h @ r_body r" using holds True head by (simp add: reader_holds_def)
    then have body: "(r_body r @ map fst piece) @ map fst tail = ?p" and cur: "map fst (cur @ piece) = wire_header ?h @ r_body ?r"
      using bytes r(3) by simp_all
    show ?thesis
    proof (cases "tail = []")
      case True
      then have "finish_frame J ?r = (Inr (Some f), newReader\<lparr>r_eof := r_eof r\<rparr>)"
        using finish_frame_ok [OF ok r(2)] body r(3) pend all_fds by simp
      then show ?thesis using r body True vals(1) newReader_holds by (simp add: after_receive_def)
    next
      case False
      then have "0 < length tail" by simp
      then have "length (r_body ?r) < length ?p" using arg_cong [OF body, of length] r(3) by (simp del: length_greater_0_conv)
      then show ?thesis using r pend cur vals(1) by (simp add: after_receive_def reader_holds_def header_reads)
    qed
  qed
qed

lemma next_piece:
  assumes "cur @ sock @ later = frame_wire J f @ others" and "length cur < length (frame_wire J f)"
    and "k \<le> length (frame_wire J f) - length cur" and "k \<le> length sock"
  shows "frame_wire J f = cur @ take k sock @ drop (length cur + k) (frame_wire J f)"
proof -
  have "take (length cur + k) (frame_wire J f @ others) = cur @ take k sock"
    using arg_cong [OF assms(1) [symmetric], of "take (length cur + k)"] assms(4) by simp
  then have "take (length cur + k) (frame_wire J f) = cur @ take k sock" using assms(2,3) by simp
  then show ?thesis by (metis append_assoc append_take_drop_id)
qed

lemma wanted_inside:
  assumes "reader_holds r cur" and "frame_ok J f" and "cur @ x = frame_wire J f @ y"
  shows "wanted r \<le> length (frame_wire J f) - length cur"
proof (cases "r_complete r")
  case True
  then show ?thesis using holds_length [OF assms(1) True] holds_header(2) [OF assms(1) True assms(3)] frame_header_values(1) [OF assms(2)]
    by (simp add: wanted_def frame_wire_parts(3))
next
  case False
  have "length (r_header_bytes r) = length cur" using False assms(1) unfolding reader_holds_def by (metis length_map)
  then show ?thesis using False by (simp add: wanted_def frame_wire_parts(3))
qed

lemma read_loop_arrives:
  assumes "wanted r \<noteq> 0" and "k = min n (min (wanted r) (length sock))" and "k \<noteq> 0" and "length (concat (map snd (take k sock))) \<le> MAX_FRAME_FDS"
  shows "read_loop J (Arrives n # ocs) completed r sock =
    (case after_receive J (take_in (map fst (take k sock)) (concat (map snd (take k sock))) r) of
       (Inl e, r1) \<Rightarrow> (Inl e, r1, drop k sock)
     | (Inr None, r1) \<Rightarrow> read_loop J ocs completed r1 (drop k sock)
     | (Inr (Some f), r1) \<Rightarrow> read_loop J ocs (completed @ [f]) r1 (drop k sock))"
  using assms(1,3,4) by (subst read_loop.simps) (simp add: assms(2) [symmetric] Let_def)

lemma arrival:
  assumes "list_all (frame_ok J) rest" and holds: "reader_holds r cur" and wire: "concat (map (frame_wire J) rest) = cur @ sock @ later"
    and k: "0 < k" "k \<le> wanted r" "k \<le> length sock"
  shows "length (concat (map snd (take k sock))) \<le> MAX_FRAME_FDS"
    and "case after_receive J (take_in (map fst (take k sock)) (concat (map snd (take k sock))) r) of
        (Inl e, r1) \<Rightarrow> False
      | (Inr None, r1) \<Rightarrow> reader_holds r1 (cur @ take k sock)
      | (Inr (Some g), r1) \<Rightarrow> reader_holds r1 [] \<and>
          (\<exists>others. rest = g # others \<and> concat (map (frame_wire J) others) = drop k sock @ later)"
proof -
  have "sock \<noteq> []" using k by auto
  then obtain f others where rest: "rest = f # others" using wire by (cases rest) auto
  have f: "frame_ok J f" using assms(1) rest by simp
  have w: "cur @ sock @ later = frame_wire J f @ concat (map (frame_wire J) others)" using wire rest by simp
  let ?p = "take k sock" and ?t = "drop (length cur + k) (frame_wire J f)"
  have piece: "frame_wire J f = cur @ ?p @ ?t"
    using wanted_inside [OF holds f w] k by (intro next_piece [OF w holds_proper [OF holds f w]]) auto
  have "length (concat (map snd ?p)) \<le> length (fr_fds f)"
    using arg_cong [OF piece, of "\<lambda>x. length (concat (map snd x))"] frame_wire_parts(2) [of J f] by simp
  then show "length (concat (map snd ?p)) \<le> MAX_FRAME_FDS" using f by (simp add: frame_ok_def)
  have "cur @ ?p @ (?t @ concat (map (frame_wire J) others)) = cur @ ?p @ (drop k sock @ later)"
    using w piece by (metis append_assoc append_take_drop_id)
  then have tail: "?t @ concat (map (frame_wire J) others) = drop k sock @ later" by simp
  have "length ?p \<le> wanted r" using k by simp
  from receive_step [OF f holds piece this] tail rest
  show "case after_receive J (take_in (map fst ?p) (concat (map snd ?p)) r) of
        (Inl e, r1) \<Rightarrow> False
      | (Inr None, r1) \<Rightarrow> reader_holds r1 (cur @ ?p)
      | (Inr (Some g), r1) \<Rightarrow> reader_holds r1 [] \<and>
          (\<exists>others. rest = g # others \<and> concat (map (frame_wire J) others) = drop k sock @ later)"
    by (auto split: prod.splits sum.splits option.splits)
qed

text \<open>
  A read call on a socket that holds the next part of a stream of frames: it fails only if the
  receive fails, and otherwise returns the next frames of the stream and keeps the part it has of
  the one after.
\<close>

lemma read_loop_delivers:
  "read_loop J ocs completed r sock = (res, r1, sock1) \<Longrightarrow> list_all (frame_ok J) rest \<Longrightarrow> reader_holds r cur \<Longrightarrow>
   concat (map (frame_wire J) rest) = cur @ sock @ later \<Longrightarrow>
   \<exists>got rest1 cur1. rest = got @ rest1 \<and> reader_holds r1 cur1 \<and> concat (map (frame_wire J) rest1) = cur1 @ sock1 @ later \<and>
     (res = Inr (completed @ got) \<or> res = Inl ReadFailed)"
proof (induction J ocs completed r sock arbitrary: rest cur rule: read_loop.induct)
  case (1 J ocs completed r sock)
  note prems = "1.prems" and run = "1.prems"(1) [unfolded read_loop.simps [of J ocs completed r sock]]
  have want: "wanted r \<noteq> 0" using reader_holds_wants [OF prems(3)] by simp
  have stay: "\<exists>got rest1 cur1. rest = got @ rest1 \<and> reader_holds r' cur1 \<and> concat (map (frame_wire J) rest1) = cur1 @ sock @ later \<and>
      (res' = Inr (completed @ got) \<or> res' = Inl ReadFailed)"
    if "res' = Inr completed \<or> res' = Inl ReadFailed" "reader_holds r' cur" for r' and res' :: "(frame_error, _) result"
    using that prems(4) by (intro exI [of _ "[]"] exI [of _ rest] exI [of _ cur]) auto
  have eof: "reader_holds (r\<lparr>r_eof := True\<rparr>) cur" using prems(3) by (auto simp: reader_holds_def)
  show ?case
  proof (cases ocs)
    case Nil
    then show ?thesis using run want stay [of "Inr completed" r] prems(3) by auto
  next
    case (Cons oc ocs1)
    show ?thesis
    proof (cases oc)
      case (Arrives n)
      define k where "k = min n (min (wanted r) (length sock))"
      show ?thesis
      proof (cases "k = 0")
        case True
        then show ?thesis using run want Cons Arrives stay [of "Inr completed" r] prems(3) by (auto simp: k_def Let_def)
      next
        case False
        let ?r = "take_in (map fst (take k sock)) (concat (map snd (take k sock))) r"
        have k: "0 < k" "k \<le> wanted r" "k \<le> length sock" using False by (auto simp: k_def)
        note arr = arrival [OF prems(2-4) k]
        have run': "(case after_receive J ?r of (Inl e, r1) \<Rightarrow> (Inl e, r1, drop k sock)
            | (Inr None, r1) \<Rightarrow> read_loop J ocs1 completed r1 (drop k sock)
            | (Inr (Some f), r1) \<Rightarrow> read_loop J ocs1 (completed @ [f]) r1 (drop k sock)) = (res, r1, sock1)"
          using prems(1) read_loop_arrives [OF want k_def False arr(1), of J ocs1 completed] by (simp add: Cons Arrives)
        have few: "\<not> MAX_FRAME_FDS < length (concat (map snd (take k sock)))" using arr(1) by simp
        note IH = "1.IH" (3,4) [OF want Cons Arrives k_def refl False few]
        obtain a r2 where a: "(a, r2) = after_receive J ?r" by (cases "after_receive J ?r") simp
        show ?thesis
        proof (cases a)
          case (Inl e)
          then show ?thesis using arr(2) a by (simp split: prod.splits)
        next
          case (Inr m)
          show ?thesis
          proof (cases m)
            case None
            have "reader_holds r2 (cur @ take k sock)" "concat (map (frame_wire J) rest) = (cur @ take k sock) @ drop k sock @ later"
              using arr(2) prems(4) by (simp_all add: a [symmetric] Inr None)
            then show ?thesis using IH(1) [OF a Inr None _ prems(2)] run' by (simp add: a [symmetric] Inr None)
          next
            case (Some g)
            then obtain others where o: "rest = g # others" "concat (map (frame_wire J) others) = [] @ drop k sock @ later" "reader_holds r2 []"
              using arr(2) by (auto simp: a [symmetric] Inr)
            have "list_all (frame_ok J) others" "read_loop J ocs1 (completed @ [g]) r2 (drop k sock) = (res, r1, sock1)"
              using prems(2) o(1) run' by (simp_all add: a [symmetric] Inr Some)
            from IH(2) [OF a Inr Some this(2,1) o(3,2)] show ?thesis unfolding o(1) by (metis append.assoc append_Cons append_Nil)
          qed
        qed
      qed
    qed (use run want Cons stay [of "Inr completed" r] stay [of "Inl ReadFailed" r] stay [of "Inr completed" "r\<lparr>r_eof := True\<rparr>"] eof prems "1.IH" in auto)
  qed
qed

section \<open>A channel\<close>

text \<open>The two ends of a socket, with the frames accepted for sending and those returned by reads so far.\<close>

record 'j channel =
  ch_writer :: FrameWriter
  ch_socket :: wire
  ch_reader :: FrameReader
  ch_sent :: "'j Frame list"
  ch_got :: "'j Frame list"

inductive channel_reach :: "'j Jsoncpp \<Rightarrow> (fd \<Rightarrow> fd option) \<Rightarrow> 'j channel \<Rightarrow> bool" for J dup where
  start: "channel_reach J dup \<lparr>ch_writer = [], ch_socket = [], ch_reader = newReader, ch_sent = [], ch_got = []\<rparr>"
| accept: "channel_reach J dup c \<Longrightarrow> enqueue J dup body fds (ch_writer c) = Inr q \<Longrightarrow>
    channel_reach J dup (c\<lparr>ch_writer := q, ch_sent := ch_sent c @ [\<lparr>fr_body = body, fr_fds = map (the \<circ> dup) fds\<rparr>]\<rparr>)"
| flush: "channel_reach J dup c \<Longrightarrow> drain (ch_writer c) ocs = (Inr b, q, out) \<Longrightarrow>
    channel_reach J dup (c\<lparr>ch_writer := q, ch_socket := ch_socket c @ out\<rparr>)"
| receive: "channel_reach J dup c \<Longrightarrow> read J ocs (ch_reader c) (ch_socket c) = (Inr fs, r, sock) \<Longrightarrow>
    channel_reach J dup (c\<lparr>ch_reader := r, ch_socket := sock, ch_got := ch_got c @ fs\<rparr>)"

definition parses_back :: "'j Jsoncpp \<Rightarrow> 'j Frame \<Rightarrow> bool" where
  "parses_back J f \<longleftrightarrow> j_parse J (j_write J (fr_body f)) = Some (fr_body f)"

definition channel_inv :: "'j Jsoncpp \<Rightarrow> 'j channel \<Rightarrow> 'j Frame list \<Rightarrow> wire \<Rightarrow> bool" where
  "channel_inv J c rest cur \<longleftrightarrow> ch_sent c = ch_got c @ rest \<and> list_all (frame_ok J) rest \<and> list_all pending_ok (ch_writer c) \<and>
     reader_holds (ch_reader c) cur \<and>
     concat (map (frame_wire J) rest) = cur @ ch_socket c @ concat (map pending_wire (ch_writer c))"

lemma channel_reach_inv:
  assumes "channel_reach J dup c" and "list_all (parses_back J) (ch_sent c)"
  shows "\<exists>rest cur. channel_inv J c rest cur"
  using assms
proof (induction rule: channel_reach.induct)
  case start
  have "reader_holds newReader []" using newReader_holds [of False] by (simp add: newReader_def)
  then show ?case by (auto simp: channel_inv_def)
next
  case (accept c body fds q)
  let ?f = "\<lparr>fr_body = body, fr_fds = map (the \<circ> dup) fds\<rparr>"
  obtain rest cur where inv: "channel_inv J c rest cur" using accept by auto
  have "frame_ok J ?f" using accept.prems enqueue_wire(3,4) [OF accept.hyps(2)] by (simp add: frame_ok_def parses_back_def)
  then have "channel_inv J (c\<lparr>ch_writer := q, ch_sent := ch_sent c @ [?f]\<rparr>) (rest @ [?f]) cur"
    using inv enqueue_wire(1,2) [OF accept.hyps(2)] by (simp add: channel_inv_def)
  then show ?case by blast
next
  case (flush c ocs b q out)
  obtain rest cur where inv: "channel_inv J c rest cur" using flush by auto
  have "channel_inv J (c\<lparr>ch_writer := q, ch_socket := ch_socket c @ out\<rparr>) rest cur"
    using inv drain_conserves [OF flush.hyps(2)] by (simp add: channel_inv_def)
  then show ?case by blast
next
  case (receive c ocs fs r sock)
  obtain rest cur where "channel_inv J c rest cur" using receive by auto
  then have inv: "ch_sent c = ch_got c @ rest" "list_all (frame_ok J) rest" "reader_holds (ch_reader c) cur"
    "concat (map (frame_wire J) rest) = cur @ ch_socket c @ concat (map pending_wire (ch_writer c))" "list_all pending_ok (ch_writer c)"
    by (simp_all add: channel_inv_def)
  obtain got rest1 cur1 where "rest = got @ rest1" "reader_holds r cur1" "fs = got"
    "concat (map (frame_wire J) rest1) = cur1 @ sock @ concat (map pending_wire (ch_writer c))"
    using read_loop_delivers [OF receive.hyps(2) [unfolded read_def] inv(2-4)] by auto
  then have "channel_inv J (c\<lparr>ch_reader := r, ch_socket := sock, ch_got := ch_got c @ fs\<rparr>) rest1 cur1"
    using inv by (simp add: channel_inv_def)
  then show ?case by blast
qed

text \<open>Enough outcomes empty the queue and the socket.\<close>

lemma drain_all:
  "list_all pending_ok q \<Longrightarrow> length (concat (map pending_wire q)) \<le> n \<Longrightarrow> \<exists>out. drain q (replicate n (Sent (Suc 0))) = (Inr True, [], out)"
proof (induction n arbitrary: q)
  case 0
  then show ?case by (cases q) (auto simp: pending_ok_def pending_wire_def)
next
  case (Suc n)
  show ?case
  proof (cases q)
    case (Cons p q1)
    obtain out p1 where s: "send_some (Suc 0) p = (out, p1)" by (cases "send_some (Suc 0) p")
    have ok: "pending_ok p" "list_all pending_ok q1" using Suc.prems(1) Cons by simp_all
    note piece = send_some_conserves [OF ok(1) s]
    define q' where "q' = (if p_sent p1 \<ge> length (p_buffer p1) then q1 else p1 # q1)"
    have "length out = 1" using s ok(1) by (auto simp: send_some_def pending_ok_def HEADER_SIZE_def Let_def min_def split: if_splits)
    then have "length (concat (map pending_wire q')) \<le> n" "list_all pending_ok q'"
      using Suc.prems(2) piece ok(2) unfolding Cons q'_def by auto
    then obtain out1 where "drain q' (replicate n (Sent (Suc 0))) = (Inr True, [], out1)" using Suc.IH by blast
    then show ?thesis by (simp add: Cons s q'_def)
  qed simp
qed

lemma read_all:
  assumes "list_all (frame_ok J) rest" and "reader_holds r cur" and "concat (map (frame_wire J) rest) = cur @ sock @ later" and "length sock \<le> n"
  shows "\<exists>fs r1. read_loop J (replicate n (Arrives (Suc 0))) completed r sock = (Inr fs, r1, [])"
  using assms
proof (induction n arbitrary: rest r cur sock completed)
  case 0
  then show ?case using reader_holds_wants [OF "0.prems"(2)] by (simp add: read_loop.simps)
next
  case (Suc n)
  have want: "wanted r \<noteq> 0" using reader_holds_wants [OF Suc.prems(2)] by simp
  show ?case
  proof (cases "sock = []")
    case True
    then show ?thesis using want by (simp add: read_loop.simps)
  next
    case False
    have k: "0 < Suc 0" "Suc 0 \<le> wanted r" "Suc 0 \<le> length sock" "Suc 0 = min (Suc 0) (min (wanted r) (length sock))" "Suc 0 \<noteq> 0"
      using want False by (cases sock; auto)+
    note arr = arrival [OF Suc.prems(1-3) k(1-3)]
    let ?r = "take_in (map fst (take (Suc 0) sock)) (concat (map snd (take (Suc 0) sock))) r"
    have run: "read_loop J (replicate (Suc n) (Arrives (Suc 0))) completed r sock =
        (case after_receive J ?r of (Inl e, r1) \<Rightarrow> (Inl e, r1, drop (Suc 0) sock)
         | (Inr None, r1) \<Rightarrow> read_loop J (replicate n (Arrives (Suc 0))) completed r1 (drop (Suc 0) sock)
         | (Inr (Some f), r1) \<Rightarrow> read_loop J (replicate n (Arrives (Suc 0))) (completed @ [f]) r1 (drop (Suc 0) sock))"
      using read_loop_arrives [OF want k(4,5) arr(1)] by simp
    have w: "concat (map (frame_wire J) rest) = (cur @ take (Suc 0) sock) @ drop (Suc 0) sock @ later" using Suc.prems(3) by simp
    have n: "length (drop (Suc 0) sock) \<le> n" using Suc.prems(4) by simp
    obtain a r2 where a: "after_receive J ?r = (a, r2)" by (cases "after_receive J ?r")
    consider "a = Inr None" "reader_holds r2 (cur @ take (Suc 0) sock)"
      | g others where "a = Inr (Some g)" "reader_holds r2 []" "rest = g # others" "concat (map (frame_wire J) others) = [] @ drop (Suc 0) sock @ later"
      using arr(2) unfolding a by (auto split: sum.splits option.splits)
    then show ?thesis
    proof cases
      case 1
      then show ?thesis using Suc.IH [OF Suc.prems(1) 1(2) w n] run a by simp
    next
      case (2 g others)
      then show ?thesis using Suc.IH [of others r2 "[]" "drop (Suc 0) sock" "completed @ [g]"] Suc.prems(1) n run a by simp
    qed
  qed
qed

text \<open>
  C12. The framing is a reliable, ordered channel.  Whatever pieces the two ends send and receive and
  however enqueueing, draining and reading interleave, the frames the reader has returned are a
  prefix of those accepted for sending, with bodies and descriptors intact; a read fails only if the
  receive itself does; and from every such state, writing and reading on delivers all of them.
\<close>

theorem channel_delivers:
  assumes "channel_reach J dup c" and "list_all (parses_back J) (ch_sent c)"
    and "length (concat (map pending_wire (ch_writer c))) \<le> n" and "length (ch_socket c) + length (concat (map pending_wire (ch_writer c))) \<le> m"
  shows "take (length (ch_got c)) (ch_sent c) = ch_got c \<and>
    (case read J ocs (ch_reader c) (ch_socket c) of (Inl e, r, sock) \<Rightarrow> e = ReadFailed | (Inr fs, r, sock) \<Rightarrow> True) \<and>
    (\<exists>out fs r. drain (ch_writer c) (replicate n (Sent (Suc 0))) = (Inr True, [], out) \<and>
      read J (replicate m (Arrives (Suc 0))) (ch_reader c) (ch_socket c @ out) = (Inr fs, r, []) \<and> ch_got c @ fs = ch_sent c)"
proof -
  obtain rest cur where inv: "channel_inv J c rest cur" using channel_reach_inv [OF assms(1,2)] by blast
  then have ok: "list_all (frame_ok J) rest" "reader_holds (ch_reader c) cur" "list_all pending_ok (ch_writer c)" "ch_sent c = ch_got c @ rest"
    and wire: "concat (map (frame_wire J) rest) = cur @ ch_socket c @ concat (map pending_wire (ch_writer c))" by (simp_all add: channel_inv_def)
  obtain out where d: "drain (ch_writer c) (replicate n (Sent (Suc 0))) = (Inr True, [], out)" using drain_all [OF ok(3) assms(3)] by blast
  have out: "out = concat (map pending_wire (ch_writer c))" using drain_conserves [OF d ok(3)] by simp
  have all: "concat (map (frame_wire J) rest) = cur @ (ch_socket c @ out) @ []" using wire out by simp
  obtain fs r where r: "read_loop J (replicate m (Arrives (Suc 0))) [] (ch_reader c) (ch_socket c @ out) = (Inr fs, r, [])"
    using read_all [OF ok(1,2) all, of m "[]"] assms(4) out by auto
  obtain rest1 cur1 where rest: "rest = fs @ rest1" "reader_holds r cur1" "concat (map (frame_wire J) rest1) = cur1"
    using read_loop_delivers [OF r ok(1,2) all] by auto
  have "rest1 = []"
  proof (rule ccontr)
    assume "rest1 \<noteq> []"
    then obtain f others where f: "rest1 = f # others" by (cases rest1) auto
    then have "length cur1 < length (frame_wire J f)" using ok(1) rest by (intro holds_proper [OF rest(2), of J f "[]" "concat (map (frame_wire J) others)"]) auto
    then show False using rest(3) f by auto
  qed
  moreover have "case read J ocs (ch_reader c) (ch_socket c) of (Inl e, r, sock) \<Rightarrow> e = ReadFailed | (Inr fs, r, sock) \<Rightarrow> True"
  proof -
    obtain res r1 s1 where run: "read_loop J ocs [] (ch_reader c) (ch_socket c) = (res, r1, s1)" by (metis prod_cases3)
    show ?thesis using read_loop_delivers [OF run ok(1,2) wire] by (auto simp: read_def run split: sum.splits)
  qed
  ultimately show ?thesis using d r rest(1) ok(4) by (auto simp: read_def)
qed

definition demo_queue :: FrameWriter where
  "demo_queue = [\<lparr>p_buffer = [2, 0, 0, 0, 1, 0, 0, 0, 123, 125], p_fds = [17], p_sent = 0\<rparr>]"

definition demo_channel :: "json_tree channel" where
  "demo_channel = \<lparr>ch_writer = [\<lparr>p_buffer = [2, 0, 0, 0, 1, 0, 0, 0, 123, 125], p_fds = [], p_sent = 3\<rparr>],
     ch_socket = [(0, [])], ch_reader = newReader\<lparr>r_header_bytes := [2, 0], r_pending := [17]\<rparr>,
     ch_sent = [\<lparr>fr_body = JNull, fr_fds = [17]\<rparr>], ch_got = []\<rparr>"

lemma demo_channel_reached: "channel_reach (json_trees JNull) (\<lambda>fd. Some (fd + 10)) demo_channel"
proof -
  let ?J = "json_trees JNull" and ?dup = "\<lambda>fd. Some (fd + 10)"
  let ?c0 = "\<lparr>ch_writer = [], ch_socket = [], ch_reader = newReader, ch_sent = [], ch_got = []\<rparr> :: json_tree channel"
  let ?c1 = "?c0\<lparr>ch_writer := demo_queue, ch_sent := [\<lparr>fr_body = JNull, fr_fds = [17]\<rparr>]\<rparr>"
  let ?c2 = "?c1\<lparr>ch_writer := ch_writer demo_channel, ch_socket := [(2, [17]), (0, []), (0, [])]\<rparr>"
  have bytes: "le_bytes 4 2 = [2, 0, 0, 0]" "le_bytes 4 (Suc 0) = [1, 0, 0, 0]" by code_simp+
  have "channel_reach ?J ?dup (?c0\<lparr>ch_writer := demo_queue, ch_sent := ch_sent ?c0 @ [\<lparr>fr_body = JNull, fr_fds = map (the \<circ> ?dup) [7]\<rparr>]\<rparr>)"
    by (rule channel_reach.accept [OF channel_reach.start])
      (simp add: enqueue_def MAX_FRAME_FDS_def MAX_FRAME_BODY_def json_trees_def demo_queue_def wire_header_def appendPod32_def bytes Let_def)
  then have c1: "channel_reach ?J ?dup ?c1" by simp
  have d: "drain (ch_writer ?c1) [SendInterrupted, Sent 3] = (Inr False, ch_writer demo_channel, [(2, [17]), (0, []), (0, [])])" by code_simp
  have c2: "channel_reach ?J ?dup ?c2" using channel_reach.flush [OF c1 d] by simp
  have "read ?J [Arrives 2] (ch_reader ?c2) (ch_socket ?c2) = (Inr [], ch_reader demo_channel, ch_socket demo_channel)"
    by (simp add: read_def read_loop.simps wanted_def newReader_def HEADER_SIZE_def MAX_FRAME_FDS_def take_in_def after_receive_def
      demo_channel_def Let_def numeral_2_eq_2)
  from channel_reach.receive [OF c2 this] show ?thesis by (simp add: demo_channel_def)
qed

lemma channel_delivers_witness:
  "\<exists>out r. drain (ch_writer demo_channel) (replicate 7 (Sent (Suc 0))) = (Inr True, [], out) \<and>
     read (json_trees JNull) (replicate 8 (Arrives (Suc 0))) (ch_reader demo_channel) (ch_socket demo_channel @ out) =
       (Inr [\<lparr>fr_body = JNull, fr_fds = [17]\<rparr>], r, [])"
proof -
  have ok: "list_all (parses_back (json_trees JNull)) (ch_sent demo_channel)" by code_simp
  have n: "length (concat (map pending_wire (ch_writer demo_channel))) \<le> 7"
    "length (ch_socket demo_channel) + length (concat (map pending_wire (ch_writer demo_channel))) \<le> 8" by code_simp+
  have "ch_got demo_channel = []" "ch_sent demo_channel = [\<lparr>fr_body = JNull, fr_fds = [17]\<rparr>]" by (simp_all add: demo_channel_def)
  then show ?thesis using channel_delivers [OF demo_channel_reached ok n] by auto
qed

end
