(* ===== verification/Ptr_Definitions.thy ===== *)
theory Ptr_Definitions
  imports Byte_Codec
begin

text \<open>
  The definition store of the PTR compactor (\<^verbatim>\<open>ptr-core/src/DefinitionStore.cpp\<close>): hashes in
  32-byte slots addressed by their id, tags in a blob with an index of offsets and lengths.
  A file is its bytes; a write beyond the end fills the gap with zeros, as sparse files read.
  Failing system calls are not modelled.  The locale \<open>id_table\<close> is what the store promises:
  an id reads back its last definition.
\<close>

section \<open>Files\<close>

definition writeAt :: "byte list \<Rightarrow> nat \<Rightarrow> byte list \<Rightarrow> byte list" where
  "writeAt data offset f =
     (let g = f @ replicate (offset + length data - length f) 0 in
      take offset g @ data @ drop (offset + length data) g)"

text \<open>
  The write loop: \<open>wrote\<close> is what the successive calls of \<open>pwrite\<close> return, each call storing
  that many bytes of what is left.
\<close>

datatype store_error = BlobTooLarge | WriteFailed

fun writeAt_loop :: "int list \<Rightarrow> byte list \<Rightarrow> nat \<Rightarrow> byte list \<Rightarrow> (store_error, byte list) result" where
  "writeAt_loop wrote data offset f =
     (if data = [] then Inr f
      else case wrote of
        [] \<Rightarrow> Inl WriteFailed
      | r # rest \<Rightarrow>
          if r \<le> 0 then Inl WriteFailed
          else writeAt_loop rest (drop (nat r) data) (offset + nat r) (writeAt (take (nat r) data) offset f))"

declare writeAt_loop.simps [simp del]

record TagIndexEntry =
  te_offset :: u32
  te_length :: u32

definition entry_bytes :: "TagIndexEntry \<Rightarrow> byte list" where
  "entry_bytes e = appendPod32 (te_offset e) @ appendPod32 (te_length e)"

definition entry_of_bytes :: "byte list \<Rightarrow> TagIndexEntry" where
  "entry_of_bytes bs = \<lparr>te_offset = of_nat (le_val (take 4 bs)), te_length = of_nat (le_val (take 4 (drop 4 bs)))\<rparr>"

section \<open>Writing\<close>

record DefinitionWriter =
  hashes_file :: "byte list"
  tag_index_file :: "byte list"
  tag_blob_file :: "byte list"
  blob_offset :: nat
  rejected_hashes :: nat

definition newDefinitionWriter :: DefinitionWriter where
  "newDefinitionWriter = \<lparr>hashes_file = [], tag_index_file = [], tag_blob_file = [], blob_offset = 0, rejected_hashes = 0\<rparr>"

definition writeHash :: "u32 \<Rightarrow> string \<Rightarrow> DefinitionWriter \<Rightarrow> bool \<times> DefinitionWriter" where
  "writeHash i sha256_hex w =
     (case decodeSha256Hex sha256_hex of
        None \<Rightarrow> (False, w\<lparr>rejected_hashes := rejected_hashes w + 1\<rparr>)
      | Some decoded \<Rightarrow> (True, w\<lparr>hashes_file := writeAt decoded (unat i * SHA256_BYTES) (hashes_file w)\<rparr>))"

definition writeTag :: "u32 \<Rightarrow> string \<Rightarrow> DefinitionWriter \<Rightarrow> (store_error, DefinitionWriter) result" where
  "writeTag i tag w =
     (if tag = [] then Inr w
      else if blob_offset w + length tag > 2 ^ 32 - 1 then Inl BlobTooLarge
      else
        (let offset = blob_offset w;
             entry = \<lparr>te_offset = of_nat offset, te_length = of_nat (length tag)\<rparr> in
         Inr (w\<lparr>blob_offset := offset + length tag,
                tag_blob_file := writeAt (text_bytes tag) offset (tag_blob_file w),
                tag_index_file := writeAt (entry_bytes entry) (unat i * 8) (tag_index_file w)\<rparr>)))"

section \<open>Reading\<close>

record DefinitionReader =
  m_hashes :: "byte list"
  m_tag_index :: "byte list"
  m_tag_blob :: "byte list"
  m_defined_tags :: nat

definition tagIdCapacity :: "DefinitionReader \<Rightarrow> u32" where
  "tagIdCapacity r = (let slots = length (m_tag_index r) div 8 in
     if slots > 2 ^ 32 - 1 then of_nat (2 ^ 32 - 1) else of_nat slots)"

definition countDefinedTags :: "byte list \<Rightarrow> nat" where
  "countDefinedTags index =
     length (filter (\<lambda>slot. te_length (entry_of_bytes (take 8 (drop (slot * 8) index))) \<noteq> 0)
       [0..<length index div 8])"

definition openDefinitions :: "DefinitionWriter \<Rightarrow> DefinitionReader" where
  "openDefinitions w = \<lparr>m_hashes = hashes_file w, m_tag_index = tag_index_file w, m_tag_blob = tag_blob_file w,
     m_defined_tags = countDefinedTags (tag_index_file w)\<rparr>"

definition def_hash :: "u32 \<Rightarrow> DefinitionReader \<Rightarrow> byte list option" where
  "def_hash i r =
     (let offset = unat i * SHA256_BYTES in
      if offset + SHA256_BYTES > length (m_hashes r) then None
      else
        (let slot = take SHA256_BYTES (drop offset (m_hashes r)) in
         if list_ex (\<lambda>b. b \<noteq> 0) slot then Some slot else None))"

definition def_tag :: "u32 \<Rightarrow> DefinitionReader \<Rightarrow> string option" where
  "def_tag i r =
     (let offset = unat i * 8 in
      if offset + 8 > length (m_tag_index r) then None
      else
        (let entry = entry_of_bytes (take 8 (drop offset (m_tag_index r))) in
         if te_length entry = 0 then None
         else if unat (te_offset entry) + unat (te_length entry) > length (m_tag_blob r) then None
         else Some (bytes_text (take (unat (te_length entry)) (drop (unat (te_offset entry)) (m_tag_blob r))))))"

section \<open>Slots\<close>

lemma length_writeAt: "length (writeAt d k f) = max (length f) (k + length d)"
  by (auto simp: writeAt_def Let_def)

lemma nth_writeAt:
  assumes "j < max (length f) (k + length d)"
  shows "writeAt d k f ! j = (if k \<le> j \<and> j < k + length d then d ! (j - k) else if j < length f then f ! j else 0)"
  using assms by (auto simp: writeAt_def Let_def nth_append min_def)

text \<open>The byte at a position of a file as a sparse file reads: zero past the end.\<close>

definition byte_at :: "byte list \<Rightarrow> nat \<Rightarrow> byte" where
  "byte_at f p = (if p < length f then f ! p else 0)"

definition slot_at :: "nat \<Rightarrow> nat \<Rightarrow> byte list \<Rightarrow> byte list" where
  "slot_at n i f = map (\<lambda>k. byte_at f (i * n + k)) [0..<n]"

lemma byte_at_write: "byte_at (writeAt d k f) p = (if k \<le> p \<and> p < k + length d then d ! (p - k) else byte_at f p)"
  by (auto simp: byte_at_def length_writeAt nth_writeAt)

lemma slot_ranges:
  fixes i j :: nat
  assumes "i \<noteq> j" and "k < n"
  shows "\<not> (j * n \<le> i * n + k \<and> i * n + k < j * n + n)"
proof
  assume a: "j * n \<le> i * n + k \<and> i * n + k < j * n + n"
  have "(i * n + k) div n = i" using assms(2) by simp
  moreover have "(i * n + k) div n = j"
    using a assms(2) by (intro div_nat_eqI) (simp_all add: algebra_simps)
  ultimately show False using assms(1) by simp
qed

lemma slot_at_write:
  assumes "length d = n"
  shows "slot_at n i (writeAt d (j * n) f) = (if i = j then d else slot_at n i f)"
proof (rule nth_equalityI)
  fix k
  assume "k < length (slot_at n i (writeAt d (j * n) f))"
  then have k: "k < n" by (simp add: slot_at_def)
  show "slot_at n i (writeAt d (j * n) f) ! k = (if i = j then d else slot_at n i f) ! k"
  proof (cases "i = j")
    case False
    show ?thesis using k slot_ranges [OF False k] assms False
      by (simp only: slot_at_def byte_at_write if_False nth_map_upt diff_zero add_0 nth_map length_upt nth_upt)
  qed (use k assms in \<open>simp add: slot_at_def byte_at_write\<close>)
qed (simp add: slot_at_def assms)

lemma slot_at_inside:
  assumes "i * n + n \<le> length f"
  shows "slot_at n i f = take n (drop (i * n) f)"
  using assms by (intro nth_equalityI) (simp_all add: slot_at_def byte_at_def)

lemma slot_at_outside:
  assumes "length f mod n = 0" and "length f < i * n + n"
  shows "slot_at n i f = replicate n 0"
proof -
  obtain q where q: "length f = q * n" using assms(1) by (metis add.right_neutral div_mult_mod_eq)
  then have "q * n < Suc i * n" using assms(2) by simp
  then have "q < Suc i" using mult_less_cancel2 by blast
  then have "q * n \<le> i * n" by (intro mult_le_mono1) simp
  then have "\<not> i * n + k < length f" for k unfolding q by linarith
  then have "byte_at f (i * n + k) = 0" for k by (simp only: byte_at_def if_False)
  then show ?thesis by (simp add: slot_at_def map_replicate_const)
qed

lemma aligned_write: "length f mod n = 0 \<Longrightarrow> length d = n \<Longrightarrow> length (writeAt d (j * n) f) mod n = 0"
  by (simp add: length_writeAt max_def)

text \<open>Short writes do not matter: whatever the kernel accepts per call, a loop that ends well has stored it all.\<close>

lemma file_eqI: "length f = length g \<Longrightarrow> (\<And>p. byte_at f p = byte_at g p) \<Longrightarrow> f = g"
  by (rule nth_equalityI) (metis byte_at_def)+

lemma writeAt_append:
  assumes "d \<noteq> []"
  shows "writeAt e (k + length d) (writeAt d k f) = writeAt (d @ e) k f"
proof (rule file_eqI)
  show "byte_at (writeAt e (k + length d) (writeAt d k f)) p = byte_at (writeAt (d @ e) k f) p" for p
    by (cases "p < k + length d") (auto simp: byte_at_write nth_append)
qed (simp add: length_writeAt)

lemma writeAt_loop_effect:
  "writeAt_loop wrote data offset f = Inr g \<Longrightarrow> data \<noteq> [] \<Longrightarrow> g = writeAt data offset f"
proof (induction wrote data offset f rule: writeAt_loop.induct)
  case (1 wrote data offset f)
  show ?case
  proof (cases wrote)
    case Nil
    then show ?thesis using "1.prems" by (simp add: writeAt_loop.simps)
  next
    case (Cons r rest)
    then have r: "\<not> r \<le> 0"
      "writeAt_loop rest (drop (nat r) data) (offset + nat r) (writeAt (take (nat r) data) offset f) = Inr g"
      using "1.prems"(1,2) by (subst (asm) writeAt_loop.simps; simp split: if_splits)+
    show ?thesis
    proof (cases "drop (nat r) data = []")
      case True
      then show ?thesis using r by (simp add: writeAt_loop.simps)
    next
      case False
      have "g = writeAt (drop (nat r) data) (offset + nat r) (writeAt (take (nat r) data) offset f)"
        by (rule "1.IH" [OF "1.prems"(2) Cons r(1) r(2) False])
      also have "\<dots> = writeAt (take (nat r) data @ drop (nat r) data) offset f"
        using False r(1) "1.prems"(2) writeAt_append [of "take (nat r) data" "drop (nat r) data" offset f] by simp
      finally show ?thesis by simp
    qed
  qed
qed

section \<open>The contract of the tables\<close>

fun all_fit :: "('i \<Rightarrow> 'v \<Rightarrow> 's \<Rightarrow> bool) \<Rightarrow> ('i \<Rightarrow> 'v \<Rightarrow> 's \<Rightarrow> 's) \<Rightarrow> ('i \<times> 'v) list \<Rightarrow> 's \<Rightarrow> bool" where
  "all_fit fits put [] s = True"
| "all_fit fits put ((i, v) # defs) s = (fits i v s \<and> all_fit fits put defs (put i v s))"

text \<open>A table keeps the last accepted value of each id and ignores the values it does not accept.\<close>

locale id_table =
  fixes put :: "'i \<Rightarrow> 'v \<Rightarrow> 's \<Rightarrow> 's"
    and get :: "'i \<Rightarrow> 's \<Rightarrow> 'r option"
    and val :: "'v \<Rightarrow> 'r option"
    and fits :: "'i \<Rightarrow> 'v \<Rightarrow> 's \<Rightarrow> bool"
    and inv :: "'s \<Rightarrow> bool"
  assumes inv_put: "inv s \<Longrightarrow> fits i v s \<Longrightarrow> inv (put i v s)"
    and get_put: "inv s \<Longrightarrow> fits i v s \<Longrightarrow> get j (put i v s) = (if j = i \<and> val v \<noteq> None then val v else get j s)"
begin

lemma get_puts:
  "inv s \<Longrightarrow> all_fit fits put defs s \<Longrightarrow>
     get j (fold (\<lambda>(i, v). put i v) defs s) =
       (case map_of (rev (filter (\<lambda>(i, v). val v \<noteq> None) defs)) j of None \<Rightarrow> get j s | Some v \<Rightarrow> val v)"
proof (induction defs arbitrary: s)
  case (Cons d defs)
  obtain i v where d: "d = (i, v)" by fastforce
  have step: "inv (put i v s)" "get j (put i v s) = (if j = i \<and> val v \<noteq> None then val v else get j s)"
    using Cons.prems d inv_put get_put by simp_all
  have "get j (fold (\<lambda>(i, v). put i v) defs (put i v s)) =
      (case map_of (rev (filter (\<lambda>(i, v). val v \<noteq> None) defs)) j of None \<Rightarrow> get j (put i v s) | Some v \<Rightarrow> val v)"
    using Cons.prems d step(1) by (intro Cons.IH) simp_all
  then show ?case using d step(2) by (auto simp: map_add_def split: option.splits)
qed simp

lemma inv_puts: "inv s \<Longrightarrow> all_fit fits put defs s \<Longrightarrow> inv (fold (\<lambda>(i, v). put i v) defs s)"
  by (induction defs arbitrary: s) (auto simp: inv_put)

end

subsection \<open>Hashes\<close>

definition hashes_ok :: "DefinitionWriter \<Rightarrow> bool" where
  "hashes_ok w \<longleftrightarrow> length (hashes_file w) mod SHA256_BYTES = 0"

lemma def_hash_slot:
  assumes "hashes_ok w"
  shows "def_hash i (openDefinitions w) =
     (let s = slot_at SHA256_BYTES (unat i) (hashes_file w) in if list_ex (\<lambda>b. b \<noteq> 0) s then Some s else None)"
proof (cases "unat i * SHA256_BYTES + SHA256_BYTES > length (hashes_file w)")
  case True
  then show ?thesis using assms slot_at_outside [of "hashes_file w" SHA256_BYTES "unat i"]
    by (simp add: def_hash_def openDefinitions_def hashes_ok_def list_ex_iff)
next
  case False
  then show ?thesis using slot_at_inside [of "unat i" SHA256_BYTES "hashes_file w"]
    by (simp add: def_hash_def openDefinitions_def)
qed

definition put_hash :: "u32 \<Rightarrow> string \<Rightarrow> DefinitionWriter \<Rightarrow> DefinitionWriter" where
  "put_hash i hex w = snd (writeHash i hex w)"

definition get_hash :: "u32 \<Rightarrow> DefinitionWriter \<Rightarrow> byte list option" where
  "get_hash i w = def_hash i (openDefinitions w)"

text \<open>A zero slot reads as no definition, so the all-zero hash is the one well-formed hash the table cannot hold.\<close>

definition not_zero_hash :: "u32 \<Rightarrow> string \<Rightarrow> DefinitionWriter \<Rightarrow> bool" where
  "not_zero_hash i hex w \<longleftrightarrow> decodeSha256Hex hex \<noteq> Some (replicate SHA256_BYTES 0)"

lemma length_hex_pairs: "hex_pairs s = Some d \<Longrightarrow> length d = length s div 2"
  by (induction s arbitrary: d rule: hex_pairs.induct) (auto split: option.splits)

lemma length_decoded: "decodeSha256Hex hex = Some d \<Longrightarrow> length d = SHA256_BYTES"
  by (auto simp: decodeSha256Hex_def dest!: length_hex_pairs split: if_splits)

lemma zeros_iff: "length d = n \<Longrightarrow> list_ex (\<lambda>b. b \<noteq> 0) d \<longleftrightarrow> d \<noteq> replicate n (0 :: byte)"
  by (metis (mono_tags, lifting) list_ex_iff replicate_length_same in_set_replicate length_0_conv)

interpretation hashes: id_table put_hash get_hash decodeSha256Hex not_zero_hash hashes_ok
proof
  fix s i v
  assume s: "hashes_ok s" and v: "not_zero_hash i v s"
  show inv: "hashes_ok (put_hash i v s)"
    using s by (auto simp: put_hash_def writeHash_def hashes_ok_def aligned_write length_decoded split: option.splits)
  show "get_hash j (put_hash i v s) = (if j = i \<and> decodeSha256Hex v \<noteq> None then decodeSha256Hex v else get_hash j s)" for j
  proof (cases "decodeSha256Hex v")
    case None
    then show ?thesis by (simp add: put_hash_def get_hash_def writeHash_def openDefinitions_def def_hash_def)
  next
    case (Some d)
    then have "hashes_file (put_hash i v s) = writeAt d (unat i * SHA256_BYTES) (hashes_file s)"
      by (simp add: put_hash_def writeHash_def)
    moreover have "unat j = unat i \<longleftrightarrow> j = i" by (simp add: word_unat_eq_iff)
    ultimately show ?thesis
      using Some v length_decoded [OF Some] def_hash_slot [OF inv, of j] def_hash_slot [OF s, of j]
      by (auto simp: get_hash_def slot_at_write zeros_iff not_zero_hash_def)
  qed
qed

subsection \<open>Tags\<close>

definition index_entry :: "DefinitionWriter \<Rightarrow> u32 \<Rightarrow> TagIndexEntry" where
  "index_entry w i = entry_of_bytes (slot_at 8 (unat i) (tag_index_file w))"

definition tags_ok :: "DefinitionWriter \<Rightarrow> bool" where
  "tags_ok w \<longleftrightarrow> length (tag_index_file w) mod 8 = 0 \<and> length (tag_index_file w) \<le> 2 ^ 32 * 8 \<and> length (tag_blob_file w) = blob_offset w \<and>
     (\<forall>i. unat (te_offset (index_entry w i)) + unat (te_length (index_entry w i)) \<le> blob_offset w)"

lemma entry_roundtrip [simp]: "entry_of_bytes (entry_bytes e) = e"
proof -
  have "(of_nat (le_val (appendPod32 v)) :: u32) = v" for v
    using u32_less [of v] by (simp add: appendPod32_def le_val_le_bytes)
  then show ?thesis by (simp add: entry_of_bytes_def entry_bytes_def appendPod32_def)
qed

lemma entry_zero: "entry_of_bytes (replicate 8 0) = \<lparr>te_offset = 0, te_length = 0\<rparr>"
  by (simp add: entry_of_bytes_def numeral_eq_Suc)

lemma def_tag_entry:
  assumes "tags_ok w"
  shows "def_tag i (openDefinitions w) =
     (let e = index_entry w i in
      if te_length e = 0 then None
      else Some (bytes_text (take (unat (te_length e)) (drop (unat (te_offset e)) (tag_blob_file w)))))"
proof (cases "unat i * 8 + 8 > length (tag_index_file w)")
  case True
  then show ?thesis using assms slot_at_outside [of "tag_index_file w" 8 "unat i"]
    by (simp add: def_tag_def openDefinitions_def tags_ok_def index_entry_def entry_zero)
next
  case False
  moreover have "unat (te_offset (index_entry w i)) + unat (te_length (index_entry w i)) \<le> length (tag_blob_file w)"
    using assms by (simp add: tags_ok_def)
  ultimately show ?thesis using slot_at_inside [of "unat i" 8 "tag_index_file w"]
    by (simp add: def_tag_def openDefinitions_def index_entry_def Let_def)
qed

definition put_tag :: "u32 \<Rightarrow> string \<Rightarrow> DefinitionWriter \<Rightarrow> DefinitionWriter" where
  "put_tag i tag w = (case writeTag i tag w of Inl e \<Rightarrow> w | Inr w' \<Rightarrow> w')"

definition get_tag :: "u32 \<Rightarrow> DefinitionWriter \<Rightarrow> string option" where
  "get_tag i w = def_tag i (openDefinitions w)"

definition tag_val :: "string \<Rightarrow> string option" where
  "tag_val tag = (if tag = [] then None else Some tag)"

definition blob_room :: "u32 \<Rightarrow> string \<Rightarrow> DefinitionWriter \<Rightarrow> bool" where
  "blob_room i tag w \<longleftrightarrow> tag = [] \<or> blob_offset w + length tag < 2 ^ 32"

lemma put_tag_files:
  assumes "tags_ok w" and "blob_room i tag w" and "tag \<noteq> []"
  shows "tag_blob_file (put_tag i tag w) = tag_blob_file w @ text_bytes tag"
    and "blob_offset (put_tag i tag w) = blob_offset w + length tag"
    and "tag_index_file (put_tag i tag w) =
      writeAt (entry_bytes \<lparr>te_offset = of_nat (blob_offset w), te_length = of_nat (length tag)\<rparr>) (unat i * 8) (tag_index_file w)"
  using assms by (simp_all add: put_tag_def writeTag_def blob_room_def tags_ok_def Let_def writeAt_def)

lemma put_tag_entry:
  assumes "tags_ok w" and "blob_room i tag w" and "tag \<noteq> []"
  shows "index_entry (put_tag i tag w) j =
    (if j = i then \<lparr>te_offset = of_nat (blob_offset w), te_length = of_nat (length tag)\<rparr> else index_entry w j)"
proof -
  have "length (entry_bytes e) = 8" for e by (simp add: entry_bytes_def appendPod32_def)
  then show ?thesis by (simp add: index_entry_def put_tag_files(3) [OF assms] slot_at_write word_unat_eq_iff)
qed

lemma put_tag_empty [simp]: "put_tag i [] w = w"
  by (simp add: put_tag_def writeTag_def)

interpretation tags: id_table put_tag get_tag tag_val blob_room tags_ok
proof
  fix s i v
  assume s: "tags_ok s" and v: "blob_room i v s"
  have fits: "unat (of_nat (blob_offset s) :: u32) = blob_offset s" "unat (of_nat (length v) :: u32) = length v"
    if "v \<noteq> []" using v that by (auto simp: blob_room_def intro!: unat_u32)
  show inv: "tags_ok (put_tag i v s)"
  proof (cases "v = []")
    case False
    note files = put_tag_files [OF s v False] put_tag_entry [OF s v False]
    have "unat (te_offset (index_entry (put_tag i v s) j)) + unat (te_length (index_entry (put_tag i v s) j))
        \<le> blob_offset s + length v" for j
      using s fits [OF False] by (auto simp: files tags_ok_def intro: trans_le_add1)
    moreover have "length (entry_bytes e) = 8" for e by (simp add: entry_bytes_def appendPod32_def)
    moreover have "unat i * 8 + 8 \<le> 2 ^ 32 * 8" using u32_less [of i] by simp
    moreover have "length (tag_index_file (put_tag i v s)) mod 8 = 0"
      using s calculation(2) by (simp only: files(3) tags_ok_def aligned_write)
    ultimately show ?thesis using s
      unfolding tags_ok_def by (simp add: files(1,2)) (simp add: files(3) length_writeAt)
  qed (use s in simp)
  show "get_tag j (put_tag i v s) = (if j = i \<and> tag_val v \<noteq> None then tag_val v else get_tag j s)" for j
  proof (cases "v = []")
    case False
    note files = put_tag_files [OF s v False] put_tag_entry [OF s v False]
    have "unat (te_offset (index_entry s j)) + unat (te_length (index_entry s j)) \<le> length (tag_blob_file s)"
      using s by (simp add: tags_ok_def)
    moreover have "length (tag_blob_file s) = blob_offset s" using s by (simp add: tags_ok_def)
    moreover have "(of_nat (length v) :: u32) \<noteq> 0" using fits(2) [OF False] False by (metis length_0_conv unat_0)
    ultimately show ?thesis using False fits [OF False]
      by (simp add: get_tag_def def_tag_entry [OF inv] def_tag_entry [OF s] files tag_val_def Let_def)
  qed (simp add: tag_val_def)
qed

subsection \<open>The two tables together\<close>

text \<open>Definitions in the order the scanning threads reach the writer.\<close>

datatype definition_text = HashText string | TagText string

fun write_def :: "u32 \<Rightarrow> definition_text \<Rightarrow> DefinitionWriter \<Rightarrow> (store_error, DefinitionWriter) result" where
  "write_def i (HashText hex) w = Inr (snd (writeHash i hex w))"
| "write_def i (TagText tag) w = writeTag i tag w"

fun write_defs :: "(u32 \<times> definition_text) list \<Rightarrow> DefinitionWriter \<Rightarrow> (store_error, DefinitionWriter) result" where
  "write_defs [] w = Inr w"
| "write_defs ((i, d) # defs) w =
     (case write_def i d w of Inl e \<Rightarrow> Inl e | Inr w' \<Rightarrow> write_defs defs w')"

fun hash_of :: "definition_text \<Rightarrow> byte list option" where
  "hash_of (HashText hex) = decodeSha256Hex hex"
| "hash_of (TagText tag) = None"

fun tag_of :: "definition_text \<Rightarrow> string option" where
  "tag_of (HashText hex) = None"
| "tag_of (TagText tag) = tag_val tag"

text \<open>The last definition of an id among those a table accepts.\<close>

definition last_def :: "(definition_text \<Rightarrow> 'r option) \<Rightarrow> (u32 \<times> definition_text) list \<Rightarrow> u32 \<Rightarrow> 'r option" where
  "last_def val defs i = (case filter (\<lambda>(j, d). j = i \<and> val d \<noteq> None) defs of [] \<Rightarrow> None | ds \<Rightarrow> val (snd (last ds)))"

fun put_def :: "u32 \<Rightarrow> definition_text \<Rightarrow> DefinitionWriter \<Rightarrow> DefinitionWriter" where
  "put_def i (HashText hex) w = put_hash i hex w"
| "put_def i (TagText tag) w = put_tag i tag w"

fun def_fits :: "u32 \<Rightarrow> definition_text \<Rightarrow> DefinitionWriter \<Rightarrow> bool" where
  "def_fits i (HashText hex) w = not_zero_hash i hex w"
| "def_fits i (TagText tag) w = blob_room i tag w"

definition store_ok :: "DefinitionWriter \<Rightarrow> bool" where
  "store_ok w \<longleftrightarrow> hashes_ok w \<and> tags_ok w"

lemma put_hash_keeps [simp]:
  "tag_index_file (put_hash i hex w) = tag_index_file w"
  "tag_blob_file (put_hash i hex w) = tag_blob_file w"
  "blob_offset (put_hash i hex w) = blob_offset w"
  by (simp_all add: put_hash_def writeHash_def split: option.splits)

lemma put_tag_keeps [simp]: "hashes_file (put_tag i tag w) = hashes_file w"
  by (simp add: put_tag_def writeTag_def Let_def)

lemma put_hash_tags: "tags_ok (put_hash i hex w) = tags_ok w" "get_tag j (put_hash i hex w) = get_tag j w"
  by (simp_all add: tags_ok_def index_entry_def get_tag_def def_tag_def openDefinitions_def Let_def)

lemma put_tag_hashes: "hashes_ok (put_tag i tag w) = hashes_ok w" "get_hash j (put_tag i tag w) = get_hash j w"
  by (simp_all add: hashes_ok_def get_hash_def def_hash_def openDefinitions_def Let_def)

interpretation store_hashes: id_table put_def get_hash hash_of def_fits store_ok
proof
  fix s i v
  assume "store_ok s" and "def_fits i v s"
  then show "store_ok (put_def i v s)"
    by (cases v) (simp_all add: store_ok_def put_hash_tags put_tag_hashes hashes.inv_put tags.inv_put)
  show "get_hash j (put_def i v s) = (if j = i \<and> hash_of v \<noteq> None then hash_of v else get_hash j s)" for j
    using \<open>store_ok s\<close> \<open>def_fits i v s\<close>
    by (cases v) (auto simp: store_ok_def put_tag_hashes hashes.get_put)
qed

interpretation store_tags: id_table put_def get_tag tag_of def_fits store_ok
proof
  fix s i v
  assume s: "store_ok s" and v: "def_fits i v s"
  then show "store_ok (put_def i v s)" by (rule store_hashes.inv_put)
  show "get_tag j (put_def i v s) = (if j = i \<and> tag_of v \<noteq> None then tag_of v else get_tag j s)" for j
    using s v by (cases v) (auto simp: store_ok_def put_hash_tags tags.get_put)
qed

lemma last_def_map_of:
  "(case map_of (rev (filter (\<lambda>(i, v). val v \<noteq> None) defs)) j of None \<Rightarrow> None | Some v \<Rightarrow> val v) = last_def val defs j"
proof (induction defs rule: rev_induct)
  case (snoc d defs)
  then show ?case by (auto simp: last_def_def split: list.splits)
qed (simp add: last_def_def)

lemma write_defs_puts:
  "write_defs defs w = Inr w' \<Longrightarrow> \<forall>(i, d) \<in> set defs. hash_of d \<noteq> Some (replicate SHA256_BYTES 0) \<Longrightarrow>
     w' = fold (\<lambda>(i, d). put_def i d) defs w \<and> all_fit def_fits put_def defs w"
proof (induction defs arbitrary: w)
  case (Cons d defs)
  obtain i v where d: "d = (i, v)" by fastforce
  obtain w1 where w1: "write_def i v w = Inr w1" "write_defs defs w1 = Inr w'"
    using Cons.prems(1) d by (auto split: sum.splits)
  have "put_def i v w = w1 \<and> def_fits i v w"
    using w1(1) Cons.prems(2) d
    by (cases v) (auto simp: put_hash_def put_tag_def not_zero_hash_def blob_room_def writeTag_def split: if_splits)
  then show ?case using Cons.IH [OF w1(2)] Cons.prems(2) d by simp
qed simp

lemma new_store_ok: "store_ok newDefinitionWriter"
proof -
  have "slot_at 8 i [] = replicate 8 0" for i by (simp add: slot_at_outside)
  then show ?thesis
    by (simp add: store_ok_def hashes_ok_def tags_ok_def index_entry_def newDefinitionWriter_def entry_zero)
qed

lemma new_store_empty: "get_hash i newDefinitionWriter = None" "get_tag i newDefinitionWriter = None"
  by (simp_all add: get_hash_def get_tag_def def_hash_def def_tag_def openDefinitions_def newDefinitionWriter_def SHA256_BYTES_def)

lemma defined_tags_card:
  assumes "tags_ok w"
  shows "m_defined_tags (openDefinitions w) = card {i. get_tag i w \<noteq> None}"
proof -
  let ?n = "length (tag_index_file w) div 8"
  let ?P = "\<lambda>k. te_length (entry_of_bytes (take 8 (drop (k * 8) (tag_index_file w)))) \<noteq> 0"
  have defined: "get_tag i w \<noteq> None \<longleftrightarrow> unat i < ?n \<and> ?P (unat i)" for i
  proof (cases "unat i * 8 + 8 > length (tag_index_file w)")
    case True
    then have "index_entry w i = \<lparr>te_offset = 0, te_length = 0\<rparr>"
      using assms slot_at_outside [of "tag_index_file w" 8 "unat i"] by (simp add: tags_ok_def index_entry_def entry_zero)
    moreover have "\<not> unat i < ?n" using True by arith
    ultimately show ?thesis by (simp add: get_tag_def def_tag_entry [OF assms])
  next
    case False
    then show ?thesis using slot_at_inside [of "unat i" 8 "tag_index_file w"]
      by (auto simp: get_tag_def def_tag_entry [OF assms] index_entry_def Let_def)
  qed
  have "bij_betw unat {i :: u32. unat i < ?n \<and> ?P (unat i)} {k. k < ?n \<and> ?P k}"
  proof (rule bij_betw_byWitness [where f' = of_nat])
    show "\<forall>k\<in>{k. k < ?n \<and> ?P k}. unat (of_nat k :: u32) = k" using assms by (auto simp: tags_ok_def intro!: unat_u32)
    then show "of_nat ` {k. k < ?n \<and> ?P k} \<subseteq> {i :: u32. unat i < ?n \<and> ?P (unat i)}" by auto
  qed auto
  then have "card {i. get_tag i w \<noteq> None} = card {k. k < ?n \<and> ?P k}"
    unfolding defined by (rule bij_betw_same_card)
  also have "{k. k < ?n \<and> ?P k} = set (filter ?P [0..<?n])" by auto
  also have "card \<dots> = length (filter ?P [0..<?n])" by (rule distinct_card) simp
  finally show ?thesis by (simp add: openDefinitions_def countDefinedTags_def)
qed

lemma store_lookup:
  assumes "write_defs defs newDefinitionWriter = Inr w"
    and "\<forall>(i, d) \<in> set defs. hash_of d \<noteq> Some (replicate SHA256_BYTES 0)"
  shows "def_hash i (openDefinitions w) = last_def hash_of defs i \<and>
    def_tag i (openDefinitions w) = last_def tag_of defs i \<and>
    m_defined_tags (openDefinitions w) = card {j. last_def tag_of defs j \<noteq> None}"
proof -
  note w = write_defs_puts [OF assms]
  have tag: "get_tag j w = last_def tag_of defs j" for j
    using store_tags.get_puts [OF new_store_ok, of defs j] w last_def_map_of [of tag_of defs j]
    by (simp add: new_store_empty cong: option.case_cong)
  have "get_hash i w = last_def hash_of defs i"
    using store_hashes.get_puts [OF new_store_ok, of defs i] w last_def_map_of [of hash_of defs i]
    by (simp add: new_store_empty cong: option.case_cong)
  moreover have "tags_ok w" using store_tags.inv_puts [OF new_store_ok, of defs] w by (simp add: store_ok_def)
  note defined_tags_card [OF this]
  ultimately show ?thesis using tag by (simp add: get_hash_def get_tag_def)
qed

text \<open>
  C36. The definition store answers with what was written: after any sequence of hash and tag
  definitions the writer accepts, a hash id reads back the bytes of its last well-formed
  definition and a tag id its last non-empty text, an id never defined reads as absent, and the
  count of defined tags is the number of ids that read back.  The all-zero hash is excluded: its
  slot reads as undefined.
\<close>

theorem definition_store_lookup:
  assumes "write_defs defs newDefinitionWriter = Inr w"
    and "\<forall>(i, d) \<in> set defs. hash_of d \<noteq> Some (replicate SHA256_BYTES 0)"
  shows "def_hash i (openDefinitions w) = last_def hash_of defs i \<and>
    def_tag i (openDefinitions w) = last_def tag_of defs i \<and>
    m_defined_tags (openDefinitions w) = card {j. last_def tag_of defs j \<noteq> None}"
  by (rule store_lookup [OF assms])

lemma definition_store_lookup_witness:
  "case write_defs [(1, TagText ''ab''), (0, TagText ''c''), (2, HashText ''xyz''), (1, TagText ''d'')] newDefinitionWriter of
     Inl e \<Rightarrow> False
   | Inr w \<Rightarrow> def_tag 1 (openDefinitions w) = Some ''d'' \<and> def_tag 0 (openDefinitions w) = Some ''c'' \<and>
       def_hash 2 (openDefinitions w) = None"
proof -
  let ?defs = "[(1, TagText ''ab''), (0, TagText ''c''), (2, HashText ''xyz''), (1, TagText ''d'')]"
  obtain w where w: "write_defs ?defs newDefinitionWriter = Inr w"
    by (cases "write_defs ?defs newDefinitionWriter")
      (simp_all add: writeTag_def writeHash_def newDefinitionWriter_def decodeSha256Hex_def SHA256_BYTES_def Let_def)
  have ok: "\<forall>(i, d) \<in> set ?defs. hash_of d \<noteq> Some (replicate SHA256_BYTES 0)"
    by (simp add: decodeSha256Hex_def SHA256_BYTES_def)
  show ?thesis
    using definition_store_lookup [OF w ok, of 0] definition_store_lookup [OF w ok, of 1]
      definition_store_lookup [OF w ok, of 2]
    unfolding w sum.case by (simp add: last_def_def tag_val_def decodeSha256Hex_def SHA256_BYTES_def)
qed

end
