(* ===== verification/Ptr_Events.thy ===== *)
theory Ptr_Events
  imports Byte_Codec "HOL-Library.Product_Lexorder" "HOL-Library.Multiset"
begin

text \<open>
  The add and delete events of the PTR compactor (\<^verbatim>\<open>ptr-core\<close>): \<^verbatim>\<open>MappingEvent.hpp\<close>, the
  collapse of one chain (\<^verbatim>\<open>CollapseChain.cpp\<close>), the spill of events to bucket files
  (\<^verbatim>\<open>BucketSpill.cpp\<close>) and the set of used tag ids (\<^verbatim>\<open>TagUsageSet.cpp\<close>).  A bucket file is
  its bytes, \<^const>\<open>None\<close> when it does not exist.  The section on spans holds the scan over runs of
  equal keys that the collapse stages share.
\<close>

section \<open>Events\<close>

datatype EventOp = Add | Delete

fun op_byte :: "EventOp \<Rightarrow> byte" where
  "op_byte Add = 0"
| "op_byte Delete = 1"

record MappingEvent =
  hash_id :: u32
  tag_id :: u32
  update_index :: u16
  ev_op :: byte
  ev_pad :: byte

definition BUCKET_COUNT :: nat where
  "BUCKET_COUNT = 4096"

definition MAX_UPDATE_INDEX :: nat where
  "MAX_UPDATE_INDEX = 65535"

definition bucketFor :: "u32 \<Rightarrow> nat" where
  "bucketFor h = unat h mod BUCKET_COUNT"

definition eventLess :: "MappingEvent \<Rightarrow> MappingEvent \<Rightarrow> bool" where
  "eventLess a b =
     (if hash_id a \<noteq> hash_id b then hash_id a < hash_id b
      else if tag_id a \<noteq> tag_id b then tag_id a < tag_id b
      else if update_index a \<noteq> update_index b then update_index a < update_index b
      else ev_op a < ev_op b)"

record CollapsedOp =
  co_op :: EventOp
  co_index :: u16

definition collapseChain :: "MappingEvent list \<Rightarrow> CollapsedOp option" where
  "collapseChain events =
     (if events = [] then None
      else if ev_op (last events) = op_byte Delete
      then Some \<lparr>co_op = Delete, co_index = update_index (last events)\<rparr>
      else
        (case find (\<lambda>e. ev_op e = op_byte Add) events of
           Some e \<Rightarrow> Some \<lparr>co_op = Add, co_index = update_index e\<rparr>
         | None \<Rightarrow> None))"

definition event_key :: "MappingEvent \<Rightarrow> u32 \<times> u32 \<times> u16 \<times> byte" where
  "event_key e = (hash_id e, tag_id e, update_index e, ev_op e)"

lemma eventLess_key: "eventLess a b \<longleftrightarrow> event_key a < event_key b"
  by (auto simp: eventLess_def event_key_def)

text \<open>\<^verbatim>\<open>std::ranges::sort\<close> with this order; events of the same key are equal, as \<open>ev_pad\<close> is zero.\<close>

definition sort_events :: "MappingEvent list \<Rightarrow> MappingEvent list" where
  "sort_events events = sort_key event_key events"

section \<open>Bucket files\<close>

definition event_bytes :: "MappingEvent \<Rightarrow> byte list" where
  "event_bytes e = appendPod32 (hash_id e) @ appendPod32 (tag_id e) @ le_bytes 2 (unat (update_index e))
     @ [ev_op e, ev_pad e]"

definition event_of_bytes :: "byte list \<Rightarrow> MappingEvent" where
  "event_of_bytes bs = \<lparr>hash_id = of_nat (le_val (take 4 bs)), tag_id = of_nat (le_val (take 4 (drop 4 bs))),
     update_index = of_nat (le_val (take 2 (drop 8 bs))), ev_op = bs ! 10, ev_pad = bs ! 11\<rparr>"

function events_of_bytes :: "byte list \<Rightarrow> MappingEvent list" where
  "events_of_bytes bs = (if length bs < 12 then [] else event_of_bytes (take 12 bs) # events_of_bytes (drop 12 bs))"
  by pat_completeness auto

termination by (relation "measure length") auto

declare events_of_bytes.simps [simp del]

datatype bucket_error = PartialEvent

definition readBucket :: "byte list option \<Rightarrow> (bucket_error, MappingEvent list) result" where
  "readBucket file =
     (case file of
        None \<Rightarrow> Inr []
      | Some bs \<Rightarrow> if length bs mod 12 \<noteq> 0 then Inl PartialEvent else Inr (events_of_bytes bs))"

record BucketWriter =
  buffer_events :: nat
  bucket_files :: "nat \<Rightarrow> byte list option"
  buffers :: "nat \<Rightarrow> MappingEvent list"
  bucket_counts :: "nat \<Rightarrow> nat"

definition newBucketWriter :: "nat \<Rightarrow> (nat \<Rightarrow> byte list option) \<Rightarrow> BucketWriter" where
  "newBucketWriter n dir = \<lparr>buffer_events = (if n = 0 then 1 else n), bucket_files = dir,
     buffers = (\<lambda>_. []), bucket_counts = (\<lambda>_. 0)\<rparr>"

definition flushBucket :: "nat \<Rightarrow> BucketWriter \<Rightarrow> BucketWriter" where
  "flushBucket b w =
     (if buffers w b = [] then w
      else w\<lparr>bucket_files := (bucket_files w)(b := Some ((case bucket_files w b of None \<Rightarrow> [] | Some bs \<Rightarrow> bs)
               @ concat (map event_bytes (buffers w b)))),
             buffers := (buffers w)(b := [])\<rparr>)"

definition bucket_write :: "MappingEvent \<Rightarrow> BucketWriter \<Rightarrow> BucketWriter" where
  "bucket_write e w =
     (let b = bucketFor (hash_id e);
          w1 = w\<lparr>buffers := (buffers w)(b := buffers w b @ [e]),
                 bucket_counts := (bucket_counts w)(b := bucket_counts w b + 1)\<rparr> in
      if length (buffers w1 b) \<ge> buffer_events w1 then flushBucket b w1 else w1)"

definition bucket_flush :: "BucketWriter \<Rightarrow> BucketWriter" where
  "bucket_flush w = fold flushBucket [0..<BUCKET_COUNT] w"

definition written :: "BucketWriter \<Rightarrow> nat" where
  "written w = sum_list (map (bucket_counts w) [0..<BUCKET_COUNT])"

section \<open>Used tag ids\<close>

record TagUsageSet =
  usage_capacity :: nat
  usage_words :: "u64 list"

definition newUsage :: "u32 \<Rightarrow> TagUsageSet" where
  "newUsage c = \<lparr>usage_capacity = unat c, usage_words = replicate ((unat c + 64 - 1) div 64) 0\<rparr>"

definition usage_mark :: "u32 \<Rightarrow> TagUsageSet \<Rightarrow> TagUsageSet" where
  "usage_mark t u =
     (if unat t \<ge> usage_capacity u then u
      else
        (let word = unat t div 64; bit = push_bit (unat t mod 64) 1 in
         u\<lparr>usage_words := (usage_words u)[word := or (usage_words u ! word) bit]\<rparr>))"

definition usage_count :: "TagUsageSet \<Rightarrow> nat" where
  "usage_count u = sum_list (map (\<lambda>w. length (filter (bit w) [0..<64])) (usage_words u))"

section \<open>Spans of equal keys\<close>

function spans :: "('a \<Rightarrow> 'k) \<Rightarrow> 'a list \<Rightarrow> 'a list list" where
  "spans k [] = []"
| "spans k (x # xs) = (x # takeWhile (\<lambda>y. k y = k x) xs) # spans k (dropWhile (\<lambda>y. k y = k x) xs)"
  by pat_completeness auto

termination by (relation "measure (\<lambda>(_, xs). length xs)") (auto simp: less_Suc_eq_le length_dropWhile_le)

lemma spans_concat: "concat (spans k xs) = xs"
  by (induction k xs rule: spans.induct) auto

text \<open>On a list sorted by the key, the spans are the classes of equal keys, in order.\<close>

lemma sorted_takeWhile_filter:
  fixes k :: "'a \<Rightarrow> 'k :: linorder"
  assumes "sorted (map k (x # xs))"
  shows "takeWhile (\<lambda>y. k y = k x) xs = filter (\<lambda>y. k y = k x) xs"
    and "dropWhile (\<lambda>y. k y = k x) xs = filter (\<lambda>y. k y \<noteq> k x) xs"
  using assms
proof (induction xs)
  case (Cons y ys)
  { case 1
    show ?case
    proof (cases "k y = k x")
      case False
      then have "\<forall>z \<in> set ys. k z \<noteq> k x" using 1 by fastforce
      then show ?thesis using False by (simp add: filter_empty_conv)
    qed (use Cons.IH 1 in auto) }
  { case 2
    show ?case
    proof (cases "k y = k x")
      case False
      then have "\<forall>z \<in> set ys. k z \<noteq> k x" using 2 by fastforce
      then show ?thesis using False by simp
    qed (use Cons.IH 2 in auto) }
qed auto

lemma sorted_map_mono:
  fixes k :: "'a \<Rightarrow> 'k :: linorder" and j :: "'a \<Rightarrow> 'j :: linorder"
  assumes "sorted (map k xs)" and "\<And>x y. k x \<le> k y \<Longrightarrow> j x \<le> j y"
  shows "sorted (map j xs)"
proof -
  have "sorted_wrt (\<lambda>x y. k x \<le> k y) xs" using assms(1) by (simp only: sorted_map)
  then have "sorted_wrt (\<lambda>x y. j x \<le> j y) xs" by (rule sorted_wrt_mono_rel [rotated]) (rule assms(2))
  then show ?thesis by (simp only: sorted_map)
qed

lemma map_filter_map:
  "(\<And>x. x \<in> set xs \<Longrightarrow> f x = Some (g x)) \<Longrightarrow> List.map_filter f xs = map g xs"
  by (induction xs) (simp_all add: map_filter_simps)

lemma map_filter_map_comp: "List.map_filter f (map g xs) = List.map_filter (f \<circ> g) xs"
  by (induction xs) (simp_all add: map_filter_simps split: option.splits)

lemma map_filter_id:
  "(\<And>x. x \<in> set xs \<Longrightarrow> (P x \<longleftrightarrow> Q x) \<and> f x = x) \<Longrightarrow> map f (filter P xs) = filter Q xs"
  by (induction xs) auto

definition keys_of :: "('a \<Rightarrow> 'k :: linorder) \<Rightarrow> 'a list \<Rightarrow> 'k list" where
  "keys_of k xs = sort (remdups (map k xs))"

lemma keys_of_set [simp]: "set (keys_of k xs) = k ` set xs"
  by (simp add: keys_of_def)

lemma keys_of_sorted: "sorted (keys_of k xs)" "distinct (keys_of k xs)"
  by (simp_all add: keys_of_def)

lemma keys_of_unique: "sorted ys \<Longrightarrow> distinct ys \<Longrightarrow> set ys = k ` set xs \<Longrightarrow> keys_of k xs = ys"
  by (rule sorted_distinct_set_unique) (simp_all add: keys_of_sorted)

lemma keys_of_cong: "set xs = set ys \<Longrightarrow> keys_of k xs = keys_of k ys"
  by (rule keys_of_unique) (simp_all add: keys_of_sorted)

lemma spans_sorted:
  fixes k :: "'a \<Rightarrow> 'k :: linorder"
  assumes "sorted (map k xs)"
  shows "spans k xs = map (\<lambda>v. filter (\<lambda>x. k x = v) xs) (keys_of k xs)"
  using assms
proof (induction k xs rule: spans.induct)
  case (2 k x xs)
  let ?rest = "filter (\<lambda>y. k y \<noteq> k x) xs"
  note s = sorted_takeWhile_filter [OF "2.prems"]
  have "sorted (map k ?rest)" using "2.prems" by (simp add: sorted_filter)
  then have IH: "spans k ?rest = map (\<lambda>v. filter (\<lambda>y. k y = v) ?rest) (keys_of k ?rest)"
    using "2.IH" s(2) by simp
  have "keys_of k (x # xs) = k x # keys_of k ?rest"
    by (rule keys_of_unique) (use "2.prems" in \<open>auto simp: keys_of_sorted less_le\<close>)
  moreover have "filter (\<lambda>y. k y = v) ?rest = filter (\<lambda>y. k y = v) (x # xs)" if "v \<in> set (keys_of k ?rest)" for v
    using that by (auto intro!: filter_cong)
  ultimately show ?case using IH s by (simp cong: map_cong)
qed (simp add: keys_of_def)

section \<open>Chains\<close>

text \<open>The last operation on a pair, by update index and then deletes after adds, if any.\<close>

definition last_op :: "MappingEvent list \<Rightarrow> u32 \<Rightarrow> u32 \<Rightarrow> byte option" where
  "last_op evs h t =
     (let xs = filter (\<lambda>e. hash_id e = h \<and> tag_id e = t) evs in
      if xs = [] then None else Some (snd (Max (set (map (\<lambda>e. (update_index e, ev_op e)) xs)))))"

definition ops_ok :: "MappingEvent list \<Rightarrow> bool" where
  "ops_ok evs \<longleftrightarrow> list_all (\<lambda>e. ev_op e = 0 \<or> ev_op e = 1) evs"

lemma last_op_cong: "set xs = set ys \<Longrightarrow> last_op xs h t = last_op ys h t"
  by (simp add: last_op_def Let_def filter_empty_conv)

lemma collapseChain_last:
  assumes "c \<noteq> []" and "ops_ok c"
  shows "\<exists>i. collapseChain c = Some \<lparr>co_op = (if ev_op (last c) = 1 then Delete else Add), co_index = i\<rparr>"
proof -
  have l: "last c \<in> set c" using assms(1) by simp
  show ?thesis
  proof (cases "ev_op (last c) = 1")
    case False
    then have "ev_op (last c) = 0" using assms(2) l by (auto simp: ops_ok_def list_all_iff)
    then have "find (\<lambda>e. ev_op e = 0) c \<noteq> None" using l by (auto simp: find_None_iff)
    then show ?thesis using False assms(1) by (auto simp: collapseChain_def)
  qed (use assms(1) in \<open>simp add: collapseChain_def\<close>)
qed

lemma last_sorted_Max:
  fixes xs :: "'a :: linorder list"
  assumes "sorted xs" and "xs \<noteq> []"
  shows "last xs = Max (set xs)"
proof -
  have "\<forall>y \<in> set xs. y \<le> last xs" using assms(1) by (induction xs) auto
  then show ?thesis using assms(2) by (intro Max_eqI [symmetric]) auto
qed

lemma sorted_chain:
  assumes "sorted (map event_key evs)"
  shows "sorted (map (\<lambda>e. (update_index e, ev_op e)) (filter (\<lambda>e. hash_id e = h \<and> tag_id e = t) evs))"
  using assms
proof (induction evs)
  case (Cons e evs)
  then show ?case by (auto simp: event_key_def)
qed simp

lemma chain_last_op:
  assumes "sorted (map event_key evs)" and "filter (\<lambda>e. hash_id e = h \<and> tag_id e = t) evs = c" and "c \<noteq> []"
  shows "last_op evs h t = Some (ev_op (last c))"
proof -
  have "last (map (\<lambda>e. (update_index e, ev_op e)) c) = Max (set (map (\<lambda>e. (update_index e, ev_op e)) c))"
    using sorted_chain [OF assms(1), of h t] assms(2,3) by (intro last_sorted_Max) auto
  then have "Max (set (map (\<lambda>e. (update_index e, ev_op e)) c)) = (update_index (last c), ev_op (last c))"
    using assms(3) by (simp add: last_map)
  then show ?thesis using assms(2,3) by (simp add: last_op_def)
qed

section \<open>Spilled events are read back\<close>

lemma length_event_bytes [simp]: "length (event_bytes e) = 12"
  by (simp add: event_bytes_def)

lemma u16_less: "unat (v :: u16) < 2 ^ 16"
  using unsigned_less [of v] by simp

lemma event_of_event_bytes: "event_of_bytes (event_bytes e) = e"
proof -
  have "unat (hash_id e) mod 256 ^ 4 = unat (hash_id e)" "unat (tag_id e) mod 256 ^ 4 = unat (tag_id e)"
    "unat (update_index e) mod 256 ^ 2 = unat (update_index e)"
    using u32_less [of "hash_id e"] u32_less [of "tag_id e"] u16_less [of "update_index e"] by simp_all
  then show ?thesis
    by (cases e) (simp add: event_of_bytes_def event_bytes_def appendPod32_def le_val_le_bytes nth_append)
qed

lemma events_of_events: "events_of_bytes (concat (map event_bytes es)) = es"
proof (induction es)
  case (Cons e es)
  have "events_of_bytes (event_bytes e @ concat (map event_bytes es))
      = event_of_bytes (event_bytes e) # events_of_bytes (concat (map event_bytes es))"
    by (subst events_of_bytes.simps) simp
  then show ?case using Cons by (simp add: event_of_event_bytes)
qed (simp add: events_of_bytes.simps)

text \<open>
  What a bucket holds: \<open>es\<close> in its file, then its buffer.
\<close>

definition bucket_holds :: "BucketWriter \<Rightarrow> nat \<Rightarrow> MappingEvent list \<Rightarrow> bool" where
  "bucket_holds w b es \<longleftrightarrow> (\<exists>fs. (case bucket_files w b of None \<Rightarrow> fs = [] | Some bs \<Rightarrow> bs = concat (map event_bytes fs))
     \<and> es = fs @ buffers w b)"

lemma flushBucket_holds: "bucket_holds w c es \<Longrightarrow> bucket_holds (flushBucket b w) c es"
  by (auto simp: bucket_holds_def flushBucket_def split: option.splits)

lemma flushBucket_empty: "buffers (flushBucket b w) c = (if c = b then [] else buffers w c)"
  by (simp add: flushBucket_def)

lemma bucket_write_holds:
  assumes "\<forall>b. bucket_holds w b (filter (\<lambda>e. bucketFor (hash_id e) = b) es)"
  shows "bucket_holds (bucket_write e w) b (filter (\<lambda>e. bucketFor (hash_id e) = b) (es @ [e]))"
proof -
  let ?b = "bucketFor (hash_id e)"
  let ?w = "w\<lparr>buffers := (buffers w)(?b := buffers w ?b @ [e]), bucket_counts := (bucket_counts w)(?b := bucket_counts w ?b + 1)\<rparr>"
  have "bucket_holds ?w b (filter (\<lambda>e. bucketFor (hash_id e) = b) (es @ [e]))"
    using assms [rule_format, of b] by (auto simp: bucket_holds_def)
  then show ?thesis by (simp add: bucket_write_def Let_def flushBucket_holds)
qed

lemma bucket_writes_hold:
  "bucket_holds (fold bucket_write es (newBucketWriter n (\<lambda>_. None))) b (filter (\<lambda>e. bucketFor (hash_id e) = b) es)"
proof (induction es arbitrary: b rule: rev_induct)
  case Nil
  then show ?case by (simp add: bucket_holds_def newBucketWriter_def)
qed (simp only: fold_append fold_simps comp_apply bucket_write_holds simp_thms)

lemma bucket_writes_count:
  "bucket_counts (fold bucket_write es (newBucketWriter n dir)) b
     = length (filter (\<lambda>e. bucketFor (hash_id e) = b) es)"
proof (induction es rule: rev_induct)
  case (snoc e es)
  have "bucket_counts (flushBucket c w) = bucket_counts w" for c w by (simp add: flushBucket_def)
  then have "bucket_counts (bucket_write e w) b
      = bucket_counts w b + (if bucketFor (hash_id e) = b then 1 else 0)" for w
    by (simp add: bucket_write_def Let_def)
  then show ?case using snoc by simp
qed (simp add: newBucketWriter_def)

lemma flush_fold:
  "bucket_holds w c es \<Longrightarrow> bucket_holds (fold flushBucket bs w) c es"
  "buffers (fold flushBucket bs w) c = (if c \<in> set bs then [] else buffers w c)"
  "bucket_counts (fold flushBucket bs w) = bucket_counts w"
proof (induction bs arbitrary: w)
  case (Cons b bs)
  { case 1 then show ?case using Cons(1) flushBucket_holds by simp }
  { case 2 show ?case using Cons by (simp add: flushBucket_empty) }
  { case 3 show ?case using Cons by (simp add: flushBucket_def) }
qed simp_all

text \<open>A later writer on the same directory appends to the files an earlier one left.\<close>

lemma bucket_writes_hold_after:
  assumes "\<forall>b. bucket_holds w b (filter (\<lambda>e. bucketFor (hash_id e) = b) old)"
  shows "bucket_holds (fold bucket_write es w) b (filter (\<lambda>e. bucketFor (hash_id e) = b) (old @ es))"
proof (induction es arbitrary: b rule: rev_induct)
  case (snoc e es)
  have "bucket_holds (bucket_write e (fold bucket_write es w)) b (filter (\<lambda>e. bucketFor (hash_id e) = b) ((old @ es) @ [e]))"
    using snoc by (intro bucket_write_holds) blast
  then show ?case by simp
qed (use assms in simp)

lemma bucketFor_less: "bucketFor h < BUCKET_COUNT"
  by (simp add: bucketFor_def BUCKET_COUNT_def)

lemma reopened_holds:
  assumes "\<forall>b. bucket_holds w b (filter (\<lambda>e. bucketFor (hash_id e) = b) old)"
  shows "bucket_holds (newBucketWriter n (bucket_files (bucket_flush w))) b (filter (\<lambda>e. bucketFor (hash_id e) = b) old)"
proof -
  have h: "bucket_holds (bucket_flush w) b (filter (\<lambda>e. bucketFor (hash_id e) = b) old)"
    unfolding bucket_flush_def using assms by (intro flush_fold(1)) blast
  have "buffers (bucket_flush w) b = []"
  proof (cases "b < BUCKET_COUNT")
    case True
    then show ?thesis by (simp add: bucket_flush_def flush_fold)
  next
    case False
    then have "filter (\<lambda>e. bucketFor (hash_id e) = b) old = []" using bucketFor_less by (auto simp: filter_empty_conv)
    then show ?thesis using h by (auto simp: bucket_holds_def)
  qed
  then show ?thesis using h by (simp add: bucket_holds_def newBucketWriter_def)
qed

lemma held_bucket_file:
  assumes "b < BUCKET_COUNT" and "\<forall>b. bucket_holds w b (filter (\<lambda>e. bucketFor (hash_id e) = b) es)"
  shows "readBucket (bucket_files (bucket_flush w) b) = Inr (filter (\<lambda>e. bucketFor (hash_id e) = b) es)"
proof -
  have "bucket_holds (bucket_flush w) b (filter (\<lambda>e. bucketFor (hash_id e) = b) es)"
    unfolding bucket_flush_def using assms(2) by (intro flush_fold(1)) blast
  moreover have "buffers (bucket_flush w) b = []" using assms(1) by (simp add: bucket_flush_def flush_fold)
  moreover have "length (concat (map event_bytes fs)) = 12 * length fs" for fs by (induction fs) auto
  ultimately show ?thesis
    by (auto simp: bucket_holds_def readBucket_def events_of_events split: option.splits)
qed

lemma bucket_flushed_file:
  assumes "b < BUCKET_COUNT"
  shows "readBucket (bucket_files (bucket_flush (fold bucket_write es (newBucketWriter n (\<lambda>_. None)))) b)
    = Inr (filter (\<lambda>e. bucketFor (hash_id e) = b) es)"
  by (intro held_bucket_file assms allI bucket_writes_hold)

lemma length_by_bucket:
  "(\<Sum>b\<leftarrow>[0..<BUCKET_COUNT]. length (filter (\<lambda>e. bucketFor (hash_id e) = b) es)) = length es"
proof (induction es)
  case (Cons e es)
  have "bucketFor (hash_id e) < BUCKET_COUNT" by (simp add: bucketFor_def BUCKET_COUNT_def)
  then have "(\<Sum>b\<leftarrow>[0..<BUCKET_COUNT]. if bucketFor (hash_id e) = b then 1 else (0 :: nat)) = 1"
    by (simp add: interv_sum_list_conv_sum_set_nat)
  moreover have "(\<Sum>b\<leftarrow>[0..<BUCKET_COUNT]. length (filter (\<lambda>e. bucketFor (hash_id e) = b) (e # es)))
      = (\<Sum>b\<leftarrow>[0..<BUCKET_COUNT]. if bucketFor (hash_id e) = b then 1 else (0 :: nat))
        + (\<Sum>b\<leftarrow>[0..<BUCKET_COUNT]. length (filter (\<lambda>e. bucketFor (hash_id e) = b) es))"
    by (subst sum_list_addf [symmetric]) (auto intro: arg_cong [where f = sum_list])
  ultimately show ?case using Cons by simp
qed (simp add: sum_list_triv)

section \<open>The used-tag bit set\<close>

text \<open>The ids whose bit is set.\<close>

definition marked :: "TagUsageSet \<Rightarrow> nat set" where
  "marked u = {i. i div 64 < length (usage_words u) \<and> bit (usage_words u ! (i div 64)) (i mod 64)}"

lemma marked_mark:
  assumes "length (usage_words u) = (usage_capacity u + 64 - 1) div 64"
  shows "marked (usage_mark t u) = marked u \<union> (if unat t < usage_capacity u then {unat t} else {})"
proof (cases "unat t < usage_capacity u")
  case True
  have l: "unat t div 64 < length (usage_words u)" using True assms by linarith
  have b: "bit (push_bit (unat t mod 64) 1 :: u64) n \<longleftrightarrow> n = unat t mod 64" if "n < 64" for n
    using that by (auto simp: bit_exp_iff)
  have "i \<in> marked (usage_mark t u) \<longleftrightarrow> i \<in> marked u \<or> i = unat t" for i
  proof (cases "i div 64 = unat t div 64")
    case same: True
    have "i = unat t \<longleftrightarrow> i mod 64 = unat t mod 64" using same by (metis div_mult_mod_eq)
    then show ?thesis
      using True l b [of "i mod 64"] same by (auto simp: marked_def usage_mark_def Let_def bit_or_iff)
  next
    case False
    then have "i \<noteq> unat t" by auto
    then show ?thesis using True False by (auto simp: marked_def usage_mark_def Let_def)
  qed
  then show ?thesis using True by auto
qed (simp add: usage_mark_def)

lemma usage_count_marked: "usage_count u = card (marked u)"
proof -
  let ?n = "length (usage_words u)"
  let ?B = "\<lambda>j. (\<lambda>i. 64 * j + i) ` {i. i < 64 \<and> bit (usage_words u ! j) i}"
  have "marked u = (\<Union>j < ?n. ?B j)"
  proof (rule set_eqI, rule iffI)
    fix i assume "i \<in> marked u"
    then have "i \<in> ?B (i div 64)" "i div 64 < ?n"
      by (auto simp: marked_def image_iff intro!: exI [of _ "i mod 64"])
    then show "i \<in> (\<Union>j < ?n. ?B j)" by blast
  qed (auto simp: marked_def)
  moreover have "card (\<Union>j < ?n. ?B j) = (\<Sum>j < ?n. card (?B j))"
    by (rule card_UN_disjoint) auto
  moreover have "card (?B j) = length (filter (bit (usage_words u ! j)) [0..<64])" for j
  proof -
    have "card (?B j) = card {i. i < 64 \<and> bit (usage_words u ! j) i}" by (intro card_image) (simp add: inj_on_def)
    also have "\<dots> = card (set (filter (bit (usage_words u ! j)) [0..<64]))"
      by (rule arg_cong [where f = card]) auto
    also have "\<dots> = length (filter (bit (usage_words u ! j)) [0..<64])" by (intro distinct_card distinct_filter) simp
    finally show ?thesis .
  qed
  ultimately show ?thesis
    by (simp add: usage_count_def sum_list_sum_nth atLeast0LessThan)
qed

end
