(* ===== verification/Ptr_Chunk.thy ===== *)
theory Ptr_Chunk
  imports Ptr_Events
begin

text \<open>
  The compacted chunk files of the PTR tools (\<^verbatim>\<open>ptr-core/src/ChunkFormat.cpp\<close>): the writer's
  string table, index rewriting, serialisation and header, and the reader.  zlib is a parameter:
  \<open>compress\<close> yields the compressed bytes or fails, \<open>uncompress\<close> takes the compressed bytes and the
  room in the output buffer.  A chunk file is its bytes; failing file operations are not modelled.
\<close>

section \<open>Data\<close>

record PendingRecord =
  pr_sha256 :: "byte list"
  add_tag_ids :: "u32 list"
  del_tag_ids :: "u32 list"

record ChunkWriter =
  cw_records :: "PendingRecord list"
  cw_finished :: bool

record ChunkStats =
  st_records :: nat
  st_mappings :: nat
  st_missing :: nat

record ChunkStringEntry =
  ptr_tag_id :: u32
  entry_tag :: string

record ChunkRecord =
  cr_sha256 :: "byte list"
  add_indices :: "u32 list"
  del_indices :: "u32 list"

record Chunk =
  chunk_strings :: "ChunkStringEntry list"
  chunk_records :: "ChunkRecord list"

record ChunkHeader =
  hd_magic :: string
  hd_version :: u32
  hd_body_size :: nat
  hd_record_count :: u32
  hd_string_count :: u32

definition CHUNK_MAGIC :: string where
  "CHUNK_MAGIC = ''IDHANPTC''"

definition CHUNK_FORMAT_VERSION :: u32 where
  "CHUNK_FORMAT_VERSION = 2"

type_synonym deflater = "byte list \<Rightarrow> byte list option"
type_synonym inflater = "byte list \<Rightarrow> nat \<Rightarrow> byte list option"

datatype chunk_error =
    FinishedTwice | DeflateFailed | InflateFailed | WrongBodySize nat nat
  | TooSmall | WrongMagic | WrongVersion u32 | BadBody read_error

section \<open>Compression\<close>

definition deflateBuffer :: "deflater \<Rightarrow> byte list \<Rightarrow> (chunk_error, byte list) result" where
  "deflateBuffer compress input = (case compress input of None \<Rightarrow> Inl DeflateFailed | Some out \<Rightarrow> Inr out)"

definition inflateBuffer :: "inflater \<Rightarrow> byte list \<Rightarrow> nat \<Rightarrow> (chunk_error, byte list) result" where
  "inflateBuffer uncompress input expected_size =
     (if expected_size = 0 then Inr []
      else case uncompress input expected_size of
        None \<Rightarrow> Inl InflateFailed
      | Some out \<Rightarrow> if length out \<noteq> expected_size then Inl (WrongBodySize (length out) expected_size) else Inr out)"

section \<open>The writer\<close>

definition newChunkWriter :: ChunkWriter where
  "newChunkWriter = \<lparr>cw_records = [], cw_finished = False\<rparr>"

definition addRecord :: "byte list \<Rightarrow> u32 list \<Rightarrow> u32 list \<Rightarrow> ChunkWriter \<Rightarrow> ChunkWriter" where
  "addRecord sha adds dels w =
     w\<lparr>cw_records := cw_records w @ [\<lparr>pr_sha256 = sha, add_tag_ids = adds, del_tag_ids = dels\<rparr>]\<rparr>"

definition distinct_ids :: "PendingRecord list \<Rightarrow> u32 list" where
  "distinct_ids rs = remdups_adj (sort (concat (map (\<lambda>r. add_tag_ids r @ del_tag_ids r) rs)))"

text \<open>The string table under construction: its entries, the index of each id, and the marked ids.\<close>

type_synonym table = "ChunkStringEntry list \<times> (u32 \<rightharpoonup> u32) \<times> TagUsageSet option"

definition table_step :: "(u32 \<Rightarrow> string option) \<Rightarrow> u32 \<Rightarrow> table \<Rightarrow> table" where
  "table_step lookup t = (\<lambda>(strings, id_to_index, usage).
     (case lookup t of
        None \<Rightarrow> (strings, id_to_index, usage)
      | Some text \<Rightarrow>
          (strings @ [\<lparr>ptr_tag_id = t, entry_tag = text\<rparr>],
           (case id_to_index t of None \<Rightarrow> id_to_index(t \<mapsto> of_nat (length strings)) | Some _ \<Rightarrow> id_to_index),
           map_option (usage_mark t) usage)))"

definition string_table :: "(u32 \<Rightarrow> string option) \<Rightarrow> u32 list \<Rightarrow> TagUsageSet option \<Rightarrow> table" where
  "string_table lookup ids usage = fold (table_step lookup) ids ([], (\<lambda>_. None), usage)"

fun remap :: "(u32 \<rightharpoonup> u32) \<Rightarrow> u32 list \<Rightarrow> ChunkStats \<Rightarrow> u32 list \<times> ChunkStats" where
  "remap id_to_index [] stats = ([], stats)"
| "remap id_to_index (i # ids) stats =
     (case id_to_index i of
        None \<Rightarrow> remap id_to_index ids (stats\<lparr>st_missing := st_missing stats + 1\<rparr>)
      | Some index \<Rightarrow>
          (case remap id_to_index ids (stats\<lparr>st_mappings := st_mappings stats + 1\<rparr>) of
             (out, stats') \<Rightarrow> (index # out, stats')))"

definition entry_bytes_of :: "ChunkStringEntry \<Rightarrow> byte list" where
  "entry_bytes_of e = appendPod32 (ptr_tag_id e) @ appendPod32 (of_nat (length (entry_tag e))) @ text_bytes (entry_tag e)"

definition record_bytes :: "ChunkRecord \<Rightarrow> byte list" where
  "record_bytes r = cr_sha256 r @ appendPod32 (of_nat (length (add_indices r))) @ appendPod32 (of_nat (length (del_indices r)))
     @ concat (map appendPod32 (add_indices r)) @ concat (map appendPod32 (del_indices r))"

fun remap_records :: "(u32 \<rightharpoonup> u32) \<Rightarrow> PendingRecord list \<Rightarrow> ChunkStats \<Rightarrow> ChunkRecord list \<times> ChunkStats" where
  "remap_records id_to_index [] stats = ([], stats)"
| "remap_records id_to_index (r # rs) stats =
     (case remap id_to_index (add_tag_ids r) stats of
        (adds, stats1) \<Rightarrow>
          (case remap id_to_index (del_tag_ids r) stats1 of
             (dels, stats2) \<Rightarrow>
               (case remap_records id_to_index rs stats2 of
                  (out, stats3) \<Rightarrow>
                    (\<lparr>cr_sha256 = pr_sha256 r, add_indices = adds, del_indices = dels\<rparr> # out, stats3))))"

definition header_bytes :: "ChunkHeader \<Rightarrow> byte list" where
  "header_bytes h = text_bytes (hd_magic h) @ appendPod32 (hd_version h) @ le_bytes 8 (hd_body_size h)
     @ appendPod32 (hd_record_count h) @ appendPod32 (hd_string_count h)"

record chunk_output =
  out_stats :: ChunkStats
  out_usage :: "TagUsageSet option"
  out_file :: "byte list"

definition chunk_body :: "ChunkStringEntry list \<Rightarrow> ChunkRecord list \<Rightarrow> byte list" where
  "chunk_body strings rs = concat (map entry_bytes_of strings) @ concat (map record_bytes rs)"

definition finish ::
  "deflater \<Rightarrow> (u32 \<Rightarrow> string option) \<Rightarrow> TagUsageSet option \<Rightarrow> ChunkWriter \<Rightarrow>
   (chunk_error, chunk_output) result \<times> ChunkWriter" where
  "finish compress lookup usage w =
     (if cw_finished w then (Inl FinishedTwice, w)
      else
        (let w' = w\<lparr>cw_finished := True\<rparr>;
             stats = \<lparr>st_records = length (cw_records w), st_mappings = 0, st_missing = 0\<rparr> in
         case string_table lookup (distinct_ids (cw_records w)) usage of (strings, id_to_index, usage') \<Rightarrow>
         (case remap_records id_to_index (cw_records w) stats of (rs, stats') \<Rightarrow>
           (let body = chunk_body strings rs;
                header = \<lparr>hd_magic = CHUNK_MAGIC, hd_version = CHUNK_FORMAT_VERSION, hd_body_size = length body,
                  hd_record_count = of_nat (length (cw_records w)), hd_string_count = of_nat (length strings)\<rparr> in
            (case deflateBuffer compress body of
               Inl e \<Rightarrow> (Inl e, w')
             | Inr compressed \<Rightarrow>
                 (Inr \<lparr>out_stats = stats', out_usage = usage', out_file = header_bytes header @ compressed\<rparr>, w'))))))"

section \<open>The reader\<close>

definition header_of_bytes :: "byte list \<Rightarrow> ChunkHeader" where
  "header_of_bytes bs = \<lparr>hd_magic = bytes_text (take 8 bs), hd_version = of_nat (le_val (take 4 (drop 8 bs))),
     hd_body_size = le_val (take 8 (drop 12 bs)), hd_record_count = of_nat (le_val (take 4 (drop 20 bs))),
     hd_string_count = of_nat (le_val (take 4 (drop 24 bs)))\<rparr>"

definition take_entry :: "ChunkStringEntry taker" where
  "take_entry =
     take_then (takePod32 ''a string table id'') (\<lambda>i.
     take_then (takePod32 ''a string table length'') (\<lambda>n.
     take_then (take_block ''inside the string table'' (unat n)) (\<lambda>bs.
     take_done \<lparr>ptr_tag_id = i, entry_tag = bytes_text bs\<rparr>)))"

definition takeIndices :: "u32 \<Rightarrow> u32 list taker" where
  "takeIndices n = take_many (takePod32 ''a tag index'') (unat n)"

definition take_record :: "ChunkRecord taker" where
  "take_record =
     take_then (take_block ''inside a record hash'' SHA256_BYTES) (\<lambda>sha.
     take_then (takePod32 ''an add count'') (\<lambda>add_count.
     take_then (takePod32 ''a delete count'') (\<lambda>del_count.
     take_then (takeIndices add_count) (\<lambda>adds.
     take_then (takeIndices del_count) (\<lambda>dels.
     take_done \<lparr>cr_sha256 = sha, add_indices = adds, del_indices = dels\<rparr>)))))"

definition readChunk :: "inflater \<Rightarrow> byte list \<Rightarrow> (chunk_error, Chunk) result" where
  "readChunk uncompress file =
     (if length file < 28 then Inl TooSmall
      else
        (let header = header_of_bytes (take 28 file) in
         if hd_magic header \<noteq> CHUNK_MAGIC then Inl WrongMagic
         else if hd_version header \<noteq> CHUNK_FORMAT_VERSION then Inl (WrongVersion (hd_version header))
         else case inflateBuffer uncompress (drop 28 file) (hd_body_size header) of
           Inl e \<Rightarrow> Inl e
         | Inr body \<Rightarrow>
             (case take_many take_entry (unat (hd_string_count header)) body 0 of
                Inl e \<Rightarrow> Inl (BadBody e)
              | Inr (strings, offset) \<Rightarrow>
                  (case take_many take_record (unat (hd_record_count header)) body offset of
                     Inl e \<Rightarrow> Inl (BadBody e)
                   | Inr (rs, offset') \<Rightarrow> Inr \<lparr>chunk_strings = strings, chunk_records = rs\<rparr>))))"

section \<open>Serialisation\<close>

definition entry_fits :: "ChunkStringEntry \<Rightarrow> bool" where
  "entry_fits e \<longleftrightarrow> length (entry_tag e) < 2 ^ 32"

definition record_fits :: "ChunkRecord \<Rightarrow> bool" where
  "record_fits r \<longleftrightarrow> length (cr_sha256 r) = SHA256_BYTES \<and> length (add_indices r) < 2 ^ 32 \<and> length (del_indices r) < 2 ^ 32"

interpretation entries: offset_codec entry_bytes_of take_entry entry_fits
proof
  fix e :: ChunkStringEntry
  assume "entry_fits e"
  then have "length (text_bytes (entry_tag e)) = unat (of_nat (length (entry_tag e)) :: u32)"
    by (simp add: entry_fits_def unat_u32)
  then have "reads_as take_entry (entry_bytes_of e) \<lparr>ptr_tag_id = ptr_tag_id e, entry_tag = bytes_text (text_bytes (entry_tag e))\<rparr>"
    unfolding take_entry_def entry_bytes_of_def
    by (intro reads_as_then [OF takePod32_reads] reads_as_last reads_as_block)
  then show "reads_as take_entry (entry_bytes_of e) e" by (cases e) simp
qed

lemma takeIndices_reads: "length is < 2 ^ 32 \<Longrightarrow> reads_as (takeIndices (of_nat (length is))) (concat (map appendPod32 is)) is"
  unfolding takeIndices_def by (subst unat_u32) (auto intro: pod32.reads_many simp: list_all_iff)

interpretation chunk_recs: offset_codec record_bytes take_record record_fits
proof
  fix r :: ChunkRecord
  assume "record_fits r"
  then have "reads_as take_record (record_bytes r)
      \<lparr>cr_sha256 = cr_sha256 r, add_indices = add_indices r, del_indices = del_indices r\<rparr>"
    unfolding take_record_def record_bytes_def record_fits_def
    by (intro reads_as_then [OF reads_as_block] reads_as_then [OF takePod32_reads] reads_as_then [OF takeIndices_reads]
        reads_as_last takeIndices_reads) auto
  then show "reads_as take_record (record_bytes r) r" by (cases r) simp
qed

lemma header_roundtrip:
  assumes "length (hd_magic h) = 8" and "hd_body_size h < 2 ^ 64"
  shows "header_of_bytes (header_bytes h) = h" and "length (header_bytes h) = 28"
proof -
  have "(of_nat (unat v mod 256 ^ 4) :: u32) = v" for v using u32_less [of v] by simp
  moreover have "hd_body_size h mod 256 ^ 8 = hd_body_size h" using assms(2) by simp
  ultimately show "header_of_bytes (header_bytes h) = h"
    using assms(1) by (simp add: header_of_bytes_def header_bytes_def appendPod32_def le_val_le_bytes)
  show "length (header_bytes h) = 28" using assms(1) by (simp add: header_bytes_def)
qed

section \<open>The string table\<close>

definition entry_for :: "(u32 \<Rightarrow> string option) \<Rightarrow> u32 \<Rightarrow> ChunkStringEntry option" where
  "entry_for lookup t = map_option (\<lambda>text. \<lparr>ptr_tag_id = t, entry_tag = text\<rparr>) (lookup t)"

lemma distinct_remdups_adj_sorted: "sorted xs \<Longrightarrow> distinct (remdups_adj xs)"
proof (induction xs rule: remdups_adj.induct)
  case (3 x y xs)
  then show ?case by (cases "x = y") (auto simp: less_le)
qed simp_all

lemma distinct_ids_props:
  "sorted (distinct_ids rs)" "distinct (distinct_ids rs)"
  "set (distinct_ids rs) = (\<Union>r \<in> set rs. set (add_tag_ids r) \<union> set (del_tag_ids r))"
  by (auto simp: distinct_ids_def distinct_remdups_adj_sorted)

definition table_ok :: "(u32 \<Rightarrow> string option) \<Rightarrow> u32 list \<Rightarrow> ChunkStringEntry list \<Rightarrow> (u32 \<rightharpoonup> u32) \<Rightarrow> bool" where
  "table_ok lookup ids strings m \<longleftrightarrow> strings = List.map_filter (entry_for lookup) ids \<and>
     (\<forall>t. case m t of
        None \<Rightarrow> t \<in> set ids \<longrightarrow> lookup t = None
      | Some i \<Rightarrow> unat i < length strings \<and> entry_for lookup t = Some (strings ! unat i))"

lemma string_table_ok:
  assumes "distinct ids" and "length (List.map_filter (entry_for lookup) ids) < 2 ^ 32"
  shows "case string_table lookup ids usage of (strings, m, usage') \<Rightarrow>
    table_ok lookup ids strings m \<and> dom m \<subseteq> set ids \<and>
    usage' = map_option (fold usage_mark (map ptr_tag_id strings)) usage"
  using assms
proof (induction ids rule: rev_induct)
  case Nil
  then show ?case by (simp add: string_table_def table_ok_def map_filter_simps option.map_id)
next
  case (snoc t ids)
  obtain strings m u where st: "string_table lookup ids usage = (strings, m, u)" by (metis prod_cases3)
  have "length (List.map_filter (entry_for lookup) ids) < 2 ^ 32"
    using snoc.prems(2) by (simp add: map_filter_def)
  then have IH: "table_ok lookup ids strings m" "dom m \<subseteq> set ids" "u = map_option (fold usage_mark (map ptr_tag_id strings)) usage"
    using snoc st by auto
  have step: "string_table lookup (ids @ [t]) usage = table_step lookup t (strings, m, u)"
    using st by (simp add: string_table_def)
  show ?case
  proof (cases "lookup t")
    case None
    then show ?thesis using IH by (auto simp: step table_step_def table_ok_def map_filter_def entry_for_def split: option.splits)
  next
    case (Some tx)
    have new: "m t = None" using IH(2) snoc.prems(1) by auto
    have "length strings < 2 ^ 32" using IH(1) snoc.prems(2) by (simp add: table_ok_def map_filter_def)
    then have n: "unat (of_nat (length strings) :: u32) = length strings" by (rule unat_u32)
    have "List.map_filter (entry_for lookup) (ids @ [t]) = strings @ [\<lparr>ptr_tag_id = t, entry_tag = tx\<rparr>]"
      using IH(1) Some by (simp add: table_ok_def map_filter_def entry_for_def)
    then have "table_ok lookup (ids @ [t]) (strings @ [\<lparr>ptr_tag_id = t, entry_tag = tx\<rparr>]) (m(t \<mapsto> of_nat (length strings)))"
      using IH(1) Some n unfolding table_ok_def
      by (auto simp: entry_for_def nth_append split: option.splits)
    moreover have "map_option (usage_mark t) u = map_option (fold usage_mark (map ptr_tag_id strings @ [t])) usage"
      using IH(3) by (simp add: option.map_comp)
    ultimately show ?thesis using IH(2) Some new by (auto simp: step table_step_def)
  qed
qed

lemma remap_result:
  "remap m ids stats = (List.map_filter m ids,
     stats\<lparr>st_mappings := st_mappings stats + length (List.map_filter m ids),
           st_missing := st_missing stats + (length ids - length (List.map_filter m ids))\<rparr>)"
proof (induction ids arbitrary: stats)
  case (Cons i ids)
  have "length (List.map_filter m ids) \<le> length ids" by (simp add: map_filter_def)
  then show ?case using Cons by (simp add: map_filter_simps Suc_diff_le split: option.splits)
qed (simp add: map_filter_simps)

definition remapped :: "(u32 \<rightharpoonup> u32) \<Rightarrow> PendingRecord \<Rightarrow> ChunkRecord" where
  "remapped m r = \<lparr>cr_sha256 = pr_sha256 r, add_indices = List.map_filter m (add_tag_ids r),
     del_indices = List.map_filter m (del_tag_ids r)\<rparr>"

definition all_ids :: "PendingRecord list \<Rightarrow> u32 list" where
  "all_ids rs = concat (map (\<lambda>r. add_tag_ids r @ del_tag_ids r) rs)"

lemma map_filter_length: "length (List.map_filter m ids) \<le> length ids"
  by (simp add: map_filter_def)

lemma remap_records_result:
  "remap_records m rs stats = (map (remapped m) rs,
     stats\<lparr>st_mappings := st_mappings stats + length (List.map_filter m (all_ids rs)),
           st_missing := st_missing stats + (length (all_ids rs) - length (List.map_filter m (all_ids rs)))\<rparr>)"
proof (induction rs arbitrary: stats)
  case (Cons r rs)
  have "List.map_filter m (all_ids (r # rs)) = List.map_filter m (add_tag_ids r) @ List.map_filter m (del_tag_ids r)
      @ List.map_filter m (all_ids rs)"
    by (simp add: all_ids_def map_filter_def)
  moreover have "length (all_ids (r # rs)) = length (add_tag_ids r) + length (del_tag_ids r) + length (all_ids rs)"
    by (simp add: all_ids_def)
  ultimately show ?case
    using Cons map_filter_length [of m "add_tag_ids r"] map_filter_length [of m "del_tag_ids r"]
      map_filter_length [of m "all_ids rs"]
    by (simp add: remap_result remapped_def)
qed (simp add: all_ids_def map_filter_simps)

section \<open>What a chunk says\<close>

text \<open>A record of a chunk with its indices resolved in the string table.\<close>

definition resolved :: "Chunk \<Rightarrow> (byte list \<times> ChunkStringEntry list \<times> ChunkStringEntry list) list" where
  "resolved c = map (\<lambda>r. (cr_sha256 r, map (\<lambda>i. chunk_strings c ! unat i) (add_indices r),
     map (\<lambda>i. chunk_strings c ! unat i) (del_indices r))) (chunk_records c)"

definition chunk_spec ::
  "(u32 \<Rightarrow> string option) \<Rightarrow> PendingRecord list \<Rightarrow> (byte list \<times> ChunkStringEntry list \<times> ChunkStringEntry list) list" where
  "chunk_spec lookup rs = map (\<lambda>r. (pr_sha256 r, List.map_filter (entry_for lookup) (add_tag_ids r),
     List.map_filter (entry_for lookup) (del_tag_ids r))) rs"

lemma resolve_indices:
  assumes "table_ok lookup ids strings m" and "set ts \<subseteq> set ids"
  shows "map (\<lambda>i. strings ! unat i) (List.map_filter m ts) = List.map_filter (entry_for lookup) ts"
  using assms(2)
proof (induction ts)
  case (Cons t ts)
  have "case m t of None \<Rightarrow> lookup t = None | Some i \<Rightarrow> entry_for lookup t = Some (strings ! unat i)"
    using assms(1) Cons.prems unfolding table_ok_def by (auto split: option.splits)
  then show ?case using Cons by (auto simp: map_filter_simps entry_for_def split: option.splits)
qed (simp add: map_filter_simps)

lemma string_table_strings: "fst (string_table lookup ids usage) = List.map_filter (entry_for lookup) ids"
proof (induction ids rule: rev_induct)
  case (snoc t ids)
  then show ?case
    by (auto simp: string_table_def table_step_def map_filter_def entry_for_def split: prod.splits option.splits)
qed (simp add: string_table_def map_filter_simps)

text \<open>The uncompressed body of the chunk for some records.\<close>

definition body_of :: "(u32 \<Rightarrow> string option) \<Rightarrow> PendingRecord list \<Rightarrow> byte list" where
  "body_of lookup rs =
     (case string_table lookup (distinct_ids rs) None of (strings, m, _) \<Rightarrow> chunk_body strings (map (remapped m) rs))"

lemma concat_part: "x \<in> set xs \<Longrightarrow> length (f x) \<le> length (concat (map f xs))"
  by (induction xs) auto

lemma concat_count: "(\<And>x. k \<le> length (f x)) \<Longrightarrow> k * length xs \<le> length (concat (map f xs))"
  by (induction xs) (auto simp: add_mono)

lemma small_body_fits:
  assumes "length (chunk_body strings rs) < 2 ^ 32" and "list_all (\<lambda>r. length (cr_sha256 r) = SHA256_BYTES) rs"
  shows "list_all entry_fits strings" and "list_all record_fits rs"
    and "length strings < 2 ^ 32" and "length rs < 2 ^ 32"
proof -
  have b: "length (concat (map entry_bytes_of strings)) < 2 ^ 32" "length (concat (map record_bytes rs)) < 2 ^ 32"
    using assms(1) by (simp_all add: chunk_body_def)
  show "list_all entry_fits strings"
    unfolding list_all_iff
  proof
    fix e assume "e \<in> set strings"
    from concat_part [OF this, of entry_bytes_of] show "entry_fits e"
      using b(1) by (simp add: entry_bytes_of_def entry_fits_def)
  qed
  show "list_all record_fits rs"
    unfolding list_all_iff
  proof
    fix r assume r: "r \<in> set rs"
    have "4 * length is \<le> length (concat (map appendPod32 is))" for "is" by (rule concat_count) simp
    from this [of "add_indices r"] this [of "del_indices r"] concat_part [OF r, of record_bytes] show "record_fits r"
      using b(2) r assms(2) by (simp add: record_bytes_def record_fits_def list_all_iff)
  qed
  have "1 * length strings \<le> length (concat (map entry_bytes_of strings))"
    by (rule concat_count) (simp add: entry_bytes_of_def)
  then show "length strings < 2 ^ 32" using b(1) by simp
  have "1 * length rs \<le> length (concat (map record_bytes rs))"
    by (rule concat_count) (simp add: record_bytes_def)
  then show "length rs < 2 ^ 32" using b(2) by simp
qed

lemma body_reads:
  assumes "list_all entry_fits strings" and "list_all record_fits rs"
  shows "take_many take_entry (length strings) (chunk_body strings rs) 0 = Inr (strings, length (concat (map entry_bytes_of strings)))"
    and "\<exists>k. take_many take_record (length rs) (chunk_body strings rs) (length (concat (map entry_bytes_of strings))) = Inr (rs, k)"
proof -
  show "take_many take_entry (length strings) (chunk_body strings rs) 0 = Inr (strings, length (concat (map entry_bytes_of strings)))"
    unfolding chunk_body_def by (rule reads_as_start [OF entries.reads_many [OF assms(1)]])
  have "take_many take_record (length rs) (concat (map entry_bytes_of strings) @ concat (map record_bytes rs) @ [])
      (length (concat (map entry_bytes_of strings)))
    = Inr (rs, length (concat (map entry_bytes_of strings)) + length (concat (map record_bytes rs)))"
    using chunk_recs.reads_many [OF assms(2)] unfolding reads_as_def by blast
  then show "\<exists>k. take_many take_record (length rs) (chunk_body strings rs) (length (concat (map entry_bytes_of strings))) = Inr (rs, k)"
    by (simp add: chunk_body_def)
qed

lemma readChunk_written:
  assumes "uncompress c (length (chunk_body strings rs)) = Some (chunk_body strings rs)"
    and "length (chunk_body strings rs) < 2 ^ 32" and "list_all (\<lambda>r. length (cr_sha256 r) = SHA256_BYTES) rs"
  shows "readChunk uncompress (header_bytes \<lparr>hd_magic = CHUNK_MAGIC, hd_version = CHUNK_FORMAT_VERSION,
      hd_body_size = length (chunk_body strings rs), hd_record_count = of_nat (length rs),
      hd_string_count = of_nat (length strings)\<rparr> @ c) = Inr \<lparr>chunk_strings = strings, chunk_records = rs\<rparr>"
    (is "readChunk _ (header_bytes ?h @ c) = _")
proof -
  let ?b = "chunk_body strings rs"
  note small = small_body_fits [OF assms(2,3)]
  have h: "header_of_bytes (header_bytes ?h) = ?h" "length (header_bytes ?h) = 28"
    using assms(2) by (auto intro!: header_roundtrip simp: CHUNK_MAGIC_def)
  have "inflateBuffer uncompress c (length ?b) = Inr ?b"
    using assms(1) by (simp add: inflateBuffer_def)
  then show ?thesis
    using h body_reads [OF small(1,2)] unat_u32 [OF small(3)] unat_u32 [OF small(4)]
    by (auto simp: readChunk_def Let_def)
qed

text \<open>What \<open>finish\<close> returns when it succeeds.\<close>

lemma finish_result:
  assumes "finish compress lookup usage w = (Inr out, w')"
  obtains strings m usage' where "string_table lookup (distinct_ids (cw_records w)) usage = (strings, m, usage')"
    and "\<exists>c. compress (chunk_body strings (map (remapped m) (cw_records w))) = Some c \<and>
      out_file out = header_bytes \<lparr>hd_magic = CHUNK_MAGIC, hd_version = CHUNK_FORMAT_VERSION,
        hd_body_size = length (chunk_body strings (map (remapped m) (cw_records w))),
        hd_record_count = of_nat (length (cw_records w)), hd_string_count = of_nat (length strings)\<rparr> @ c"
    and "out_usage out = usage'"
    and "out_stats out = \<lparr>st_records = length (cw_records w),
      st_mappings = length (List.map_filter m (all_ids (cw_records w))),
      st_missing = length (all_ids (cw_records w)) - length (List.map_filter m (all_ids (cw_records w)))\<rparr>"
proof -
  obtain strings m usage' where st: "string_table lookup (distinct_ids (cw_records w)) usage = (strings, m, usage')"
    by (metis prod_cases3)
  show ?thesis
    using assms by (intro that [OF st])
      (auto simp: finish_def st remap_records_result deflateBuffer_def Let_def split: if_splits option.splits)
qed

lemma finish_total:
  assumes "\<forall>b. compress b \<noteq> None" and "\<not> cw_finished w"
  shows "\<exists>out w'. finish compress lookup usage w = (Inr out, w')"
proof -
  obtain strings m u where st: "string_table lookup (distinct_ids (cw_records w)) usage = (strings, m, u)"
    by (metis prod_cases3)
  obtain c where "compress (chunk_body strings (map (remapped m) (cw_records w))) = Some c" using assms(1) by auto
  then show ?thesis using assms(2) by (simp add: finish_def st remap_records_result deflateBuffer_def Let_def)
qed

lemma string_table_usage:
  "string_table lookup ids usage = (strings, m, usage') \<Longrightarrow> \<exists>u. string_table lookup ids usage2 = (strings, m, u)"
proof (induction ids arbitrary: strings m usage' rule: rev_induct)
  case (snoc t ids)
  obtain s1 m1 u1 where "string_table lookup ids usage = (s1, m1, u1)" by (metis prod_cases3)
  with snoc show ?case
    by (fastforce simp: string_table_def table_step_def split: option.splits)
qed (simp add: string_table_def)

lemma map_filter_sorted: "sorted_wrt (<) ids \<Longrightarrow> sorted_wrt (<) (map ptr_tag_id (List.map_filter (entry_for lookup) ids))"
  by (induction ids) (auto simp: map_filter_def entry_for_def)

lemma finish_reads_back:
  assumes "\<And>b c. compress b = Some c \<Longrightarrow> uncompress c (length b) = Some b"
    and "finish compress lookup usage w = (Inr out, w')"
    and "list_all (\<lambda>r. length (pr_sha256 r) = SHA256_BYTES) (cw_records w)"
    and "length (body_of lookup (cw_records w)) < 2 ^ 32"
  shows "\<exists>c. readChunk uncompress (out_file out) = Inr c \<and> resolved c = chunk_spec lookup (cw_records w) \<and>
    sorted_wrt (<) (map ptr_tag_id (chunk_strings c))"
proof -
  let ?ids = "distinct_ids (cw_records w)"
  obtain strings m usage' k where st: "string_table lookup ?ids usage = (strings, m, usage')"
    and k: "compress (chunk_body strings (map (remapped m) (cw_records w))) = Some k"
    and written_as: "out_file out = header_bytes \<lparr>hd_magic = CHUNK_MAGIC, hd_version = CHUNK_FORMAT_VERSION,
        hd_body_size = length (chunk_body strings (map (remapped m) (cw_records w))),
        hd_record_count = of_nat (length (cw_records w)), hd_string_count = of_nat (length strings)\<rparr> @ k"
    using finish_result [OF assms(2)] by metis
  let ?c = "\<lparr>chunk_strings = strings, chunk_records = map (remapped m) (cw_records w)\<rparr>"
  have body: "length (chunk_body strings (map (remapped m) (cw_records w))) < 2 ^ 32"
    using assms(4) string_table_usage [OF st, of None] by (auto simp: body_of_def)
  have sha: "list_all (\<lambda>r. length (cr_sha256 r) = SHA256_BYTES) (map (remapped m) (cw_records w))"
    using assms(3) by (simp add: list_all_iff remapped_def)
  have "length (List.map_filter (entry_for lookup) ?ids) < 2 ^ 32"
    using small_body_fits(3) [OF body sha] string_table_strings [of lookup ?ids usage] st by simp
  then have ok: "table_ok lookup ?ids strings m"
    using string_table_ok [OF distinct_ids_props(2), of lookup "cw_records w" usage] st by simp
  have "resolved ?c = chunk_spec lookup (cw_records w)"
    unfolding resolved_def chunk_spec_def
    by (auto simp: remapped_def distinct_ids_props(3) intro!: resolve_indices [OF ok])
  moreover have "sorted_wrt (<) (map ptr_tag_id strings)"
    using ok map_filter_sorted [of ?ids lookup] distinct_ids_props(1,2) [of "cw_records w"]
    by (simp add: table_ok_def strict_sorted_iff)
  moreover have "readChunk uncompress (out_file out) = Inr ?c"
    using readChunk_written [of uncompress k strings, OF assms(1) [OF k] body sha] by (simp add: written_as)
  ultimately show ?thesis by simp
qed

text \<open>
  C31. A chunk reads back as what was collapsed into it: when the decompressor inverts the
  compressor, the file a writer produces is read without error, and the records of the chunk,
  with their indices resolved in the string table, are the records added, in order, each with the
  tags that have a definition and their texts; the string table is strictly sorted by tag id.
  Hashes are 32 bytes and the body is under 4 GiB.
\<close>

theorem chunk_roundtrip:
  assumes "\<And>b c. compress b = Some c \<Longrightarrow> uncompress c (length b) = Some b"
    and "finish compress lookup usage w = (Inr out, w')"
    and "list_all (\<lambda>r. length (pr_sha256 r) = SHA256_BYTES) (cw_records w)"
    and "length (body_of lookup (cw_records w)) < 2 ^ 32"
  shows "\<exists>c. readChunk uncompress (out_file out) = Inr c \<and> resolved c = chunk_spec lookup (cw_records w) \<and>
    sorted_wrt (<) (map ptr_tag_id (chunk_strings c))"
  by (rule finish_reads_back [OF assms])

definition plain_compress :: deflater where
  "plain_compress b = Some b"

definition plain_uncompress :: inflater where
  "plain_uncompress c n = (if length c \<le> n then Some c else None)"

definition demo_lookup :: "u32 \<Rightarrow> string option" where
  "demo_lookup t = (if t = 3 then Some ''series:a'' else if t = 5 then Some ''b'' else None)"

definition demo_writer :: ChunkWriter where
  "demo_writer = addRecord (replicate 32 2) [5] [] (addRecord (replicate 32 1) [9, 3] [5] newChunkWriter)"

lemma plain_total: "\<forall>b. plain_compress b \<noteq> None"
  by (simp add: plain_compress_def)

lemma demo_unfinished: "\<not> cw_finished demo_writer"
  by (simp add: demo_writer_def addRecord_def newChunkWriter_def)

lemma chunk_roundtrip_witness:
  "case finish plain_compress demo_lookup None demo_writer of
     (Inl e, w) \<Rightarrow> False
   | (Inr out, w) \<Rightarrow> (\<exists>c. readChunk plain_uncompress (out_file out) = Inr c \<and>
       resolved c = [(replicate 32 1, [\<lparr>ptr_tag_id = 3, entry_tag = ''series:a''\<rparr>], [\<lparr>ptr_tag_id = 5, entry_tag = ''b''\<rparr>]),
         (replicate 32 2, [\<lparr>ptr_tag_id = 5, entry_tag = ''b''\<rparr>], [])])"
proof -
  obtain out w' where f: "finish plain_compress demo_lookup None demo_writer = (Inr out, w')"
    using finish_total [OF plain_total demo_unfinished] by blast
  have zlib: "plain_uncompress c (length b) = Some b" if "plain_compress b = Some c" for b c
    using that by (auto simp: plain_uncompress_def plain_compress_def)
  have sha: "list_all (\<lambda>r. length (pr_sha256 r) = SHA256_BYTES) (cw_records demo_writer)" by code_simp
  have "length (body_of demo_lookup (cw_records demo_writer)) \<le> 200" by code_simp
  then have size: "length (body_of demo_lookup (cw_records demo_writer)) < 2 ^ 32" by simp
  have spec: "chunk_spec demo_lookup (cw_records demo_writer) =
    [(replicate 32 1, [\<lparr>ptr_tag_id = 3, entry_tag = ''series:a''\<rparr>], [\<lparr>ptr_tag_id = 5, entry_tag = ''b''\<rparr>]),
     (replicate 32 2, [\<lparr>ptr_tag_id = 5, entry_tag = ''b''\<rparr>], [])]" by code_simp
  show ?thesis using chunk_roundtrip [of plain_compress plain_uncompress, OF zlib f sha size] by (auto simp: f spec)
qed

subsection \<open>Accounting\<close>

lemma string_table_dom:
  "case string_table lookup ids usage of (strings, m, usage') \<Rightarrow>
     dom m = {t \<in> set ids. lookup t \<noteq> None} \<and> usage' = map_option (fold usage_mark (map ptr_tag_id strings)) usage"
proof (induction ids rule: rev_induct)
  case (snoc t ids)
  obtain strings m u where st: "string_table lookup ids usage = (strings, m, u)" by (metis prod_cases3)
  then have "string_table lookup (ids @ [t]) usage = table_step lookup t (strings, m, u)"
    by (simp add: string_table_def)
  moreover have "map_option (usage_mark t) u = map_option (fold usage_mark (map ptr_tag_id strings @ [t])) usage"
    using snoc st by (simp add: option.map_comp)
  ultimately show ?case using snoc st by (auto simp: table_step_def split: option.splits)
qed (simp add: string_table_def option.map_id)

lemma usage_marks:
  assumes "length (usage_words u) = (usage_capacity u + 64 - 1) div 64"
  shows "marked (fold usage_mark ts u) = marked u \<union> unat ` {t \<in> set ts. unat t < usage_capacity u}"
  using assms
proof (induction ts arbitrary: u)
  case (Cons t ts)
  have "length (usage_words (usage_mark t u)) = (usage_capacity (usage_mark t u) + 64 - 1) div 64"
    and c: "usage_capacity (usage_mark t u) = usage_capacity u"
    using Cons.prems by (simp_all add: usage_mark_def Let_def)
  from Cons.IH [OF this(1)] show ?case using marked_mark [OF Cons.prems, of t] c by auto
qed simp

lemma map_filter_count: "length (List.map_filter m ts) = length (filter (\<lambda>t. t \<in> dom m) ts)"
  by (simp add: map_filter_def dom_def)

lemma table_ids: "ptr_tag_id ` set (List.map_filter (entry_for lookup) ids) = {t \<in> set ids. lookup t \<noteq> None}"
  by (induction ids) (auto simp: map_filter_simps entry_for_def split: option.splits)

text \<open>
  The counters of a chunk are exact: every tag reference of every record is either written
  as a mapping, when its tag has a definition, or counted as missing; and the tags marked as used
  are exactly the ids of the string table, that is the defined tags the records refer to.
\<close>

theorem chunk_accounting:
  assumes "finish compress lookup (Some u) w = (Inr out, w')"
    and "length (usage_words u) = (usage_capacity u + 64 - 1) div 64"
  shows "st_records (out_stats out) = length (cw_records w) \<and>
    st_mappings (out_stats out) = length (filter (\<lambda>t. lookup t \<noteq> None) (all_ids (cw_records w))) \<and>
    st_mappings (out_stats out) + st_missing (out_stats out) = length (all_ids (cw_records w)) \<and>
    (\<exists>u'. out_usage out = Some u' \<and>
       marked u' = marked u \<union> unat ` {t \<in> set (all_ids (cw_records w)). lookup t \<noteq> None \<and> unat t < usage_capacity u})"
proof -
  let ?ids = "distinct_ids (cw_records w)"
  obtain strings m usage' where st: "string_table lookup ?ids (Some u) = (strings, m, usage')"
    and out: "out_usage out = usage'"
      "out_stats out = \<lparr>st_records = length (cw_records w),
      st_mappings = length (List.map_filter m (all_ids (cw_records w))),
      st_missing = length (all_ids (cw_records w)) - length (List.map_filter m (all_ids (cw_records w)))\<rparr>"
    using finish_result [OF assms(1)] by metis
  have ids: "set ?ids = set (all_ids (cw_records w))" by (auto simp: distinct_ids_props(3) all_ids_def)
  have m: "dom m = {t \<in> set ?ids. lookup t \<noteq> None}" "usage' = Some (fold usage_mark (map ptr_tag_id strings) u)"
    using string_table_dom [where lookup = lookup and ids = ?ids and usage = "Some u"] st by simp_all
  have n: "length (List.map_filter m (all_ids (cw_records w))) = length (filter (\<lambda>t. lookup t \<noteq> None) (all_ids (cw_records w)))"
    unfolding map_filter_count by (intro arg_cong [where f = length] filter_cong) (auto simp: m ids)
  have "set (map ptr_tag_id strings) = {t \<in> set ?ids. lookup t \<noteq> None}"
    using string_table_strings [of lookup ?ids "Some u"] st by (simp add: table_ids)
  then have "marked (fold usage_mark (map ptr_tag_id strings) u)
      = marked u \<union> unat ` {t \<in> set (all_ids (cw_records w)). lookup t \<noteq> None \<and> unat t < usage_capacity u}"
    unfolding usage_marks [OF assms(2)] ids by (intro arg_cong2 [where f = "(\<union>)"] refl arg_cong [where f = "image unat"]) auto
  then show ?thesis using out m(2) n map_filter_length [of m "all_ids (cw_records w)"] by simp
qed

lemma chunk_accounting_witness:
  "case finish plain_compress demo_lookup (Some (newUsage 10)) demo_writer of
     (Inl e, w) \<Rightarrow> False
   | (Inr out, w) \<Rightarrow> st_records (out_stats out) = 2 \<and> st_mappings (out_stats out) = 3 \<and> st_missing (out_stats out) = 1"
proof -
  obtain out w' where f: "finish plain_compress demo_lookup (Some (newUsage 10)) demo_writer = (Inr out, w')"
    using finish_total [OF plain_total demo_unfinished] by blast
  have ids: "length (cw_records demo_writer) = 2" "length (all_ids (cw_records demo_writer)) = 4"
    "length (filter (\<lambda>t. demo_lookup t \<noteq> None) (all_ids (cw_records demo_writer))) = 3"
    by code_simp+
  have "length (usage_words (newUsage 10)) = (usage_capacity (newUsage 10) + 64 - 1) div 64"
    by (simp add: newUsage_def)
  from chunk_accounting [OF f this] show ?thesis unfolding f prod.case sum.case ids by linarith
qed

end
