(* ===== verification/Ptr_Collapse.thy ===== *)
theory Ptr_Collapse
  imports Ptr_Definitions Ptr_Chunk "HOL-Library.List_Lexorder" "HOL-Library.Char_ord"
begin

text \<open>
  The collapse stage of the PTR compactor (\<^verbatim>\<open>ptr-core/src/FlattenCollapse.cpp\<close>): one bucket of
  events into records, and the sink that gathers the records of all workers into chunks.
  \<open>sink_reach\<close> is the sink under any interleaving of its workers: a push with the claim of a full
  batch is one step under the lock, the sealing of a claimed batch is a later step.
\<close>

section \<open>One bucket\<close>

record CollapsedRecord =
  col_sha256 :: "byte list"
  col_adds :: "u32 list"
  col_dels :: "u32 list"

record BucketCollapseResult =
  bc_records :: "CollapsedRecord list"
  bc_events_scanned :: nat
  bc_mappings :: nat
  bc_terminal_deletes :: nat
  bc_terminal_delete_records :: nat

definition empty_collapse :: BucketCollapseResult where
  "empty_collapse = \<lparr>bc_records = [], bc_events_scanned = 0, bc_mappings = 0, bc_terminal_deletes = 0,
     bc_terminal_delete_records = 0\<rparr>"

text \<open>One chain: the tags added and deleted so far and the counters move on.\<close>

definition collapse_chain_step ::
  "bool \<Rightarrow> MappingEvent list \<Rightarrow> u32 list \<times> u32 list \<times> BucketCollapseResult \<Rightarrow> u32 list \<times> u32 list \<times> BucketCollapseResult" where
  "collapse_chain_step discard chain = (\<lambda>(adds, dels, out).
     (case collapseChain chain of
        None \<Rightarrow> (adds, dels, out)
      | Some c \<Rightarrow>
          if co_op c = Add then (adds @ [tag_id (hd chain)], dels, out\<lparr>bc_mappings := bc_mappings out + 1\<rparr>)
          else
            (let out1 = out\<lparr>bc_terminal_deletes := bc_terminal_deletes out + 1\<rparr> in
             if discard then (adds, dels, out1)
             else (adds, dels @ [tag_id (hd chain)], out1\<lparr>bc_mappings := bc_mappings out1 + 1\<rparr>))))"

definition collapse_record ::
  "(u32 \<Rightarrow> byte list option) \<Rightarrow> bool \<Rightarrow> MappingEvent list \<Rightarrow> BucketCollapseResult \<Rightarrow> BucketCollapseResult" where
  "collapse_record hash_of_id discard evs out =
     (case hash_of_id (hash_id (hd evs)) of
        None \<Rightarrow> out
      | Some sha \<Rightarrow>
          (let deletes_before = bc_terminal_deletes out in
           case fold (collapse_chain_step discard) (spans tag_id evs) ([], [], out) of (adds, dels, out1) \<Rightarrow>
             (let out2 = (if bc_terminal_deletes out1 > deletes_before
                          then out1\<lparr>bc_terminal_delete_records := bc_terminal_delete_records out1 + 1\<rparr> else out1) in
              out2\<lparr>bc_records := bc_records out2 @ [\<lparr>col_sha256 = sha, col_adds = adds, col_dels = dels\<rparr>]\<rparr>)))"

definition collapseOneBucket ::
  "byte list option \<Rightarrow> DefinitionReader \<Rightarrow> bool \<Rightarrow> (bucket_error, BucketCollapseResult) result" where
  "collapseOneBucket file_bytes definitions discard =
     (case readBucket file_bytes of
        Inl e \<Rightarrow> Inl e
      | Inr events \<Rightarrow>
          if events = [] then Inr empty_collapse
          else Inr (fold (collapse_record (\<lambda>h. def_hash h definitions) discard) (spans hash_id (sort_events events))
            (empty_collapse\<lparr>bc_events_scanned := length events\<rparr>)))"

section \<open>The chunk sink\<close>

record ChunkEntry =
  ce_file :: string
  ce_records :: nat
  ce_mappings :: nat

record ChunkSink =
  sk_cap :: nat
  sk_pending :: "CollapsedRecord list"
  sk_next_index :: nat
  sk_entries :: "ChunkEntry list"
  sk_missing :: nat
  sk_usage :: TagUsageSet
  sk_files :: "string \<rightharpoonup> byte list"

definition newSink :: "nat \<Rightarrow> TagUsageSet \<Rightarrow> ChunkSink" where
  "newSink cap usage = \<lparr>sk_cap = (if cap = 0 then 1 else cap), sk_pending = [], sk_next_index = 0, sk_entries = [],
     sk_missing = 0, sk_usage = usage, sk_files = (\<lambda>_. None)\<rparr>"

text \<open>The name of a chunk, its index padded with zeros to five digits.\<close>

definition chunk_name :: "nat \<Rightarrow> string" where
  "chunk_name n = ''chunk-'' @ replicate (5 - length (to_string n)) (CHR ''0'') @ to_string n @ ''.idhanptr''"

type_synonym Batch = "string \<times> CollapsedRecord list"

definition takeBatch :: "ChunkSink \<Rightarrow> Batch \<times> ChunkSink" where
  "takeBatch s = ((chunk_name (sk_next_index s), sk_pending s),
     s\<lparr>sk_next_index := sk_next_index s + 1, sk_pending := []\<rparr>)"

definition batch_writer :: "CollapsedRecord list \<Rightarrow> ChunkWriter" where
  "batch_writer rs = fold (\<lambda>r. addRecord (col_sha256 r) (col_adds r) (col_dels r)) rs newChunkWriter"

definition seal :: "deflater \<Rightarrow> (u32 \<Rightarrow> string option) \<Rightarrow> Batch \<Rightarrow> ChunkSink \<Rightarrow> (chunk_error, ChunkSink) result" where
  "seal compress lookup = (\<lambda>(name, rs) s.
     (case finish compress lookup (Some (sk_usage s)) (batch_writer rs) of
        (Inl e, w) \<Rightarrow> Inl e
      | (Inr out, w) \<Rightarrow>
          Inr (s\<lparr>sk_files := (sk_files s)(name \<mapsto> out_file out),
                 sk_usage := (case out_usage out of None \<Rightarrow> sk_usage s | Some u \<Rightarrow> u),
                 sk_entries := sk_entries s @ [\<lparr>ce_file = name, ce_records = length (cw_records (batch_writer rs)),
                   ce_mappings = st_mappings (out_stats out)\<rparr>],
                 sk_missing := sk_missing s + st_missing (out_stats out)\<rparr>)))"

fun sink_add ::
  "deflater \<Rightarrow> (u32 \<Rightarrow> string option) \<Rightarrow> CollapsedRecord list \<Rightarrow> ChunkSink \<Rightarrow> (chunk_error, ChunkSink) result" where
  "sink_add compress lookup [] s = Inr s"
| "sink_add compress lookup (r # rs) s =
     (let s1 = s\<lparr>sk_pending := sk_pending s @ [r]\<rparr> in
      if length (sk_pending s1) < sk_cap s1 then sink_add compress lookup rs s1
      else
        (case takeBatch s1 of (batch, s2) \<Rightarrow>
           (case seal compress lookup batch s2 of
              Inl e \<Rightarrow> Inl e
            | Inr s3 \<Rightarrow> sink_add compress lookup rs s3)))"

definition sink_close :: "deflater \<Rightarrow> (u32 \<Rightarrow> string option) \<Rightarrow> ChunkSink \<Rightarrow> (chunk_error, ChunkSink) result" where
  "sink_close compress lookup s =
     (if sk_pending s = [] then Inr s
      else case takeBatch s of (batch, s1) \<Rightarrow> seal compress lookup batch s1)"

definition sink_totals :: "ChunkSink \<Rightarrow> nat \<times> nat" where
  "sink_totals s = (length (sk_entries s), sk_missing s)"

section \<open>All buckets\<close>

record FlattenStats =
  fs_events_scanned :: nat
  fs_mappings :: nat
  fs_events_collapsed :: nat
  fs_terminal_deletes :: nat
  fs_terminal_delete_records :: nat
  fs_skipped_files :: nat
  fs_skipped_missing :: nat
  fs_defined_tags :: nat
  fs_used_tags :: nat

record CollapseResult =
  cres_chunks :: "ChunkEntry list"
  cres_stats :: FlattenStats
  cres_cancelled :: bool

datatype collapse_error = BucketBroken bucket_error | ChunkBroken chunk_error

text \<open>
  The body of one bucket and the loop over the buckets in the order \<open>order\<close> the workers finish
  them.  The order is shorter than the number of buckets when the host cancels.
\<close>

definition bucket_body ::
  "deflater \<Rightarrow> (nat \<Rightarrow> byte list option) \<Rightarrow> DefinitionReader \<Rightarrow> bool \<Rightarrow> nat \<Rightarrow>
   ChunkSink \<times> BucketCollapseResult \<Rightarrow> (collapse_error, ChunkSink \<times> BucketCollapseResult) result" where
  "bucket_body compress files definitions discard bucket = (\<lambda>(s, tot).
     (case collapseOneBucket (files bucket) definitions discard of
        Inl e \<Rightarrow> Inl (BucketBroken e)
      | Inr c \<Rightarrow>
          if bc_events_scanned c > 0 then
            (case sink_add compress (\<lambda>t. def_tag t definitions) (bc_records c) s of
               Inl e \<Rightarrow> Inl (ChunkBroken e)
             | Inr s1 \<Rightarrow>
                 Inr (s1, \<lparr>bc_records = bc_records tot @ bc_records c,
                   bc_events_scanned = bc_events_scanned tot + bc_events_scanned c,
                   bc_mappings = bc_mappings tot + bc_mappings c,
                   bc_terminal_deletes = bc_terminal_deletes tot + bc_terminal_deletes c,
                   bc_terminal_delete_records = bc_terminal_delete_records tot + bc_terminal_delete_records c\<rparr>))
          else Inr (s, tot)))"

fun bucket_loop ::
  "deflater \<Rightarrow> (nat \<Rightarrow> byte list option) \<Rightarrow> DefinitionReader \<Rightarrow> bool \<Rightarrow> nat list \<Rightarrow>
   ChunkSink \<times> BucketCollapseResult \<Rightarrow> (collapse_error, ChunkSink \<times> BucketCollapseResult) result" where
  "bucket_loop compress files definitions discard [] st = Inr st"
| "bucket_loop compress files definitions discard (b # bs) st =
     (case bucket_body compress files definitions discard b st of
        Inl e \<Rightarrow> Inl e
      | Inr st1 \<Rightarrow> bucket_loop compress files definitions discard bs st1)"

definition collapseBuckets ::
  "deflater \<Rightarrow> (nat \<Rightarrow> byte list option) \<Rightarrow> DefinitionReader \<Rightarrow> TagUsageSet \<Rightarrow> nat \<Rightarrow> bool \<Rightarrow> nat list \<Rightarrow>
   (collapse_error, CollapseResult \<times> ChunkSink) result" where
  "collapseBuckets compress files definitions usage cap discard order =
     (case bucket_loop compress files definitions discard order (newSink cap usage, empty_collapse) of
        Inl e \<Rightarrow> Inl e
      | Inr (s, tot) \<Rightarrow>
          (case sink_close compress (\<lambda>t. def_tag t definitions) s of
             Inl e \<Rightarrow> Inl (ChunkBroken e)
           | Inr s1 \<Rightarrow>
               Inr (\<lparr>cres_chunks = sort_key ce_file (sk_entries s1),
                 cres_stats = \<lparr>fs_events_scanned = bc_events_scanned tot, fs_mappings = bc_mappings tot,
                   fs_events_collapsed = bc_events_scanned tot - bc_mappings tot,
                   fs_terminal_deletes = bc_terminal_deletes tot,
                   fs_terminal_delete_records = bc_terminal_delete_records tot, fs_skipped_files = 0,
                   fs_skipped_missing = snd (sink_totals s1), fs_defined_tags = 0, fs_used_tags = 0\<rparr>,
                 cres_cancelled = (length order < BUCKET_COUNT)\<rparr>, s1)))"

section \<open>The collapse of a bucket as a specification\<close>

definition tags_of :: "MappingEvent list \<Rightarrow> u32 \<Rightarrow> u32 list" where
  "tags_of es h = keys_of tag_id (filter (\<lambda>e. hash_id e = h) es)"

definition record_spec :: "MappingEvent list \<Rightarrow> bool \<Rightarrow> u32 \<Rightarrow> byte list \<Rightarrow> CollapsedRecord" where
  "record_spec es discard h sha = \<lparr>col_sha256 = sha, col_adds = filter (\<lambda>t. last_op es h t = Some 0) (tags_of es h),
     col_dels = (if discard then [] else filter (\<lambda>t. last_op es h t = Some 1) (tags_of es h))\<rparr>"

definition bucket_spec :: "(u32 \<Rightarrow> byte list option) \<Rightarrow> bool \<Rightarrow> MappingEvent list \<Rightarrow> CollapsedRecord list" where
  "bucket_spec hash_of_id discard es =
     List.map_filter (\<lambda>h. map_option (record_spec es discard h) (hash_of_id h)) (keys_of hash_id es)"

definition record_size :: "CollapsedRecord \<Rightarrow> nat" where
  "record_size r = length (col_adds r) + length (col_dels r)"

lemma bucket_spec_cong: "set xs = set ys \<Longrightarrow> bucket_spec H d xs = bucket_spec H d ys"
proof -
  assume s: "set xs = set ys"
  have "tags_of xs h = tags_of ys h" for h using s unfolding tags_of_def by (intro keys_of_cong) auto
  then have "record_spec xs d h = record_spec ys d h" for h
    using last_op_cong [OF s] by (intro ext) (simp add: record_spec_def)
  then show ?thesis using keys_of_cong [OF s, of hash_id] by (simp add: bucket_spec_def)
qed

lemma collapse_chains:
  assumes "\<forall>c \<in> set cs. c \<noteq> [] \<and> ops_ok c"
  shows "fold (collapse_chain_step discard) cs (adds, dels, out) =
    (let a = map (tag_id \<circ> hd) (filter (\<lambda>c. ev_op (last c) \<noteq> 1) cs);
         d = map (tag_id \<circ> hd) (filter (\<lambda>c. ev_op (last c) = 1) cs) in
     (adds @ a, dels @ (if discard then [] else d),
      out\<lparr>bc_mappings := bc_mappings out + length a + (if discard then 0 else length d),
          bc_terminal_deletes := bc_terminal_deletes out + length d\<rparr>))"
  using assms
proof (induction cs arbitrary: adds dels out)
  case (Cons c cs)
  obtain i where "collapseChain c = Some \<lparr>co_op = (if ev_op (last c) = 1 then Delete else Add), co_index = i\<rparr>"
    using collapseChain_last Cons.prems by (meson list.set_intros(1))
  then show ?case using Cons by (cases discard) (simp_all add: collapse_chain_step_def Let_def)
qed (simp add: Let_def)

lemma sorted_tags:
  assumes "sorted (map event_key es)"
  shows "sorted (map hash_id es)" and "sorted (map tag_id (filter (\<lambda>e. hash_id e = h) es))"
proof -
  show "sorted (map hash_id es)" by (rule sorted_map_mono [OF assms]) (auto simp: event_key_def)
  show "sorted (map tag_id (filter (\<lambda>e. hash_id e = h) es))"
    using assms by (induction es) (auto simp: event_key_def)
qed

lemma tag_chains:
  assumes "sorted (map event_key es)" and "ops_ok es"
  shows "spans tag_id (filter (\<lambda>e. hash_id e = h) es) = map (\<lambda>t. filter (\<lambda>e. hash_id e = h \<and> tag_id e = t) es) (tags_of es h)"
    and "t \<in> set (tags_of es h) \<Longrightarrow> c = filter (\<lambda>e. hash_id e = h \<and> tag_id e = t) es \<Longrightarrow>
      c \<noteq> [] \<and> ops_ok c \<and> tag_id (hd c) = t \<and> last_op es h t = Some (ev_op (last c)) \<and> (ev_op (last c) = 0 \<or> ev_op (last c) = 1)"
proof -
  show "spans tag_id (filter (\<lambda>e. hash_id e = h) es) = map (\<lambda>t. filter (\<lambda>e. hash_id e = h \<and> tag_id e = t) es) (tags_of es h)"
    using spans_sorted [OF sorted_tags(2) [OF assms(1), of h]] by (simp add: tags_of_def conj_commute)
  assume t: "t \<in> set (tags_of es h)" and c: "c = filter (\<lambda>e. hash_id e = h \<and> tag_id e = t) es"
  have ne: "c \<noteq> []" using t c by (auto simp: tags_of_def filter_empty_conv)
  have ops: "ops_ok c" using assms(2) c by (auto simp: ops_ok_def list_all_iff)
  have "tag_id (hd c) = t" using hd_in_set [OF ne] c by simp
  moreover have "last_op es h t = Some (ev_op (last c))" using chain_last_op [OF assms(1) c [symmetric] ne] .
  moreover have "ev_op (last c) = 0 \<or> ev_op (last c) = 1" using ops last_in_set [OF ne] by (auto simp: ops_ok_def list_all_iff)
  ultimately show "c \<noteq> [] \<and> ops_ok c \<and> tag_id (hd c) = t \<and> last_op es h t = Some (ev_op (last c)) \<and>
      (ev_op (last c) = 0 \<or> ev_op (last c) = 1)" using ne ops by simp
qed

definition bump :: "CollapsedRecord list \<Rightarrow> CollapsedRecord list \<Rightarrow> BucketCollapseResult \<Rightarrow> BucketCollapseResult" where
  "bump rs full out = out\<lparr>bc_records := bc_records out @ rs, bc_mappings := bc_mappings out + sum_list (map record_size rs),
     bc_terminal_deletes := bc_terminal_deletes out + sum_list (map (length \<circ> col_dels) full),
     bc_terminal_delete_records := bc_terminal_delete_records out + length (filter (\<lambda>r. col_dels r \<noteq> []) full)\<rparr>"

lemma bump_bump: "bump ss gs (bump rs fs out) = bump (rs @ ss) (fs @ gs) out"
  by (simp add: bump_def)

lemma collapse_record_spec:
  assumes "sorted (map event_key es)" and "ops_ok es" and "h \<in> set (keys_of hash_id es)"
  shows "collapse_record H discard (filter (\<lambda>e. hash_id e = h) es) out =
    (case H h of None \<Rightarrow> out | Some sha \<Rightarrow> bump [record_spec es discard h sha] [record_spec es False h sha] out)"
proof -
  let ?g = "\<lambda>t. filter (\<lambda>e. hash_id e = h \<and> tag_id e = t) es"
  let ?cs = "map ?g (tags_of es h)"
  note t = tag_chains(2) [OF assms(1,2) _ refl]
  have "filter (\<lambda>e. hash_id e = h) es \<noteq> []" using assms(3) by (auto simp: filter_empty_conv)
  then have hd: "hash_id (hd (filter (\<lambda>e. hash_id e = h) es)) = h" using hd_in_set by fastforce
  have adds: "map (tag_id \<circ> hd) (filter (\<lambda>c. ev_op (last c) \<noteq> 1) ?cs) = filter (\<lambda>t. last_op es h t = Some 0) (tags_of es h)"
    unfolding filter_map map_map o_def by (rule map_filter_id) (use t in auto)
  have dels: "map (tag_id \<circ> hd) (filter (\<lambda>c. ev_op (last c) = 1) ?cs) = filter (\<lambda>t. last_op es h t = Some 1) (tags_of es h)"
    unfolding filter_map map_map o_def by (rule map_filter_id) (use t in auto)
  have "\<forall>c \<in> set ?cs. c \<noteq> [] \<and> ops_ok c" using t by auto
  from collapse_chains [OF this] show ?thesis
    using tag_chains(1) [OF assms(1,2), of h]
    by (auto simp: collapse_record_def hd adds dels Let_def record_spec_def bump_def record_size_def split: option.splits)
qed

lemma collapse_records_fold:
  assumes "sorted (map event_key es)" and "ops_ok es" and "set hs \<subseteq> set (keys_of hash_id es)"
  shows "fold (collapse_record H discard) (map (\<lambda>h. filter (\<lambda>e. hash_id e = h) es) hs) out =
    bump (List.map_filter (\<lambda>h. map_option (record_spec es discard h) (H h)) hs)
      (List.map_filter (\<lambda>h. map_option (record_spec es False h) (H h)) hs) out"
  using assms(3)
proof (induction hs arbitrary: out)
  case (Cons h hs)
  have "collapse_record H discard (filter (\<lambda>e. hash_id e = h) es) out =
      (case H h of None \<Rightarrow> out | Some sha \<Rightarrow> bump [record_spec es discard h sha] [record_spec es False h sha] out)"
    using Cons.prems by (intro collapse_record_spec assms) simp
  then show ?case using Cons by (simp add: map_filter_simps bump_bump split: option.splits)
qed (simp add: bump_def map_filter_simps)

lemma sort_events_props: "sorted (map event_key (sort_events es))" "set (sort_events es) = set es"
  by (simp_all add: sort_events_def)

lemma collapse_sorted:
  assumes "ops_ok es"
  shows "fold (collapse_record H discard) (spans hash_id (sort_events es)) out =
    bump (bucket_spec H discard es) (bucket_spec H False es) out"
proof -
  let ?s = "sort_events es"
  note p = sort_events_props [of es]
  have "ops_ok ?s" using assms p(2) by (simp add: ops_ok_def list_all_iff)
  moreover have "spans hash_id ?s = map (\<lambda>h. filter (\<lambda>e. hash_id e = h) ?s) (keys_of hash_id ?s)"
    by (rule spans_sorted) (rule sorted_tags [OF p(1)])
  ultimately show ?thesis
    using collapse_records_fold [OF p(1), of "keys_of hash_id ?s" H discard out]
    by (simp add: bucket_spec_cong [OF p(2), symmetric] bucket_spec_def [of _ _ ?s])
qed

lemma collapse_bucket_result:
  assumes "readBucket file_bytes = Inr es" and "ops_ok es"
  shows "\<exists>c. collapseOneBucket file_bytes definitions discard = Inr c \<and>
    bc_records c = bucket_spec (\<lambda>h. def_hash h definitions) discard es \<and>
    bc_events_scanned c = length es \<and>
    bc_mappings c = sum_list (map record_size (bc_records c)) \<and>
    bc_terminal_deletes c = sum_list (map (length \<circ> col_dels) (bucket_spec (\<lambda>h. def_hash h definitions) False es)) \<and>
    bc_terminal_delete_records c =
      length (filter (\<lambda>r. col_dels r \<noteq> []) (bucket_spec (\<lambda>h. def_hash h definitions) False es))"
proof -
  let ?H = "\<lambda>h. def_hash h definitions"
  let ?c = "bump (bucket_spec ?H discard es) (bucket_spec ?H False es) (empty_collapse\<lparr>bc_events_scanned := length es\<rparr>)"
  have c: "collapseOneBucket file_bytes definitions discard = Inr ?c"
  proof (cases "es = []")
    case True
    then have "?c = empty_collapse" by (simp add: empty_collapse_def bump_def bucket_spec_def keys_of_def map_filter_simps)
    then show ?thesis using assms(1) True by (simp add: collapseOneBucket_def)
  next
    case False
    then show ?thesis using assms by (simp add: collapseOneBucket_def collapse_sorted)
  qed
  show ?thesis by (intro exI [of _ ?c] conjI c) (simp_all add: bump_def empty_collapse_def)
qed

text \<open>
  C8. Collapsing a bucket computes the state after all its events: one record for every hash that
  occurs and has a definition, in order of the ids, with the tags whose last event is an add and,
  unless they are discarded, the tags whose last event is a delete; every counter is exact, deletes
  being counted whether kept or not.  A bucket file with the same events in another order, or with
  events repeated, gives the same records.
\<close>

theorem bucket_collapse_spec:
  assumes "readBucket file_bytes = Inr es" and "ops_ok es"
  shows "\<exists>c. collapseOneBucket file_bytes definitions discard = Inr c \<and>
    bc_records c = bucket_spec (\<lambda>h. def_hash h definitions) discard es \<and>
    bc_events_scanned c = length es \<and>
    bc_mappings c = sum_list (map record_size (bc_records c)) \<and>
    bc_terminal_deletes c = sum_list (map (length \<circ> col_dels) (bucket_spec (\<lambda>h. def_hash h definitions) False es)) \<and>
    bc_terminal_delete_records c =
      length (filter (\<lambda>r. col_dels r \<noteq> []) (bucket_spec (\<lambda>h. def_hash h definitions) False es)) \<and>
    (\<forall>file2 es2. readBucket file2 = Inr es2 \<and> set es2 = set es \<longrightarrow>
       (\<exists>c2. collapseOneBucket file2 definitions discard = Inr c2 \<and> bc_records c2 = bc_records c))"
proof -
  have "\<exists>c2. collapseOneBucket file2 definitions discard = Inr c2 \<and>
      bc_records c2 = bucket_spec (\<lambda>h. def_hash h definitions) discard es"
    if r: "readBucket file2 = Inr es2" and s: "set es2 = set es" for file2 es2
  proof -
    have "ops_ok es2" using assms(2) s by (simp add: ops_ok_def list_all_iff)
    from collapse_bucket_result [OF r this, of definitions discard] show ?thesis
      unfolding bucket_spec_cong [OF s] by blast
  qed
  with collapse_bucket_result [OF assms, of definitions discard] show ?thesis by metis
qed

definition demo_events :: "MappingEvent list" where
  "demo_events =
     [\<lparr>hash_id = 4, tag_id = 9, update_index = 2, ev_op = 1, ev_pad = 0\<rparr>, \<lparr>hash_id = 4, tag_id = 9, update_index = 1, ev_op = 0, ev_pad = 0\<rparr>,
      \<lparr>hash_id = 4, tag_id = 3, update_index = 2, ev_op = 0, ev_pad = 0\<rparr>, \<lparr>hash_id = 0, tag_id = 3, update_index = 2, ev_op = 0, ev_pad = 0\<rparr>]"

definition demo_definitions :: DefinitionReader where
  "demo_definitions = \<lparr>m_hashes = replicate 128 0 @ replicate 32 7, m_tag_index = replicate 24 0 @ [0, 0, 0, 0, 2, 0, 0, 0],
     m_tag_blob = [97, 98], m_defined_tags = 1\<rparr>"

lemma bucket_collapse_spec_witness:
  "\<exists>c. collapseOneBucket (Some (concat (map event_bytes demo_events))) demo_definitions True = Inr c \<and>
     bc_records c = [\<lparr>col_sha256 = replicate 32 7, col_adds = [3], col_dels = []\<rparr>] \<and>
     bc_events_scanned c = 4 \<and> bc_terminal_deletes c = 1"
proof -
  have "length (concat (map event_bytes demo_events)) mod 12 = 0" by (simp add: demo_events_def)
  then have r: "readBucket (Some (concat (map event_bytes demo_events))) = Inr demo_events"
    by (simp add: readBucket_def events_of_events)
  have ok: "ops_ok demo_events" by code_simp
  have "bucket_spec (\<lambda>h. def_hash h demo_definitions) True demo_events = [\<lparr>col_sha256 = replicate 32 7, col_adds = [3], col_dels = []\<rparr>]"
    "length demo_events = 4"
    "sum_list (map (length \<circ> col_dels) (bucket_spec (\<lambda>h. def_hash h demo_definitions) False demo_events)) = 1"
    by code_simp+
  then show ?thesis using bucket_collapse_spec [OF r ok, of demo_definitions True] by auto
qed

section \<open>The sink under interleaving\<close>

text \<open>
  States of the sink with the batches claimed and not yet sealed, the batches sealed, and the
  records pushed so far.
\<close>

inductive sink_reach ::
  "deflater \<Rightarrow> (u32 \<Rightarrow> string option) \<Rightarrow> nat \<Rightarrow> TagUsageSet \<Rightarrow>
   ChunkSink \<Rightarrow> Batch list \<Rightarrow> Batch list \<Rightarrow> CollapsedRecord list \<Rightarrow> bool"
  for compress lookup cap usage where
  start: "sink_reach compress lookup cap usage (newSink cap usage) [] [] []"
| push: "sink_reach compress lookup cap usage s claimed sealed log \<Longrightarrow> s1 = s\<lparr>sk_pending := sk_pending s @ [r]\<rparr> \<Longrightarrow>
    length (sk_pending s1) < sk_cap s1 \<Longrightarrow> sink_reach compress lookup cap usage s1 claimed sealed (log @ [r])"
| push_full: "sink_reach compress lookup cap usage s claimed sealed log \<Longrightarrow> s1 = s\<lparr>sk_pending := sk_pending s @ [r]\<rparr> \<Longrightarrow>
    \<not> length (sk_pending s1) < sk_cap s1 \<Longrightarrow> takeBatch s1 = (b, s2) \<Longrightarrow>
    sink_reach compress lookup cap usage s2 (claimed @ [b]) sealed (log @ [r])"
| close: "sink_reach compress lookup cap usage s claimed sealed log \<Longrightarrow> sk_pending s \<noteq> [] \<Longrightarrow> takeBatch s = (b, s1) \<Longrightarrow>
    sink_reach compress lookup cap usage s1 (claimed @ [b]) sealed log"
| seal: "sink_reach compress lookup cap usage s (c1 @ b # c2) sealed log \<Longrightarrow> seal compress lookup b s = Inr s1 \<Longrightarrow>
    sink_reach compress lookup cap usage s1 (c1 @ c2) (sealed @ [b]) log"

definition pending_of :: "CollapsedRecord \<Rightarrow> PendingRecord" where
  "pending_of r = \<lparr>pr_sha256 = col_sha256 r, add_tag_ids = col_adds r, del_tag_ids = col_dels r\<rparr>"

lemma batch_writer_records: "cw_records (batch_writer rs) = map pending_of rs" "\<not> cw_finished (batch_writer rs)"
proof -
  have "cw_records (fold (\<lambda>r. addRecord (col_sha256 r) (col_adds r) (col_dels r)) rs w) = cw_records w @ map pending_of rs \<and>
      cw_finished (fold (\<lambda>r. addRecord (col_sha256 r) (col_adds r) (col_dels r)) rs w) = cw_finished w" for w
    by (induction rs arbitrary: w) (simp_all add: addRecord_def pending_of_def)
  then show "cw_records (batch_writer rs) = map pending_of rs" "\<not> cw_finished (batch_writer rs)"
    by (simp_all add: batch_writer_def newChunkWriter_def)
qed

lemma dec_val_zeros: "dec_val (replicate k (CHR ''0'') @ s) = dec_val s"
proof (induction s rule: rev_induct)
  case Nil
  have "replicate (Suc k) (CHR ''0'') = replicate k (CHR ''0'') @ [CHR ''0'']" for k by (simp add: replicate_append_same)
  then have "dec_val (replicate (Suc k) (CHR ''0'')) = 10 * dec_val (replicate k (CHR ''0''))" for k
    using dec_val_snoc [of "replicate k (CHR ''0'')" "CHR ''0''"] by (simp add: digit_val_def char_code_def)
  then show ?case by (induction k) simp_all
next
  case (snoc c s)
  then show ?case using dec_val_snoc [of "replicate k (CHR ''0'') @ s" c] by simp
qed

lemma chunk_name_inject: "chunk_name i = chunk_name j \<longleftrightarrow> i = j"
proof
  let ?d = "\<lambda>n. replicate (5 - length (to_string n)) (CHR ''0'') @ to_string n"
  assume "chunk_name i = chunk_name j"
  then have "?d i @ ''.idhanptr'' = ?d j @ ''.idhanptr''"
    unfolding chunk_name_def by (simp only: append.assoc same_append_eq)
  then have "?d i = ?d j" by (simp only: append_same_eq)
  then have "dec_val (?d i) = dec_val (?d j)" by (rule arg_cong)
  then show "i = j" by (simp only: dec_val_zeros dec_val_to_string)
qed simp

text \<open>Every pushed record is pending or in exactly one batch; batches are non-empty, within the cap, and named apart.\<close>

definition batches_ok :: "ChunkSink \<Rightarrow> Batch list \<Rightarrow> CollapsedRecord list \<Rightarrow> bool" where
  "batches_ok s bs log \<longleftrightarrow>
     mset log = mset (sk_pending s) + mset (concat (map snd bs)) \<and>
     (\<forall>b \<in> set bs. snd b \<noteq> [] \<and> length (snd b) \<le> sk_cap s \<and> (\<exists>k < sk_next_index s. fst b = chunk_name k)) \<and>
     distinct (map fst bs)"

text \<open>The entries, counters and files describe the sealed batches.\<close>

definition sealed_ok :: "deflater \<Rightarrow> (u32 \<Rightarrow> string option) \<Rightarrow> ChunkSink \<Rightarrow> Batch list \<Rightarrow> bool" where
  "sealed_ok compress lookup s sealed \<longleftrightarrow>
     map (\<lambda>e. (ce_file e, ce_records e)) (sk_entries s) = map (\<lambda>(n, rs). (n, length rs)) sealed \<and>
     sum_list (map ce_mappings (sk_entries s)) + sk_missing s = sum_list (map record_size (concat (map snd sealed))) \<and>
     dom (sk_files s) = fst ` set sealed \<and>
     (\<forall>b \<in> set sealed. \<exists>u out w. finish compress lookup (Some u) (batch_writer (snd b)) = (Inr out, w) \<and>
        sk_files s (fst b) = Some (out_file out))"

lemma batches_push: "batches_ok s bs log \<Longrightarrow> batches_ok (s\<lparr>sk_pending := sk_pending s @ [r]\<rparr>) bs (log @ [r])"
  by (simp add: batches_ok_def)

lemma batches_claim:
  assumes "batches_ok s (claimed @ sealed) log" and "sk_pending s \<noteq> []" and "length (sk_pending s) \<le> sk_cap s"
    and "takeBatch s = (b, s1)"
  shows "batches_ok s1 ((claimed @ [b]) @ sealed) log"
proof -
  have b: "b = (chunk_name (sk_next_index s), sk_pending s)" "s1 = s\<lparr>sk_next_index := sk_next_index s + 1, sk_pending := []\<rparr>"
    using assms(4) by (auto simp: takeBatch_def)
  have "chunk_name (sk_next_index s) \<notin> fst ` set (claimed @ sealed)"
  proof
    assume "chunk_name (sk_next_index s) \<in> fst ` set (claimed @ sealed)"
    then obtain k where "k < sk_next_index s" "chunk_name (sk_next_index s) = chunk_name k"
      using assms(1) unfolding batches_ok_def by fastforce
    then show False by (simp add: chunk_name_inject)
  qed
  then show ?thesis using assms(1-3) unfolding batches_ok_def b by (auto simp: less_Suc_eq)
qed

lemma batches_seal: "batches_ok s ((c1 @ b # c2) @ sealed) log \<Longrightarrow> batches_ok s ((c1 @ c2) @ (sealed @ [b])) log"
  unfolding batches_ok_def by auto

lemma batches_same:
  "batches_ok s bs log \<Longrightarrow> sk_pending s1 = sk_pending s \<Longrightarrow> sk_cap s1 = sk_cap s \<Longrightarrow> sk_next_index s1 = sk_next_index s \<Longrightarrow>
     batches_ok s1 bs log"
  by (simp add: batches_ok_def)

lemma sealed_same:
  "sealed_ok compress lookup s sealed \<Longrightarrow> sk_entries s1 = sk_entries s \<Longrightarrow> sk_missing s1 = sk_missing s \<Longrightarrow> sk_files s1 = sk_files s \<Longrightarrow>
     sealed_ok compress lookup s1 sealed"
  by (simp add: sealed_ok_def)

lemma all_ids_pending: "length (all_ids (map pending_of rs)) = sum_list (map record_size rs)"
  by (induction rs) (simp_all add: all_ids_def pending_of_def record_size_def)

lemma finish_counts:
  assumes "finish compress lookup usage w = (Inr out, w')"
  shows "st_mappings (out_stats out) + st_missing (out_stats out) = length (all_ids (cw_records w))"
proof -
  obtain m :: "u32 \<rightharpoonup> u32" where "out_stats out = \<lparr>st_records = length (cw_records w),
      st_mappings = length (List.map_filter m (all_ids (cw_records w))),
      st_missing = length (all_ids (cw_records w)) - length (List.map_filter m (all_ids (cw_records w)))\<rparr>"
    using finish_result [OF assms] by metis
  then show ?thesis using map_filter_length [of m "all_ids (cw_records w)"] by simp
qed

lemma sealed_seal:
  assumes "sealed_ok compress lookup s sealed" and "seal compress lookup (n, rs) s = Inr s1" and "n \<notin> fst ` set sealed"
  shows "sealed_ok compress lookup s1 (sealed @ [(n, rs)])"
proof -
  obtain out w where f: "finish compress lookup (Some (sk_usage s)) (batch_writer rs) = (Inr out, w)"
    and s1: "s1 = s\<lparr>sk_files := (sk_files s)(n \<mapsto> out_file out),
                 sk_usage := (case out_usage out of None \<Rightarrow> sk_usage s | Some u \<Rightarrow> u),
                 sk_entries := sk_entries s @ [\<lparr>ce_file = n, ce_records = length (cw_records (batch_writer rs)),
                   ce_mappings = st_mappings (out_stats out)\<rparr>],
                 sk_missing := sk_missing s + st_missing (out_stats out)\<rparr>"
    using assms(2) by (auto simp: seal_def split: prod.splits sum.splits)
  have "st_mappings (out_stats out) + st_missing (out_stats out) = sum_list (map record_size rs)"
    using finish_counts [OF f] by (simp add: batch_writer_records all_ids_pending)
  moreover have "\<forall>b \<in> set sealed. fst b \<noteq> n" using assms(3) by auto
  ultimately show ?thesis using assms(1) f unfolding sealed_ok_def s1 by (auto simp: batch_writer_records)
qed

lemma seal_keeps:
  "seal compress lookup b s = Inr s1 \<Longrightarrow> sk_pending s1 = sk_pending s \<and> sk_cap s1 = sk_cap s \<and> sk_next_index s1 = sk_next_index s"
  by (auto simp: seal_def split: prod.splits sum.splits)

lemma sink_reach_ok:
  assumes "sink_reach compress lookup cap usage s claimed sealed log"
  shows "sk_cap s = max 1 cap \<and> length (sk_pending s) < sk_cap s \<and> batches_ok s (claimed @ sealed) log \<and> sealed_ok compress lookup s sealed"
  using assms
proof (induction rule: sink_reach.induct)
  case start
  then show ?case by (simp add: newSink_def batches_ok_def sealed_ok_def)
next
  case (push s claimed sealed log s1 r)
  then show ?case using batches_push [of s "claimed @ sealed" log r] sealed_same [of compress lookup s sealed s1] by simp
next
  case (push_full s claimed sealed log s1 r b s2)
  have "batches_ok s1 (claimed @ sealed) (log @ [r])" using push_full batches_push by simp
  moreover have "length (sk_pending s1) \<le> sk_cap s1" using push_full by simp
  ultimately have "batches_ok s2 ((claimed @ [b]) @ sealed) (log @ [r])"
    using push_full(2,4) batches_claim [of s1 claimed sealed "log @ [r]" b s2] by simp
  moreover have "sk_entries s2 = sk_entries s \<and> sk_missing s2 = sk_missing s \<and> sk_files s2 = sk_files s \<and> sk_cap s2 = sk_cap s \<and> sk_pending s2 = []"
    using push_full(2,4) by (auto simp: takeBatch_def)
  ultimately show ?case using push_full.IH sealed_same [of compress lookup s sealed s2] by simp
next
  case (close s claimed sealed log b s1)
  have "batches_ok s1 ((claimed @ [b]) @ sealed) log" using close batches_claim [of s claimed sealed log b s1] by simp
  moreover have "sk_entries s1 = sk_entries s \<and> sk_missing s1 = sk_missing s \<and> sk_files s1 = sk_files s \<and> sk_cap s1 = sk_cap s \<and> sk_pending s1 = []"
    using close(3) by (auto simp: takeBatch_def)
  ultimately show ?case using close.IH sealed_same [of compress lookup s sealed s1] by simp
next
  case (seal s c1 b c2 sealed log s1)
  have "fst b \<notin> fst ` set sealed" using seal.IH by (auto simp: batches_ok_def)
  then have "sealed_ok compress lookup s1 (sealed @ [b])"
    using seal.IH seal.hyps(2) sealed_seal [of compress lookup s sealed "fst b" "snd b" s1] by simp
  moreover have "batches_ok s1 ((c1 @ c2) @ sealed @ [b]) log"
    using seal.IH seal_keeps [OF seal.hyps(2)] batches_seal [of s c1 b c2 sealed log] batches_same by blast
  ultimately show ?case using seal.IH seal_keeps [OF seal.hyps(2)] by simp
qed

text \<open>
  C9. However the workers interleave their pushes and seals, the chunks partition the records:
  when nothing is pending and every claimed batch is sealed, the records pushed are exactly the
  records of the sealed batches, each in one batch; no batch is empty or exceeds the cap, no two
  chunk files share a name, the manifest entries list the batches with their sizes, and the
  mappings written plus the references without definition are all tag references.
\<close>

theorem sink_partitions_records:
  assumes "sink_reach compress lookup cap usage s [] sealed log" and "sk_pending s = []"
  shows "mset log = mset (concat (map snd sealed)) \<and>
    list_all (\<lambda>(n, rs). 1 \<le> length rs \<and> length rs \<le> max 1 cap) sealed \<and>
    distinct (map fst sealed) \<and> dom (sk_files s) = fst ` set sealed \<and>
    map (\<lambda>e. (ce_file e, ce_records e)) (sk_entries s) = map (\<lambda>(n, rs). (n, length rs)) sealed \<and>
    sum_list (map ce_mappings (sk_entries s)) + sk_missing s = sum_list (map record_size log)"
proof -
  note ok = sink_reach_ok [OF assms(1)]
  have log: "mset log = mset (concat (map snd sealed))" using ok assms(2) by (simp add: batches_ok_def)
  then have "sum_list (map record_size log) = sum_list (map record_size (concat (map snd sealed)))"
    by (metis mset_map sum_mset_sum_list)
  moreover have "list_all (\<lambda>(n, rs). 1 \<le> length rs \<and> length rs \<le> max 1 cap) sealed"
    using ok by (fastforce simp: batches_ok_def list_all_iff Suc_le_eq)
  ultimately show ?thesis using ok log by (simp add: batches_ok_def sealed_ok_def)
qed

lemma sink_add_reach:
  "sink_reach compress lookup cap usage s [] sealed log \<Longrightarrow> sink_add compress lookup rs s = Inr s' \<Longrightarrow>
     \<exists>sealed'. sink_reach compress lookup cap usage s' [] sealed' (log @ rs)"
proof (induction rs arbitrary: s sealed log)
  case (Cons r rs)
  let ?s1 = "s\<lparr>sk_pending := sk_pending s @ [r]\<rparr>"
  show ?case
  proof (cases "length (sk_pending ?s1) < sk_cap ?s1")
    case True
    then have "sink_reach compress lookup cap usage ?s1 [] sealed (log @ [r])" using Cons.prems(1) by (intro sink_reach.push) auto
    from Cons.IH [OF this] show ?thesis using Cons.prems(2) True by simp
  next
    case False
    obtain b s2 s3 where t: "takeBatch ?s1 = (b, s2)" "seal compress lookup b s2 = Inr s3" "sink_add compress lookup rs s3 = Inr s'"
      using Cons.prems(2) False by (auto simp: Let_def split: prod.splits sum.splits)
    have "sink_reach compress lookup cap usage s2 ([] @ b # []) sealed (log @ [r])"
      using sink_reach.push_full [OF Cons.prems(1) refl False t(1)] by simp
    from sink_reach.seal [OF this t(2)] have "sink_reach compress lookup cap usage s3 [] (sealed @ [b]) (log @ [r])" by simp
    from Cons.IH [OF this t(3)] show ?thesis by simp
  qed
qed auto

lemma sink_close_reach:
  assumes "sink_reach compress lookup cap usage s [] sealed log" and "sink_close compress lookup s = Inr s'"
  shows "\<exists>sealed'. sink_reach compress lookup cap usage s' [] sealed' log \<and> sk_pending s' = []"
proof (cases "sk_pending s = []")
  case True
  then show ?thesis using assms by (auto simp: sink_close_def)
next
  case False
  obtain b s1 where t: "takeBatch s = (b, s1)" "seal compress lookup b s1 = Inr s'"
    using assms(2) False by (auto simp: sink_close_def split: prod.splits)
  have "sink_reach compress lookup cap usage s1 ([] @ b # []) sealed log"
    using sink_reach.close [OF assms(1) False t(1)] by simp
  from sink_reach.seal [OF this t(2)] have "sink_reach compress lookup cap usage s' [] (sealed @ [b]) log" by simp
  moreover have "sk_pending s' = []" using seal_keeps [OF t(2)] t(1) by (auto simp: takeBatch_def)
  ultimately show ?thesis by blast
qed

definition demo_records :: "CollapsedRecord list" where
  "demo_records = [\<lparr>col_sha256 = replicate 32 1, col_adds = [9, 3], col_dels = [5]\<rparr>, \<lparr>col_sha256 = replicate 32 2, col_adds = [5], col_dels = []\<rparr>,
     \<lparr>col_sha256 = replicate 32 3, col_adds = [3], col_dels = []\<rparr>]"

lemma seal_total:
  assumes "\<forall>b. compress b \<noteq> None"
  shows "\<exists>s1. seal compress lookup b s = Inr s1"
proof -
  obtain n rs where b: "b = (n, rs)" by fastforce
  show ?thesis using finish_total [OF assms batch_writer_records(2), of lookup "Some (sk_usage s)" rs] by (auto simp: seal_def b)
qed

lemma sink_add_total: "\<forall>b. compress b \<noteq> None \<Longrightarrow> \<exists>s'. sink_add compress lookup rs s = Inr s'"
proof (induction rs arbitrary: s)
  case (Cons r rs)
  let ?s1 = "s\<lparr>sk_pending := sk_pending s @ [r]\<rparr>"
  obtain b s2 where t: "takeBatch ?s1 = (b, s2)" by fastforce
  obtain s3 where "seal compress lookup b s2 = Inr s3" using seal_total [OF Cons.prems] by blast
  then show ?case using t Cons.IH [OF Cons.prems, of ?s1] Cons.IH [OF Cons.prems, of s3] by (simp add: Let_def)
qed simp

lemma sink_close_total: "\<forall>b. compress b \<noteq> None \<Longrightarrow> \<exists>s'. sink_close compress lookup s = Inr s'"
  using seal_total [of compress lookup] by (simp add: sink_close_def split: prod.splits)

lemma sink_partitions_records_witness:
  "\<exists>s (sealed :: Batch list). sink_add plain_compress demo_lookup demo_records (newSink 1 (newUsage 10)) = Inr s \<and>
     mset demo_records = mset (concat (map snd sealed)) \<and> distinct (map fst sealed) \<and>
     sum_list (map ce_mappings (sk_entries s)) + sk_missing s = 5"
proof -
  obtain s where s: "sink_add plain_compress demo_lookup demo_records (newSink 1 (newUsage 10)) = Inr s"
    using sink_add_total [OF plain_total] by blast
  obtain sealed where r: "sink_reach plain_compress demo_lookup 1 (newUsage 10) s [] sealed demo_records"
    using sink_add_reach [OF sink_reach.start s] by auto
  have "sk_pending s = []" using sink_reach_ok [OF r] by auto
  from sink_partitions_records [OF r this] have "mset demo_records = mset (concat (map snd sealed))" "distinct (map fst sealed)"
    "sum_list (map ce_mappings (sk_entries s)) + sk_missing s = sum_list (map record_size demo_records)" by simp_all
  moreover have "sum_list (map record_size demo_records) = 5" by code_simp
  ultimately show ?thesis using s by (intro exI [of _ s] exI [of _ sealed] conjI) simp_all
qed

section \<open>From events to chunks\<close>

lemma mset_concat_cong: "mset xs = mset ys \<Longrightarrow> mset (concat (map f xs)) = mset (concat (map f ys))"
  by (simp add: mset_concat) (metis mset_map sum_mset_sum_list)

lemma sum_list_cong_mset:
  fixes f :: "'a \<Rightarrow> nat"
  shows "mset xs = mset ys \<Longrightarrow> sum_list (map f xs) = sum_list (map f ys)"
  by (metis mset_map sum_mset_sum_list)

lemma mset_concat_part: "x \<in> set xs \<Longrightarrow> mset x \<subseteq># mset (concat xs)"
  by (induction xs) (auto intro: subset_mset.order_trans)

lemma map_Inr_perm:
  assumes "map f xs = map Inr ds" and "mset ys = mset xs"
  shows "\<exists>cs. map f ys = map Inr cs \<and> mset cs = mset ds"
proof -
  have g: "f x = Inr (projr (f x))" if "x \<in> set xs" for x
  proof -
    have "f x \<in> set (map Inr ds)" using that assms(1) [symmetric] by simp
    then show ?thesis by auto
  qed
  moreover have "set ys = set xs" using assms(2) by (rule mset_eq_setD)
  ultimately have "map f ys = map Inr (map (projr \<circ> f) ys)" by simp
  moreover have "ds = map (projr \<circ> f) xs" using arg_cong [OF assms(1), of "map projr"] by (simp add: o_def)
  ultimately show ?thesis using assms(2) by (intro exI [of _ "map (projr \<circ> f) ys"]) simp
qed

text \<open>Splitting the events by bucket splits the specified records.\<close>

lemma keys_of_bucket:
  "keys_of hash_id (filter (\<lambda>e. bucketFor (hash_id e) = b) es) = filter (\<lambda>h. bucketFor h = b) (keys_of hash_id es)"
  by (rule keys_of_unique) (auto simp: keys_of_sorted sorted_filter [where f = id, simplified])

lemma record_spec_bucket:
  assumes "bucketFor h = b"
  shows "record_spec (filter (\<lambda>e. bucketFor (hash_id e) = b) es) d h = record_spec es d h"
proof -
  have "filter (\<lambda>e. hash_id e = h \<and> P e) (filter (\<lambda>e. bucketFor (hash_id e) = b) es) = filter (\<lambda>e. hash_id e = h \<and> P e) es" for P
    using assms by (auto simp: filter_filter intro: filter_cong)
  from this [of "\<lambda>_. True"] this show ?thesis
    by (intro ext) (simp add: record_spec_def tags_of_def last_op_def)
qed

lemma mset_by_class:
  fixes f :: "'a \<Rightarrow> nat"
  assumes "\<forall>x \<in> set xs. f x < n"
  shows "mset (concat (map (\<lambda>b. filter (\<lambda>x. f x = b) xs) [0..<n])) = mset xs"
  using assms
proof (induction n arbitrary: xs)
  case (Suc n)
  let ?ys = "filter (\<lambda>x. f x < n) xs"
  have "filter (\<lambda>x. f x = b) xs = filter (\<lambda>x. f x = b) ?ys" if "b < n" for b
    using that by (auto intro: filter_cong)
  then have "concat (map (\<lambda>b. filter (\<lambda>x. f x = b) xs) [0..<n]) = concat (map (\<lambda>b. filter (\<lambda>x. f x = b) ?ys) [0..<n])"
    by (intro arg_cong [where f = concat] map_cong) auto
  moreover have "mset (concat (map (\<lambda>b. filter (\<lambda>x. f x = b) ?ys) [0..<n])) = mset ?ys" by (rule Suc.IH) simp
  moreover have "filter (\<lambda>x. f x = n) xs = filter (\<lambda>x. \<not> f x < n) xs" using Suc.prems by (intro filter_cong) auto
  moreover have "mset (filter (\<lambda>x. f x < n) xs) + mset (filter (\<lambda>x. \<not> f x < n) xs) = mset xs"
    by (induction xs) auto
  ultimately show ?case by simp
qed simp

lemma map_filter_concat: "List.map_filter f (concat xss) = concat (map (List.map_filter f) xss)"
  by (induction xss) (simp_all add: map_filter_def)

lemma mset_map_filter: "mset xs = mset ys \<Longrightarrow> mset (List.map_filter f xs) = mset (List.map_filter f ys)"
  by (simp add: map_filter_def mset_filter)

lemma bucket_spec_split:
  "mset (concat (map (\<lambda>b. bucket_spec H d (filter (\<lambda>e. bucketFor (hash_id e) = b) es)) [0..<BUCKET_COUNT])) = mset (bucket_spec H d es)"
proof -
  let ?hs = "keys_of hash_id es" and ?f = "\<lambda>h. map_option (record_spec es d h) (H h)"
  have "bucket_spec H d (filter (\<lambda>e. bucketFor (hash_id e) = b) es) = List.map_filter ?f (filter (\<lambda>h. bucketFor h = b) ?hs)" for b
    unfolding bucket_spec_def keys_of_bucket map_filter_def
    by (auto simp: record_spec_bucket intro!: map_cong filter_cong)
  then have "concat (map (\<lambda>b. bucket_spec H d (filter (\<lambda>e. bucketFor (hash_id e) = b) es)) [0..<BUCKET_COUNT])
      = List.map_filter ?f (concat (map (\<lambda>b. filter (\<lambda>h. bucketFor h = b) ?hs) [0..<BUCKET_COUNT]))"
    by (simp add: map_filter_concat o_def)
  moreover have "\<forall>h \<in> set ?hs. bucketFor h < BUCKET_COUNT" by (simp add: bucketFor_def BUCKET_COUNT_def)
  ultimately show ?thesis
    by (simp only: bucket_spec_def mset_map_filter [OF mset_by_class])
qed

lemma def_hash_length: "def_hash h definitions = Some sha \<Longrightarrow> length sha = SHA256_BYTES"
  by (auto simp: def_hash_def Let_def split: if_splits)

lemma bucket_spec_sha: "list_all (\<lambda>r. length (col_sha256 r) = SHA256_BYTES) (bucket_spec (\<lambda>h. def_hash h definitions) d es)"
  by (auto simp: bucket_spec_def map_filter_def record_spec_def list_all_iff def_hash_length)

text \<open>The loop over the buckets: it returns, and what went into the sink is what the buckets specify.\<close>

lemma bucket_body_result:
  assumes "\<forall>b. compress b \<noteq> None" and "readBucket (files b) = Inr es" and "ops_ok es"
    and "sink_reach compress (\<lambda>t. def_tag t definitions) cap usage s [] sealed (bc_records tot)"
  shows "\<exists>s' sealed' tot'. bucket_body compress files definitions discard b (s, tot) = Inr (s', tot') \<and>
    sink_reach compress (\<lambda>t. def_tag t definitions) cap usage s' [] sealed' (bc_records tot') \<and>
    bc_records tot' = bc_records tot @ bucket_spec (\<lambda>h. def_hash h definitions) discard es \<and>
    bc_events_scanned tot' = bc_events_scanned tot + length es \<and>
    bc_mappings tot' = bc_mappings tot + sum_list (map record_size (bucket_spec (\<lambda>h. def_hash h definitions) discard es))"
proof -
  obtain c where c: "collapseOneBucket (files b) definitions discard = Inr c"
    "bc_records c = bucket_spec (\<lambda>h. def_hash h definitions) discard es" "bc_events_scanned c = length es"
    "bc_mappings c = sum_list (map record_size (bc_records c))"
    using collapse_bucket_result [OF assms(2,3)] by blast
  show ?thesis
  proof (cases "es = []")
    case True
    then have "bucket_spec (\<lambda>h. def_hash h definitions) discard es = []"
      by (simp add: bucket_spec_def keys_of_def map_filter_simps)
    then show ?thesis using c True assms(4) by (auto simp: bucket_body_def)
  next
    case False
    obtain s' where s': "sink_add compress (\<lambda>t. def_tag t definitions) (bc_records c) s = Inr s'"
      using sink_add_total [OF assms(1)] by blast
    from sink_add_reach [OF assms(4) s'] obtain sealed' where
      "sink_reach compress (\<lambda>t. def_tag t definitions) cap usage s' [] sealed' (bc_records tot @ bc_records c)" ..
    then show ?thesis using c False s' by (auto simp: bucket_body_def)
  qed
qed

lemma bucket_loop_result:
  assumes "\<forall>b. compress b \<noteq> None" and "\<forall>b \<in> set order. readBucket (files b) = Inr (es b) \<and> ops_ok (es b)"
    and "sink_reach compress (\<lambda>t. def_tag t definitions) cap usage s [] sealed (bc_records tot)"
    and "bc_mappings tot = sum_list (map record_size (bc_records tot))"
  shows "\<exists>s' sealed' tot'. bucket_loop compress files definitions discard order (s, tot) = Inr (s', tot') \<and>
    sink_reach compress (\<lambda>t. def_tag t definitions) cap usage s' [] sealed' (bc_records tot') \<and>
    bc_records tot' = bc_records tot @ concat (map (\<lambda>b. bucket_spec (\<lambda>h. def_hash h definitions) discard (es b)) order) \<and>
    bc_events_scanned tot' = bc_events_scanned tot + sum_list (map (length \<circ> es) order) \<and>
    bc_mappings tot' = sum_list (map record_size (bc_records tot'))"
  using assms(2-4)
proof (induction order arbitrary: s sealed tot)
  case (Cons b order)
  have "readBucket (files b) = Inr (es b)" "ops_ok (es b)" using Cons.prems(1) by simp_all
  from bucket_body_result [where files = files and discard = discard, OF assms(1) this Cons.prems(2)] obtain s1 sealed1 tot1 where b:
    "bucket_body compress files definitions discard b (s, tot) = Inr (s1, tot1)"
    "sink_reach compress (\<lambda>t. def_tag t definitions) cap usage s1 [] sealed1 (bc_records tot1)"
    "bc_records tot1 = bc_records tot @ bucket_spec (\<lambda>h. def_hash h definitions) discard (es b)"
    "bc_events_scanned tot1 = bc_events_scanned tot + length (es b)"
    "bc_mappings tot1 = bc_mappings tot + sum_list (map record_size (bucket_spec (\<lambda>h. def_hash h definitions) discard (es b)))"
    by blast
  have "\<forall>b \<in> set order. readBucket (files b) = Inr (es b) \<and> ops_ok (es b)" using Cons.prems(1) by simp
  moreover have "bc_mappings tot1 = sum_list (map record_size (bc_records tot1))" using b(3,5) Cons.prems(3) by simp
  ultimately obtain s2 sealed2 tot2 where
    "bucket_loop compress files definitions discard order (s1, tot1) = Inr (s2, tot2)"
    "sink_reach compress (\<lambda>t. def_tag t definitions) cap usage s2 [] sealed2 (bc_records tot2)"
    "bc_records tot2 = bc_records tot1 @ concat (map (\<lambda>b. bucket_spec (\<lambda>h. def_hash h definitions) discard (es b)) order)"
    "bc_events_scanned tot2 = bc_events_scanned tot1 + sum_list (map (length \<circ> es) order)"
    "bc_mappings tot2 = sum_list (map record_size (bc_records tot2))"
    using Cons.IH [OF _ b(2)] by blast
  then show ?case using b by (intro exI [of _ s2] exI [of _ sealed2] exI [of _ tot2]) (simp add: o_def)
qed auto

text \<open>The records of the chunks read back.\<close>

definition spec_record :: "(u32 \<Rightarrow> string option) \<Rightarrow> CollapsedRecord \<Rightarrow> byte list \<times> ChunkStringEntry list \<times> ChunkStringEntry list" where
  "spec_record lookup r = (col_sha256 r, List.map_filter (entry_for lookup) (col_adds r), List.map_filter (entry_for lookup) (col_dels r))"

lemma chunk_spec_records: "chunk_spec lookup (map pending_of rs) = map (spec_record lookup) rs"
  by (simp add: chunk_spec_def spec_record_def pending_of_def)

lemma sealed_reads:
  assumes zlib: "\<And>b c. compress b = Some c \<Longrightarrow> uncompress c (length b) = Some b"
    and "sealed_ok compress lookup s sealed" and "(n, rs) \<in> set sealed"
    and "list_all (\<lambda>r. length (col_sha256 r) = SHA256_BYTES) rs" and "length (body_of lookup (map pending_of rs)) < 2 ^ 32"
  shows "\<exists>c. readChunk uncompress (the (sk_files s n)) = Inr c \<and> resolved c = map (spec_record lookup) rs"
proof -
  obtain u out w where f: "finish compress lookup (Some u) (batch_writer rs) = (Inr out, w)" "sk_files s n = Some (out_file out)"
    using assms(2,3) unfolding sealed_ok_def by fastforce
  have "list_all (\<lambda>r. length (pr_sha256 r) = SHA256_BYTES) (cw_records (batch_writer rs))"
    using assms(4) by (simp add: batch_writer_records list_all_iff pending_of_def)
  from finish_reads_back [of compress uncompress, OF zlib f(1) this] show ?thesis
    using assms(5) f(2) by (auto simp: batch_writer_records chunk_spec_records)
qed

lemma entries_read:
  assumes "\<forall>(n, rs) \<in> set sealed. \<exists>c. readChunk uncompress (the (sk_files s n)) = Inr c \<and> resolved c = map g rs"
    and "map (\<lambda>e. (ce_file e, ce_records e)) es = map (\<lambda>(n, rs). (n, length rs)) sealed"
  shows "\<exists>cs. map (\<lambda>e. readChunk uncompress (the (sk_files s (ce_file e)))) es = map Inr cs \<and>
    concat (map resolved cs) = map g (concat (map snd sealed))"
  using assms
proof (induction es arbitrary: sealed)
  case (Cons e es)
  then obtain n rs rest where r: "sealed = (n, rs) # rest" "ce_file e = n"
    "map (\<lambda>e. (ce_file e, ce_records e)) es = map (\<lambda>(n, rs). (n, length rs)) rest"
    by (cases sealed) auto
  obtain c where c: "readChunk uncompress (the (sk_files s n)) = Inr c" "resolved c = map g rs" using Cons.prems(1) r(1) by auto
  obtain cs where "map (\<lambda>e. readChunk uncompress (the (sk_files s (ce_file e)))) es = map Inr cs"
    "concat (map resolved cs) = map g (concat (map snd rest))" using Cons.IH [of rest] Cons.prems(1) r by auto
  then show ?case using c r by (intro exI [of _ "c # cs"]) simp
qed simp

text \<open>The bucket files left by spilling a list of events with buffers of \<open>n\<close> events.\<close>

definition spilled :: "nat \<Rightarrow> MappingEvent list \<Rightarrow> nat \<Rightarrow> byte list option" where
  "spilled n evs = bucket_files (bucket_flush (fold bucket_write evs (newBucketWriter n (\<lambda>_. None))))"

definition holds_events :: "(nat \<Rightarrow> byte list option) \<Rightarrow> MappingEvent list \<Rightarrow> bool" where
  "holds_events files evs \<longleftrightarrow> (\<forall>b < BUCKET_COUNT. readBucket (files b) = Inr (filter (\<lambda>e. bucketFor (hash_id e) = b) evs))"

lemma spilled_holds: "holds_events (spilled n evs) evs"
  by (simp add: holds_events_def spilled_def bucket_flushed_file)

lemma collapseBuckets_result:
  assumes total: "\<forall>b. compress b \<noteq> None" and held: "holds_events files evs" and ok: "ops_ok evs" and order: "mset order = mset [0..<BUCKET_COUNT]"
  shows "\<exists>res s sealed log. collapseBuckets compress files definitions usage cap discard order = Inr (res, s) \<and>
    sink_reach compress (\<lambda>t. def_tag t definitions) cap usage s [] sealed log \<and> sk_pending s = [] \<and>
    mset log = mset (bucket_spec (\<lambda>h. def_hash h definitions) discard evs) \<and>
    cres_chunks res = sort_key ce_file (sk_entries s) \<and> \<not> cres_cancelled res \<and>
    fs_events_scanned (cres_stats res) = length evs \<and> fs_mappings (cres_stats res) = sum_list (map record_size log) \<and>
    fs_skipped_missing (cres_stats res) = sk_missing s"
proof -
  let ?es = "\<lambda>b. filter (\<lambda>e. bucketFor (hash_id e) = b) evs" and ?H = "\<lambda>h. def_hash h definitions"
  have len: "length order = BUCKET_COUNT" using mset_eq_length [OF order] by simp
  have "set order = {0..<BUCKET_COUNT}" using mset_eq_setD [OF order] by simp
  then have fs: "\<forall>b \<in> set order. readBucket (files b) = Inr (?es b) \<and> ops_ok (?es b)"
    using ok held by (auto simp: holds_events_def ops_ok_def list_all_iff)
  have e: "bc_records empty_collapse = []" "bc_events_scanned empty_collapse = 0" by (simp_all add: empty_collapse_def)
  have maps: "bc_mappings empty_collapse = sum_list (map record_size (bc_records empty_collapse))" by (simp add: empty_collapse_def)
  have reach: "sink_reach compress (\<lambda>t. def_tag t definitions) cap usage (newSink cap usage) [] [] (bc_records empty_collapse)"
    using sink_reach.start by (simp add: e)
  obtain s' sealed' tot where l: "bucket_loop compress files definitions discard order (newSink cap usage, empty_collapse) = Inr (s', tot)"
    "sink_reach compress (\<lambda>t. def_tag t definitions) cap usage s' [] sealed' (bc_records tot)"
    "bc_records tot = concat (map (\<lambda>b. bucket_spec ?H discard (?es b)) order)"
    "bc_events_scanned tot = sum_list (map (length \<circ> ?es) order)"
    "bc_mappings tot = sum_list (map record_size (bc_records tot))"
    using bucket_loop_result [where es = ?es, OF total fs reach maps, of discard] by (auto simp: e)
  obtain s1 where s1: "sink_close compress (\<lambda>t. def_tag t definitions) s' = Inr s1" using sink_close_total [OF total] by blast
  obtain sealed where r: "sink_reach compress (\<lambda>t. def_tag t definitions) cap usage s1 [] sealed (bc_records tot)" "sk_pending s1 = []"
    using sink_close_reach [OF l(2) s1] by blast
  have "mset (bc_records tot) = mset (concat (map (\<lambda>b. bucket_spec ?H discard (?es b)) [0..<BUCKET_COUNT]))"
    unfolding l(3) by (rule mset_concat_cong) (rule order)
  also have "\<dots> = mset (bucket_spec ?H discard evs)" by (rule bucket_spec_split)
  finally have m: "mset (bc_records tot) = mset (bucket_spec ?H discard evs)" .
  have "bc_events_scanned tot = sum_list (map (length \<circ> ?es) [0..<BUCKET_COUNT])"
    unfolding l(4) by (rule sum_list_cong_mset) (rule order)
  also have "\<dots> = length evs" using length_by_bucket [of evs] by (simp add: o_def)
  finally have "bc_events_scanned tot = length evs" .
  then show ?thesis using l(1,5) s1 r m len
    by (intro exI [of _ "fst (projr (collapseBuckets compress files definitions usage cap discard order))"]
        exI [of _ s1] exI [of _ sealed] exI [of _ "bc_records tot"]) (simp add: collapseBuckets_def sink_totals_def)
qed

lemma collapse_reads_back:
  assumes zlib: "\<And>b. \<exists>c. compress b = Some c \<and> uncompress c (length b) = Some b"
    and held: "holds_events files evs" and ok: "ops_ok evs" and order: "mset order = mset [0..<BUCKET_COUNT]"
    and small: "\<And>rs. mset rs \<subseteq># mset (bucket_spec (\<lambda>h. def_hash h definitions) discard evs) \<Longrightarrow>
      length (body_of (\<lambda>t. def_tag t definitions) (map pending_of rs)) < 2 ^ 32"
  shows "\<exists>res s cs. collapseBuckets compress files definitions usage cap discard order = Inr (res, s) \<and>
    \<not> cres_cancelled res \<and> fs_events_scanned (cres_stats res) = length evs \<and>
    map (\<lambda>e. readChunk uncompress (the (sk_files s (ce_file e)))) (cres_chunks res) = map Inr cs \<and>
    mset (concat (map resolved cs)) =
      mset (map (spec_record (\<lambda>t. def_tag t definitions)) (bucket_spec (\<lambda>h. def_hash h definitions) discard evs)) \<and>
    fs_mappings (cres_stats res) = sum_list (map ce_mappings (cres_chunks res)) + fs_skipped_missing (cres_stats res)"
proof -
  let ?L = "\<lambda>t. def_tag t definitions" and ?spec = "bucket_spec (\<lambda>h. def_hash h definitions) discard evs"
  have total: "\<forall>b. compress b \<noteq> None" using zlib by (metis option.distinct(1))
  have zl: "uncompress c (length b) = Some b" if "compress b = Some c" for b c using zlib [of b] that by auto
  obtain res s sealed log where c: "collapseBuckets compress files definitions usage cap discard order = Inr (res, s)"
    "sink_reach compress ?L cap usage s [] sealed log" "sk_pending s = []" "mset log = mset ?spec"
    "cres_chunks res = sort_key ce_file (sk_entries s)" "\<not> cres_cancelled res"
    "fs_events_scanned (cres_stats res) = length evs" "fs_mappings (cres_stats res) = sum_list (map record_size log)"
    "fs_skipped_missing (cres_stats res) = sk_missing s"
    using collapseBuckets_result [OF total held ok order, of definitions usage cap discard] by blast
  note inv = sink_reach_ok [OF c(2)]
  then have so: "sealed_ok compress ?L s sealed" by simp
  have all: "mset (concat (map snd sealed)) = mset ?spec" using inv c(3,4) by (simp add: batches_ok_def)
  have sizes: "sum_list (map record_size log) = sum_list (map ce_mappings (sk_entries s)) + sk_missing s"
    using inv c(4) sum_list_cong_mset [of log "concat (map snd sealed)" record_size] all by (simp add: sealed_ok_def)
  have "\<exists>c. readChunk uncompress (the (sk_files s m)) = Inr c \<and> resolved c = map (spec_record ?L) rs" if "(m, rs) \<in> set sealed" for m rs
  proof (rule sealed_reads [of compress uncompress, OF zl so that])
    have sub: "mset rs \<subseteq># mset ?spec" unfolding all [symmetric] using that mset_concat_part [of rs "map snd sealed"] by force
    show "list_all (\<lambda>r. length (col_sha256 r) = SHA256_BYTES) rs"
      using set_mset_mono [OF sub] bucket_spec_sha [of definitions discard evs] by (auto simp: list_all_iff)
    show "length (body_of ?L (map pending_of rs)) < 2 ^ 32" by (rule small [OF sub])
  qed
  then obtain ds where ds: "map (\<lambda>e. readChunk uncompress (the (sk_files s (ce_file e)))) (sk_entries s) = map Inr ds"
    "concat (map resolved ds) = map (spec_record ?L) (concat (map snd sealed))"
    using entries_read [of sealed uncompress s "spec_record ?L" "sk_entries s"] inv by (auto simp: sealed_ok_def)
  obtain cs where cs: "map (\<lambda>e. readChunk uncompress (the (sk_files s (ce_file e)))) (cres_chunks res) = map Inr cs" "mset cs = mset ds"
    using map_Inr_perm [OF ds(1), of "cres_chunks res"] c(5) by auto
  have "mset (concat (map resolved cs)) = mset (concat (map resolved ds))" by (rule mset_concat_cong) (rule cs(2))
  then have "mset (concat (map resolved cs)) = mset (map (spec_record ?L) ?spec)" using ds(2) all by simp
  moreover have "sum_list (map ce_mappings (cres_chunks res)) = sum_list (map ce_mappings (sk_entries s))"
    using c(5) by (intro sum_list_cong_mset) simp
  ultimately show ?thesis using c cs(1) sizes by auto
qed

text \<open>
  From the event stream to the chunks on disk: with any buffer size, any chunk cap and any
  order in which the buckets are finished, the collapse succeeds, is not cancelled, has scanned
  every event, and the chunk files it lists, read back and taken together, hold exactly the records
  specified for the whole stream: for each hash with a definition its tags with their texts whose
  last event adds (and, unless discarded, deletes) them.  The mappings reported exceed those in
  the chunks by the references that had no tag definition.
\<close>

theorem compaction_end_to_end:
  assumes zlib: "\<And>b. \<exists>c. compress b = Some c \<and> uncompress c (length b) = Some b"
    and ok: "ops_ok evs" and order: "mset order = mset [0..<BUCKET_COUNT]"
    and small: "\<And>rs. mset rs \<subseteq># mset (bucket_spec (\<lambda>h. def_hash h definitions) discard evs) \<Longrightarrow>
      length (body_of (\<lambda>t. def_tag t definitions) (map pending_of rs)) < 2 ^ 32"
  shows "\<exists>res s cs. collapseBuckets compress (spilled n evs) definitions usage cap discard order = Inr (res, s) \<and>
    \<not> cres_cancelled res \<and> fs_events_scanned (cres_stats res) = length evs \<and>
    map (\<lambda>e. readChunk uncompress (the (sk_files s (ce_file e)))) (cres_chunks res) = map Inr cs \<and>
    mset (concat (map resolved cs)) =
      mset (map (spec_record (\<lambda>t. def_tag t definitions)) (bucket_spec (\<lambda>h. def_hash h definitions) discard evs)) \<and>
    fs_mappings (cres_stats res) = sum_list (map ce_mappings (cres_chunks res)) + fs_skipped_missing (cres_stats res)"
  using collapse_reads_back [where compress = compress and uncompress = uncompress, OF zlib spilled_holds ok order small] .

lemma compaction_end_to_end_witness:
  "\<exists>res s cs. collapseBuckets plain_compress (spilled 2 demo_events) demo_definitions (newUsage 4) 1 False (rev [0..<BUCKET_COUNT]) = Inr (res, s) \<and>
     map (\<lambda>e. readChunk plain_uncompress (the (sk_files s (ce_file e)))) (cres_chunks res) = map Inr cs \<and>
     mset (concat (map resolved cs)) = {#(replicate 32 7, [\<lparr>ptr_tag_id = 3, entry_tag = ''ab''\<rparr>], [])#}"
proof -
  let ?r = "\<lparr>col_sha256 = replicate 32 7, col_adds = [3], col_dels = [9]\<rparr>"
  let ?L = "\<lambda>t. def_tag t demo_definitions"
  have zlib: "\<exists>c. plain_compress b = Some c \<and> plain_uncompress c (length b) = Some b" for b
    by (simp add: plain_compress_def plain_uncompress_def)
  have ok: "ops_ok demo_events" by code_simp
  have order: "mset (rev [0..<BUCKET_COUNT]) = mset [0..<BUCKET_COUNT]" by simp
  have spec: "bucket_spec (\<lambda>h. def_hash h demo_definitions) False demo_events = [?r]" by code_simp
  have sizes: "length (body_of ?L (map pending_of [])) \<le> 200" "length (body_of ?L (map pending_of [?r])) \<le> 200" by code_simp+
  have small: "length (body_of ?L (map pending_of rs)) < 2 ^ 32"
    if "mset rs \<subseteq># mset (bucket_spec (\<lambda>h. def_hash h demo_definitions) False demo_events)" for rs
  proof -
    have "length rs \<le> 1" "set rs \<subseteq> {?r}" using size_mset_mono [OF that] set_mset_mono [OF that] by (simp_all add: spec)
    then have "rs = [] \<or> rs = [?r]" by (cases rs) auto
    then show ?thesis using sizes by auto
  qed
  have spec_r: "map (spec_record ?L) [?r] = [(replicate 32 7, [\<lparr>ptr_tag_id = 3, entry_tag = ''ab''\<rparr>], [])]" by code_simp
  obtain res s cs where
    "collapseBuckets plain_compress (spilled 2 demo_events) demo_definitions (newUsage 4) 1 False (rev [0..<BUCKET_COUNT]) = Inr (res, s)"
    "map (\<lambda>e. readChunk plain_uncompress (the (sk_files s (ce_file e)))) (cres_chunks res) = map Inr cs"
    "mset (concat (map resolved cs)) = mset (map (spec_record ?L) (bucket_spec (\<lambda>h. def_hash h demo_definitions) False demo_events))"
    using compaction_end_to_end [where compress = plain_compress and uncompress = plain_uncompress and n = 2
      and usage = "newUsage 4" and cap = 1 and discard = False, OF zlib ok order small] by blast
  then show ?thesis unfolding spec spec_r by (intro exI conjI) simp_all
qed

end
