(* ===== verification/Ptr_Relations.thy ===== *)
theory Ptr_Relations
  imports Ptr_Chunk
begin

text \<open>
  Tag parents and siblings of the PTR tools (\<^verbatim>\<open>ptr-core/src/RelationsFile.cpp\<close>): the collapse of
  their add and delete events, and the relations file with its writer and reader.  The string
  table, header and compression are those of the chunk files.
\<close>

section \<open>Data\<close>

record RelationEvent =
  re_a :: u32
  re_b :: u32
  re_index :: u16
  re_op :: byte
  re_pad :: byte

record CollapsedRelation =
  rel_a :: u32
  rel_b :: u32
  rel_op :: EventOp

record RelationsFileStats =
  rs_parents :: nat
  rs_siblings :: nat
  rs_missing :: nat

text \<open>The reader casts a byte to the enumeration without looking at it, so the field is a byte.\<close>

record RelationRecord =
  a_index :: u32
  b_index :: u32
  rr_op :: byte

record RelationsFile =
  rf_strings :: "ChunkStringEntry list"
  rf_parents :: "RelationRecord list"
  rf_siblings :: "RelationRecord list"

definition RELATIONS_MAGIC :: string where
  "RELATIONS_MAGIC = ''IDHANPTR''"

section \<open>Collapsing relations\<close>

definition relationLess :: "RelationEvent \<Rightarrow> RelationEvent \<Rightarrow> bool" where
  "relationLess x y =
     (if re_a x \<noteq> re_a y then re_a x < re_a y
      else if re_b x \<noteq> re_b y then re_b x < re_b y
      else if re_index x \<noteq> re_index y then re_index x < re_index y
      else re_op x < re_op y)"

definition relation_key :: "RelationEvent \<Rightarrow> u32 \<times> u32 \<times> u16 \<times> byte" where
  "relation_key e = (re_a e, re_b e, re_index e, re_op e)"

lemma relationLess_key: "relationLess x y \<longleftrightarrow> relation_key x < relation_key y"
  by (auto simp: relationLess_def relation_key_def)

definition pair_of :: "RelationEvent \<Rightarrow> u32 \<times> u32" where
  "pair_of e = (re_a e, re_b e)"

definition as_mapping :: "RelationEvent \<Rightarrow> MappingEvent" where
  "as_mapping e = \<lparr>hash_id = re_a e, tag_id = re_b e, update_index = re_index e, ev_op = re_op e, ev_pad = 0\<rparr>"

definition collapse_span :: "RelationEvent list \<Rightarrow> CollapsedRelation option" where
  "collapse_span span =
     map_option (\<lambda>c. \<lparr>rel_a = re_a (hd span), rel_b = re_b (hd span), rel_op = co_op c\<rparr>)
       (collapseChain (map as_mapping span))"

definition collapseRelations :: "RelationEvent list \<Rightarrow> CollapsedRelation list" where
  "collapseRelations events = List.map_filter collapse_span (spans pair_of (sort_key relation_key events))"

section \<open>The relations file\<close>

definition relation_ids :: "CollapsedRelation list \<Rightarrow> CollapsedRelation list \<Rightarrow> u32 list" where
  "relation_ids parents siblings =
     remdups_adj (sort (concat (map (\<lambda>r. [rel_a r, rel_b r]) (parents @ siblings))))"

text \<open>\<open>encode_relations m list counter missing\<close>: the records, and the two counters moved on.\<close>

fun encode_relations ::
  "(u32 \<rightharpoonup> u32) \<Rightarrow> CollapsedRelation list \<Rightarrow> nat \<Rightarrow> nat \<Rightarrow> RelationRecord list \<times> nat \<times> nat" where
  "encode_relations m [] counter missing = ([], counter, missing)"
| "encode_relations m (r # rs) counter missing =
     (case (m (rel_a r), m (rel_b r)) of
        (Some a, Some b) \<Rightarrow>
          (case encode_relations m rs (counter + 1) missing of
             (out, c) \<Rightarrow> (\<lparr>a_index = a, b_index = b, rr_op = op_byte (rel_op r)\<rparr> # out, c))
      | _ \<Rightarrow> encode_relations m rs counter (missing + 1))"

definition relation_bytes :: "RelationRecord \<Rightarrow> byte list" where
  "relation_bytes r = appendPod32 (a_index r) @ appendPod32 (b_index r) @ [rr_op r]"

definition relations_body :: "ChunkStringEntry list \<Rightarrow> RelationRecord list \<Rightarrow> RelationRecord list \<Rightarrow> byte list" where
  "relations_body strings parents siblings =
     concat (map entry_bytes_of strings) @ appendPod32 (of_nat (length parents)) @ appendPod32 (of_nat (length siblings))
     @ concat (map relation_bytes parents) @ concat (map relation_bytes siblings)"

definition writeRelationsFile ::
  "deflater \<Rightarrow> CollapsedRelation list \<Rightarrow> CollapsedRelation list \<Rightarrow> (u32 \<Rightarrow> string option) \<Rightarrow> TagUsageSet option \<Rightarrow>
   (chunk_error, RelationsFileStats \<times> TagUsageSet option \<times> byte list) result" where
  "writeRelationsFile compress parents siblings lookup usage =
     (case string_table lookup (relation_ids parents siblings) usage of (strings, m, usage') \<Rightarrow>
     (case encode_relations m parents 0 0 of (ps, np, missing) \<Rightarrow>
     (case encode_relations m siblings 0 missing of (ss, ns, missing') \<Rightarrow>
       (let body = relations_body strings ps ss;
            header = \<lparr>hd_magic = RELATIONS_MAGIC, hd_version = CHUNK_FORMAT_VERSION, hd_body_size = length body,
              hd_record_count = of_nat (length ps + length ss), hd_string_count = of_nat (length strings)\<rparr> in
        (case compress body of
           None \<Rightarrow> Inl DeflateFailed
         | Some compressed \<Rightarrow>
             Inr (\<lparr>rs_parents = np, rs_siblings = ns, rs_missing = missing'\<rparr>, usage', header_bytes header @ compressed))))))"

definition take_relation :: "RelationRecord taker" where
  "take_relation =
     take_then (takePod32 ''a relation a index'') (\<lambda>a.
     take_then (takePod32 ''a relation b index'') (\<lambda>b.
     take_then (takePod8 ''a relation op'') (\<lambda>opb.
     take_done \<lparr>a_index = a, b_index = b, rr_op = opb\<rparr>)))"

definition take_relations :: "u32 \<Rightarrow> RelationsFile taker" where
  "take_relations string_count =
     take_then (take_many take_entry (unat string_count)) (\<lambda>strings.
     take_then (takePod32 ''the parent count'') (\<lambda>parent_count.
     take_then (takePod32 ''the sibling count'') (\<lambda>sibling_count.
     take_then (take_many take_relation (unat parent_count)) (\<lambda>parents.
     take_then (take_many take_relation (unat sibling_count)) (\<lambda>siblings.
     take_done \<lparr>rf_strings = strings, rf_parents = parents, rf_siblings = siblings\<rparr>)))))"

text \<open>The output buffer is zero-filled and the number of bytes zlib produced is not looked at.\<close>

definition inflate_unchecked :: "inflater \<Rightarrow> byte list \<Rightarrow> nat \<Rightarrow> (chunk_error, byte list) result" where
  "inflate_unchecked uncompress input n =
     (if n = 0 then Inr []
      else case uncompress input n of
        None \<Rightarrow> Inl InflateFailed
      | Some out \<Rightarrow> Inr (out @ replicate (n - length out) 0))"

definition readRelationsFile :: "inflater \<Rightarrow> byte list \<Rightarrow> (chunk_error, RelationsFile) result" where
  "readRelationsFile uncompress file =
     (if length file < 28 then Inl TooSmall
      else
        (let header = header_of_bytes (take 28 file) in
         if hd_magic header \<noteq> RELATIONS_MAGIC then Inl WrongMagic
         else if hd_version header \<noteq> CHUNK_FORMAT_VERSION then Inl (WrongVersion (hd_version header))
         else case inflate_unchecked uncompress (drop 28 file) (hd_body_size header) of
           Inl e \<Rightarrow> Inl e
         | Inr body \<Rightarrow>
             (case take_relations (hd_string_count header) body 0 of
                Inl e \<Rightarrow> Inl (BadBody e)
              | Inr (out, offset) \<Rightarrow> Inr out)))"

section \<open>The collapse as a specification\<close>

definition relation_ops_ok :: "RelationEvent list \<Rightarrow> bool" where
  "relation_ops_ok es \<longleftrightarrow> list_all (\<lambda>e. re_op e = 0 \<or> re_op e = 1) es"

definition last_relation_op :: "RelationEvent list \<Rightarrow> u32 \<times> u32 \<Rightarrow> EventOp" where
  "last_relation_op es = (\<lambda>(a, b). if last_op (map as_mapping es) a b = Some 1 then Delete else Add)"

lemma event_key_as_mapping: "event_key \<circ> as_mapping = relation_key"
  by (intro ext) (simp add: event_key_def as_mapping_def relation_key_def)

lemma sort_key_relations:
  "sorted (map pair_of (sort_key relation_key es))"
  "sorted (map event_key (map as_mapping (sort_key relation_key es)))"
proof -
  have s: "sorted (map relation_key (sort_key relation_key es))" by simp
  show "sorted (map pair_of (sort_key relation_key es))"
    by (rule sorted_map_mono [OF s]) (auto simp: pair_of_def relation_key_def)
  show "sorted (map event_key (map as_mapping (sort_key relation_key es)))"
    using s by (simp only: map_map event_key_as_mapping)
qed

lemma filter_as_mapping:
  "filter (\<lambda>e. hash_id e = a \<and> tag_id e = b) (map as_mapping es) = map as_mapping (filter (\<lambda>e. pair_of e = (a, b)) es)"
  by (induction es) (simp_all add: as_mapping_def pair_of_def)

lemma collapse_span_result:
  assumes es: "es = sort_key relation_key events" and "relation_ops_ok events" and "(a, b) \<in> set (keys_of pair_of es)"
  shows "collapse_span (filter (\<lambda>e. pair_of e = (a, b)) es)
    = Some \<lparr>rel_a = a, rel_b = b, rel_op = last_relation_op events (a, b)\<rparr>"
proof -
  let ?c = "filter (\<lambda>e. pair_of e = (a, b)) es"
  have ne: "?c \<noteq> []" using assms(3) by (auto simp: filter_empty_conv)
  then have hd: "pair_of (hd ?c) = (a, b)" using hd_in_set [OF ne] by simp
  have ops: "ops_ok (map as_mapping ?c)"
    using assms(2) es by (auto simp: ops_ok_def relation_ops_ok_def list_all_iff as_mapping_def)
  have "last_op (map as_mapping es) a b = Some (ev_op (last (map as_mapping ?c)))"
    using ne by (intro chain_last_op filter_as_mapping) (simp_all only: es sort_key_relations map_is_Nil_conv not_False_eq_True)
  moreover have "last_op (map as_mapping es) a b = last_op (map as_mapping events) a b"
    using es by (intro last_op_cong) simp
  moreover have "map as_mapping ?c \<noteq> []" using ne by (simp only: map_is_Nil_conv not_False_eq_True)
  from collapseChain_last [OF this ops] obtain i where
    "collapseChain (map as_mapping ?c) = Some \<lparr>co_op = if ev_op (last (map as_mapping ?c)) = 1 then Delete else Add, co_index = i\<rparr>" ..
  ultimately show ?thesis
    using hd unfolding collapse_span_def by (simp add: last_relation_op_def pair_of_def)
qed

text \<open>
  C32. Collapsing relations keeps, for every pair that occurs, one relation with the pair's last
  operation by update index, a delete winning over an add of the same index; the result is
  sorted by pair and depends only on which events occur, not on their order or repetition.
\<close>

theorem relations_collapse:
  assumes "relation_ops_ok events"
  shows "collapseRelations events =
    map (\<lambda>(a, b). \<lparr>rel_a = a, rel_b = b, rel_op = last_relation_op events (a, b)\<rparr>) (keys_of pair_of events) \<and>
    (\<forall>other. set other = set events \<longrightarrow> collapseRelations other = collapseRelations events)"
proof -
  have "collapseRelations es = map (\<lambda>(a, b). \<lparr>rel_a = a, rel_b = b, rel_op = last_relation_op es (a, b)\<rparr>) (keys_of pair_of es)"
    if ok: "relation_ops_ok es" for es
  proof -
    let ?s = "sort_key relation_key es"
    have "collapseRelations es = List.map_filter collapse_span (map (\<lambda>v. filter (\<lambda>e. pair_of e = v) ?s) (keys_of pair_of ?s))"
      by (simp add: collapseRelations_def spans_sorted sort_key_relations(1))
    also have "\<dots> = map (\<lambda>(a, b). \<lparr>rel_a = a, rel_b = b, rel_op = last_relation_op es (a, b)\<rparr>) (keys_of pair_of ?s)"
      unfolding map_filter_map_comp
      by (rule map_filter_map) (auto simp only: o_apply prod.case collapse_span_result [OF refl ok])
    finally show ?thesis using keys_of_cong [of ?s es pair_of] by simp
  qed
  note spec = this
  have "collapseRelations other = collapseRelations events" if "set other = set events" for other
  proof -
    have ok: "relation_ops_ok other" using assms that by (simp add: relation_ops_ok_def list_all_iff)
    have "last_op (map as_mapping other) = last_op (map as_mapping events)"
      using that by (intro ext last_op_cong) simp
    then have "last_relation_op other = last_relation_op events" by (simp add: last_relation_op_def)
    then show ?thesis by (simp add: spec [OF ok] spec [OF assms] keys_of_cong [OF that])
  qed
  with spec [OF assms] show ?thesis by blast
qed

definition demo_relations :: "RelationEvent list" where
  "demo_relations =
     [\<lparr>re_a = 7, re_b = 2, re_index = 3, re_op = 1, re_pad = 0\<rparr>, \<lparr>re_a = 1, re_b = 5, re_index = 9, re_op = 0, re_pad = 0\<rparr>,
      \<lparr>re_a = 7, re_b = 2, re_index = 3, re_op = 0, re_pad = 0\<rparr>, \<lparr>re_a = 1, re_b = 5, re_index = 4, re_op = 1, re_pad = 0\<rparr>]"

lemma relations_collapse_witness:
  "collapseRelations demo_relations = [\<lparr>rel_a = 1, rel_b = 5, rel_op = Add\<rparr>, \<lparr>rel_a = 7, rel_b = 2, rel_op = Delete\<rparr>] \<and>
   collapseRelations (rev demo_relations) = collapseRelations demo_relations"
proof -
  have ok: "relation_ops_ok demo_relations" by code_simp
  have "map (\<lambda>(a, b). \<lparr>rel_a = a, rel_b = b, rel_op = last_relation_op demo_relations (a, b)\<rparr>) (keys_of pair_of demo_relations)
      = [\<lparr>rel_a = 1, rel_b = 5, rel_op = Add\<rparr>, \<lparr>rel_a = 7, rel_b = 2, rel_op = Delete\<rparr>]" by code_simp
  then show ?thesis using relations_collapse [OF ok] by simp
qed

section \<open>The relations file reads back\<close>

lemma takePod8_reads: "reads_as (takePod8 what) [b] b"
  by (simp add: reads_as_def takePod8_def nth_append)

interpretation relation_recs: offset_codec relation_bytes take_relation "\<lambda>_. True"
proof
  fix r :: RelationRecord
  have "reads_as take_relation (relation_bytes r) \<lparr>a_index = a_index r, b_index = b_index r, rr_op = rr_op r\<rparr>"
    unfolding take_relation_def relation_bytes_def
    by (intro reads_as_then [OF takePod32_reads] reads_as_last takePod8_reads)
  then show "reads_as take_relation (relation_bytes r) r" by (cases r) simp
qed

lemma relations_many:
  "length rs < 2 ^ 32 \<Longrightarrow> reads_as (take_many take_relation (unat (of_nat (length rs) :: u32))) (concat (map relation_bytes rs)) rs"
  by (subst unat_u32) (auto intro: relation_recs.reads_many simp: list_all_iff)

lemma take_relations_reads:
  assumes "list_all entry_fits strings" and "length strings < 2 ^ 32" and "length ps < 2 ^ 32" and "length ss < 2 ^ 32"
  shows "reads_as (take_relations (of_nat (length strings))) (relations_body strings ps ss)
    \<lparr>rf_strings = strings, rf_parents = ps, rf_siblings = ss\<rparr>"
  unfolding take_relations_def relations_body_def unat_u32 [OF assms(2)]
  by (intro reads_as_then [OF entries.reads_many [OF assms(1)]] reads_as_then [OF takePod32_reads]
      reads_as_then [OF relations_many [OF assms(3)]] reads_as_last relations_many assms(4))

text \<open>What a file says of a list of relations: the two entries of the table and the operation.\<close>

definition resolved_relations :: "ChunkStringEntry list \<Rightarrow> RelationRecord list \<Rightarrow> (ChunkStringEntry \<times> ChunkStringEntry \<times> byte) list" where
  "resolved_relations strings rs = map (\<lambda>r. (strings ! unat (a_index r), strings ! unat (b_index r), rr_op r)) rs"

definition relation_spec :: "(u32 \<Rightarrow> string option) \<Rightarrow> CollapsedRelation \<Rightarrow> (ChunkStringEntry \<times> ChunkStringEntry \<times> byte) option" where
  "relation_spec lookup r =
     (case (entry_for lookup (rel_a r), entry_for lookup (rel_b r)) of
        (Some a, Some b) \<Rightarrow> Some (a, b, op_byte (rel_op r))
      | _ \<Rightarrow> None)"

lemma encode_relations_result:
  assumes "table_ok lookup ids strings m" and "\<forall>r \<in> set rs. rel_a r \<in> set ids \<and> rel_b r \<in> set ids"
  shows "case encode_relations m rs counter missing of (out, counter', missing') \<Rightarrow>
    resolved_relations strings out = List.map_filter (relation_spec lookup) rs \<and>
    counter' = counter + length out \<and> missing' + length out = missing + length rs"
  using assms(2)
proof (induction rs arbitrary: counter missing)
  case (Cons r rs)
  have e: "case m t of None \<Rightarrow> lookup t = None | Some i \<Rightarrow> entry_for lookup t = Some (strings ! unat i)" if "t \<in> set ids" for t
    using assms(1) that unfolding table_ok_def by (auto split: option.splits)
  have a: "case m (rel_a r) of None \<Rightarrow> lookup (rel_a r) = None | Some i \<Rightarrow> entry_for lookup (rel_a r) = Some (strings ! unat i)"
    and b: "case m (rel_b r) of None \<Rightarrow> lookup (rel_b r) = None | Some i \<Rightarrow> entry_for lookup (rel_b r) = Some (strings ! unat i)"
    using e Cons.prems by simp_all
  show ?case
  proof (cases "m (rel_a r) = None \<or> m (rel_b r) = None")
    case True
    then have "relation_spec lookup r = None"
      using a b by (auto simp: relation_spec_def entry_for_def split: option.splits)
    then show ?thesis using True Cons.IH [of counter "missing + 1"] Cons.prems
      by (auto simp: map_filter_simps split: option.splits prod.splits)
  next
    case False
    then obtain x y where xy: "m (rel_a r) = Some x" "m (rel_b r) = Some y" by auto
    then have "relation_spec lookup r = Some (strings ! unat x, strings ! unat y, op_byte (rel_op r))"
      using a b by (simp add: relation_spec_def)
    then show ?thesis using xy Cons.IH [of "counter + 1" missing] Cons.prems
      by (auto simp: map_filter_simps resolved_relations_def split: prod.splits)
  qed
qed (simp add: resolved_relations_def map_filter_simps)

definition relations_body_of :: "(u32 \<Rightarrow> string option) \<Rightarrow> CollapsedRelation list \<Rightarrow> CollapsedRelation list \<Rightarrow> byte list" where
  "relations_body_of lookup parents siblings =
     (case string_table lookup (relation_ids parents siblings) None of (strings, m, _) \<Rightarrow>
        relations_body strings (fst (encode_relations m parents 0 0)) (fst (encode_relations m siblings 0 0)))"

lemma encode_fst: "fst (encode_relations m rs c k) = fst (encode_relations m rs c' k')"
proof (induction rs arbitrary: c k c' k')
  case (Cons r rs)
  show ?case
  proof (cases "m (rel_a r) = None \<or> m (rel_b r) = None")
    case True
    then show ?thesis using Cons [of c "k + 1" c' "k' + 1"] by (auto split: option.splits)
  next
    case False
    then show ?thesis using Cons [of "c + 1" k "c' + 1" k'] by (auto split: prod.splits)
  qed
qed simp

lemma relation_ids_props:
  "distinct (relation_ids ps ss)" "\<forall>r \<in> set (ps @ ss). rel_a r \<in> set (relation_ids ps ss) \<and> rel_b r \<in> set (relation_ids ps ss)"
  by (auto simp: relation_ids_def distinct_remdups_adj_sorted)

lemma small_relations_fit:
  assumes "length (relations_body strings ps ss) < 2 ^ 32"
  shows "list_all entry_fits strings" and "length strings < 2 ^ 32" and "length ps < 2 ^ 32" and "length ss < 2 ^ 32"
proof -
  have "length (chunk_body strings []) < 2 ^ 32" using assms by (simp add: relations_body_def chunk_body_def)
  from small_body_fits [OF this] show "list_all entry_fits strings" "length strings < 2 ^ 32" by simp_all
  have "1 * length rs \<le> length (concat (map relation_bytes rs))" for rs
    by (rule concat_count) (simp add: relation_bytes_def)
  from this [of ps] this [of ss] show "length ps < 2 ^ 32" "length ss < 2 ^ 32"
    using assms by (simp_all add: relations_body_def)
qed

lemma readRelations_written:
  assumes "uncompress c (length (relations_body strings ps ss)) = Some (relations_body strings ps ss)"
    and "length (relations_body strings ps ss) < 2 ^ 32"
  shows "readRelationsFile uncompress (header_bytes \<lparr>hd_magic = RELATIONS_MAGIC, hd_version = CHUNK_FORMAT_VERSION,
      hd_body_size = length (relations_body strings ps ss), hd_record_count = n,
      hd_string_count = of_nat (length strings)\<rparr> @ c) = Inr \<lparr>rf_strings = strings, rf_parents = ps, rf_siblings = ss\<rparr>"
    (is "readRelationsFile _ (header_bytes ?h @ c) = _")
proof -
  let ?b = "relations_body strings ps ss"
  have h: "header_of_bytes (header_bytes ?h) = ?h" "length (header_bytes ?h) = 28"
    using assms(2) by (auto intro!: header_roundtrip simp: RELATIONS_MAGIC_def)
  have "inflate_unchecked uncompress c (length ?b) = Inr ?b"
    using assms(1) by (simp add: inflate_unchecked_def)
  moreover have "take_relations (of_nat (length strings)) ?b 0 =
      Inr (\<lparr>rf_strings = strings, rf_parents = ps, rf_siblings = ss\<rparr>, length ?b)"
    using reads_as_start [OF take_relations_reads [OF small_relations_fit [OF assms(2)]], of "[]"] by simp
  ultimately show ?thesis using h by (simp add: readRelationsFile_def)
qed

text \<open>
  C33. The relations file reads back as the relations written: when the decompressor inverts the
  compressor, reading returns, for parents and for siblings, in order, the relations whose two
  tags have definitions, with their ids, texts and operation; the counts written are the lengths
  of these lists and every other relation is counted as missing.  The body is under 4 GiB.
\<close>

theorem relations_roundtrip:
  assumes "\<And>b c. compress b = Some c \<Longrightarrow> uncompress c (length b) = Some b"
    and "writeRelationsFile compress parents siblings lookup usage = Inr (stats, usage', file_bytes)"
    and "length (relations_body_of lookup parents siblings) < 2 ^ 32"
  shows "\<exists>rf. readRelationsFile uncompress file_bytes = Inr rf \<and>
    resolved_relations (rf_strings rf) (rf_parents rf) = List.map_filter (relation_spec lookup) parents \<and>
    resolved_relations (rf_strings rf) (rf_siblings rf) = List.map_filter (relation_spec lookup) siblings \<and>
    rs_parents stats = length (rf_parents rf) \<and> rs_siblings stats = length (rf_siblings rf) \<and>
    rs_parents stats + rs_siblings stats + rs_missing stats = length parents + length siblings"
proof -
  let ?ids = "relation_ids parents siblings"
  obtain strings m u where st: "string_table lookup ?ids usage = (strings, m, u)" by (metis prod_cases3)
  obtain ps np k where ps: "encode_relations m parents 0 0 = (ps, np, k)" by (metis prod_cases3)
  obtain ss ns k' where ss: "encode_relations m siblings 0 k = (ss, ns, k')" by (metis prod_cases3)
  have "fst (encode_relations m siblings 0 0) = ss" using ss encode_fst [of m siblings 0 0 0 k] by simp
  then have body: "length (relations_body strings ps ss) < 2 ^ 32"
    using assms(3) string_table_usage [OF st, of None] ps by (auto simp: relations_body_of_def)
  have "length (List.map_filter (entry_for lookup) ?ids) < 2 ^ 32"
    using small_relations_fit(2) [OF body] string_table_strings [of lookup ?ids usage] st by simp
  then have ok: "table_ok lookup ?ids strings m"
    using string_table_ok [OF relation_ids_props(1), of lookup parents siblings usage] st by simp
  have "case encode_relations m parents 0 0 of (out, counter', missing') \<Rightarrow>
      resolved_relations strings out = List.map_filter (relation_spec lookup) parents \<and>
      counter' = 0 + length out \<and> missing' + length out = 0 + length parents"
    using relation_ids_props(2) [of parents siblings] by (intro encode_relations_result [OF ok]) simp
  moreover have "case encode_relations m siblings 0 k of (out, counter', missing') \<Rightarrow>
      resolved_relations strings out = List.map_filter (relation_spec lookup) siblings \<and>
      counter' = 0 + length out \<and> missing' + length out = k + length siblings"
    using relation_ids_props(2) [of parents siblings] by (intro encode_relations_result [OF ok]) simp
  moreover obtain c where "compress (relations_body strings ps ss) = Some c"
    "file_bytes = header_bytes \<lparr>hd_magic = RELATIONS_MAGIC, hd_version = CHUNK_FORMAT_VERSION,
      hd_body_size = length (relations_body strings ps ss), hd_record_count = of_nat (length ps + length ss),
      hd_string_count = of_nat (length strings)\<rparr> @ c"
    "stats = \<lparr>rs_parents = np, rs_siblings = ns, rs_missing = k'\<rparr>"
    using assms(2) by (auto simp: writeRelationsFile_def st ps ss Let_def split: option.splits)
  moreover from this have "readRelationsFile uncompress file_bytes = Inr \<lparr>rf_strings = strings, rf_parents = ps, rf_siblings = ss\<rparr>"
    using readRelations_written [of uncompress c strings, OF assms(1) body] by simp
  ultimately show ?thesis by (simp add: ps ss)
qed

lemma write_plain: "\<exists>stats u f. writeRelationsFile plain_compress ps ss lookup usage = Inr (stats, u, f)"
  by (simp add: writeRelationsFile_def plain_compress_def Let_def split: prod.splits)

lemma relations_roundtrip_witness:
  "case writeRelationsFile plain_compress [\<lparr>rel_a = 3, rel_b = 5, rel_op = Delete\<rparr>, \<lparr>rel_a = 3, rel_b = 4, rel_op = Add\<rparr>]
       [\<lparr>rel_a = 5, rel_b = 3, rel_op = Add\<rparr>] demo_lookup None of
     Inl e \<Rightarrow> False
   | Inr (stats, usage, file_bytes) \<Rightarrow> (\<exists>rf. readRelationsFile plain_uncompress file_bytes = Inr rf \<and>
       resolved_relations (rf_strings rf) (rf_parents rf) =
         [(\<lparr>ptr_tag_id = 3, entry_tag = ''series:a''\<rparr>, \<lparr>ptr_tag_id = 5, entry_tag = ''b''\<rparr>, 1)] \<and>
       rs_missing stats = 1)"
proof -
  let ?ps = "[\<lparr>rel_a = 3, rel_b = 5, rel_op = Delete\<rparr>, \<lparr>rel_a = 3, rel_b = 4, rel_op = Add\<rparr>]"
  let ?ss = "[\<lparr>rel_a = 5, rel_b = 3, rel_op = Add\<rparr>]"
  obtain stats u f where w: "writeRelationsFile plain_compress ?ps ?ss demo_lookup None = Inr (stats, u, f)"
    using write_plain by metis
  have zlib: "plain_uncompress c (length b) = Some b" if "plain_compress b = Some c" for b c
    using that by (auto simp: plain_uncompress_def plain_compress_def)
  have "length (relations_body_of demo_lookup ?ps ?ss) \<le> 200" by code_simp
  then have size: "length (relations_body_of demo_lookup ?ps ?ss) < 2 ^ 32" by simp
  have spec: "List.map_filter (relation_spec demo_lookup) ?ps =
      [(\<lparr>ptr_tag_id = 3, entry_tag = ''series:a''\<rparr>, \<lparr>ptr_tag_id = 5, entry_tag = ''b''\<rparr>, 1)]"
    "length (List.map_filter (relation_spec demo_lookup) ?ss) = 1" by code_simp+
  from relations_roundtrip [of plain_compress plain_uncompress, OF zlib w size] obtain rf where
    rf: "readRelationsFile plain_uncompress f = Inr rf"
      "resolved_relations (rf_strings rf) (rf_parents rf) = List.map_filter (relation_spec demo_lookup) ?ps"
      "resolved_relations (rf_strings rf) (rf_siblings rf) = List.map_filter (relation_spec demo_lookup) ?ss"
      "rs_parents stats = length (rf_parents rf)" "rs_siblings stats = length (rf_siblings rf)"
      "rs_parents stats + rs_siblings stats + rs_missing stats = length ?ps + length ?ss" by blast
  have "length (rf_parents rf) = 1" "length (rf_siblings rf) = 1"
    using arg_cong [OF rf(2), of length] arg_cong [OF rf(3), of length] spec by (simp_all add: resolved_relations_def)
  then show ?thesis using rf spec(1) unfolding w by simp
qed

end
