(* ===== verification/Ptr_Parser.thy ===== *)
theory Ptr_Parser
  imports Json_Value
begin

text \<open>
  The PTR update files (\<^verbatim>\<open>ptr-core/include/ptr/PTRFileParser.hpp\<close> and
  \<^verbatim>\<open>ptr-core/src/PTRFileParser.cpp\<close>): zlib inflation into a growing buffer, and the extraction of the
  typed updates from the JSON arrays.  zlib's streaming inflate and the JSON library are parameters.
  The C++ maps of definitions are lists of pairs with distinct ids, in the order of insertion; the
  order in which the C++ iterates them is unspecified and nothing below depends on it.
\<close>

section \<open>Update files\<close>

record DefinitionsUpdate =
  hash_ids_to_hashes :: "(int \<times> string) list"
  tag_ids_to_tags :: "(int \<times> string) list"

record ContentUpdateMapping =
  cm_tag_id :: int
  cm_hash_ids :: "int list"

record ContentUpdate =
  mappings_add :: "ContentUpdateMapping list"
  tag_parents_add :: "(int \<times> int) list"
  tag_siblings_add :: "(int \<times> int) list"
  mappings_delete :: "ContentUpdateMapping list"
  tag_parents_delete :: "(int \<times> int) list"
  tag_siblings_delete :: "(int \<times> int) list"

record MetadataUpdateEntry =
  me_index :: int
  me_hashes :: "string list"
  me_begin :: int
  me_end :: int

record MetadataUpdate =
  mu_updates :: "MetadataUpdateEntry list"
  next_update_due :: int

datatype ParsedUpdate = PDefinitions DefinitionsUpdate | PContent ContentUpdate | PMetadata MetadataUpdate

datatype UpdateType = UDefinitions | UContent | UMetadata | UUnknown

datatype parse_error =
  BadConversion | InvalidFormat | UnknownType int | InflateInitFailed | InflateFailed | JsonSyntax | NoMetadataFound

definition SERIALISABLE_TYPE_CONTENT_UPDATE :: int where "SERIALISABLE_TYPE_CONTENT_UPDATE = 34"
definition SERIALISABLE_TYPE_DEFINITIONS_UPDATE :: int where "SERIALISABLE_TYPE_DEFINITIONS_UPDATE = 36"
definition SERIALISABLE_TYPE_METADATA :: int where "SERIALISABLE_TYPE_METADATA = 37"
definition CONTENT_TYPE_MAPPINGS :: int where "CONTENT_TYPE_MAPPINGS = 0"
definition CONTENT_TYPE_TAG_SIBLINGS :: int where "CONTENT_TYPE_TAG_SIBLINGS = 1"
definition CONTENT_TYPE_TAG_PARENTS :: int where "CONTENT_TYPE_TAG_PARENTS = 2"
definition CONTENT_UPDATE_ADD :: int where "CONTENT_UPDATE_ADD = 0"
definition CONTENT_UPDATE_DELETE :: int where "CONTENT_UPDATE_DELETE = 1"
definition DEFINITIONS_TYPE_HASHES :: int where "DEFINITIONS_TYPE_HASHES = 0"
definition DEFINITIONS_TYPE_TAGS :: int where "DEFINITIONS_TYPE_TAGS = 1"

lemmas ptr_constants = SERIALISABLE_TYPE_CONTENT_UPDATE_def SERIALISABLE_TYPE_DEFINITIONS_UPDATE_def
  SERIALISABLE_TYPE_METADATA_def CONTENT_TYPE_MAPPINGS_def CONTENT_TYPE_TAG_SIBLINGS_def CONTENT_TYPE_TAG_PARENTS_def
  CONTENT_UPDATE_ADD_def CONTENT_UPDATE_DELETE_def DEFINITIONS_TYPE_HASHES_def DEFINITIONS_TYPE_TAGS_def

section \<open>Inflating\<close>

datatype zret = Z_OK | Z_STREAM_END | Z_FAILED

record 'z Inflater =
  z_init :: "byte list \<Rightarrow> 'z option"
  z_inflate :: "'z \<Rightarrow> nat \<Rightarrow> zret \<times> byte list \<times> 'z"

definition CHUNK_SIZE :: nat where
  "CHUNK_SIZE = 65536"

text \<open>
  The loop: \<open>out\<close> is what was produced so far and \<open>cap\<close> the length of the buffer, which grows when
  it is full.  \<open>None\<close> is a loop that never ends.
\<close>

partial_function (option) inflate_loop :: "('z \<Rightarrow> nat \<Rightarrow> zret \<times> byte list \<times> 'z) \<Rightarrow> 'z \<Rightarrow> byte list \<Rightarrow> nat \<Rightarrow> (zret \<times> byte list) option" where
  "inflate_loop inflate z out cap =
     (let cap1 = (if cap - length out = 0 then cap + CHUNK_SIZE else cap) in
      case inflate z (cap1 - length out) of (ret, piece, z1) \<Rightarrow>
        if ret = Z_OK then inflate_loop inflate z1 (out @ piece) cap1 else Some (ret, out @ piece))"

definition decompressToJson :: "'j Jsoncpp \<Rightarrow> 'z Inflater \<Rightarrow> byte list \<Rightarrow> (parse_error, 'j) result option" where
  "decompressToJson J Z compressed_data =
     (case z_init Z compressed_data of
        None \<Rightarrow> Some (Inl InflateInitFailed)
      | Some strm \<Rightarrow>
          (case inflate_loop (z_inflate Z) strm [] CHUNK_SIZE of
             None \<Rightarrow> None
           | Some (ret, decompressed) \<Rightarrow>
               if ret \<noteq> Z_STREAM_END then Some (Inl InflateFailed)
               else (case j_parse J decompressed of None \<Rightarrow> Some (Inl JsonSyntax) | Some root \<Rightarrow> Some (Inr root))))"

section \<open>Reading the arrays\<close>

definition asInt :: "'j Jsoncpp \<Rightarrow> 'j \<Rightarrow> (parse_error, int) result" where
  "asInt J v = (case j_asInt J v of None \<Rightarrow> Inl BadConversion | Some i \<Rightarrow> Inr i)"

definition asInt64 :: "'j Jsoncpp \<Rightarrow> 'j \<Rightarrow> (parse_error, int) result" where
  "asInt64 J v = (case j_asInt64 J v of None \<Rightarrow> Inl BadConversion | Some i \<Rightarrow> Inr i)"

definition asString :: "'j Jsoncpp \<Rightarrow> 'j \<Rightarrow> (parse_error, string) result" where
  "asString J v = (case j_asString J v of None \<Rightarrow> Inl BadConversion | Some s \<Rightarrow> Inr s)"

definition elem :: "'j Jsoncpp \<Rightarrow> 'j \<Rightarrow> nat \<Rightarrow> 'j" where
  "elem J v i = j_elems J v ! i"

text \<open>The elements a loop does not skip: arrays with at least \<open>n\<close> elements.\<close>

definition rows :: "'j Jsoncpp \<Rightarrow> nat \<Rightarrow> 'j \<Rightarrow> 'j list" where
  "rows J n v = filter (\<lambda>r. j_isArray J r \<and> n \<le> length (j_elems J r)) (j_elems J v)"

definition detectUpdateType :: "'j Jsoncpp \<Rightarrow> 'j \<Rightarrow> (parse_error, UpdateType) result" where
  "detectUpdateType J root =
     (if \<not> j_isArray J root \<or> length (j_elems J root) < 2 then Inr UUnknown
      else and_then (asInt J (elem J root 0)) (\<lambda>t.
        Inr (if t = SERIALISABLE_TYPE_DEFINITIONS_UPDATE then UDefinitions
             else if t = SERIALISABLE_TYPE_CONTENT_UPDATE then UContent
             else if t = SERIALISABLE_TYPE_METADATA then UMetadata else UUnknown)))"

definition emplace :: "int \<Rightarrow> string \<Rightarrow> (int \<times> string) list \<Rightarrow> (int \<times> string) list" where
  "emplace k v m = (if k \<in> fst ` set m then m else m @ [(k, v)])"

definition hash_definition :: "'j Jsoncpp \<Rightarrow> 'j \<Rightarrow> DefinitionsUpdate \<Rightarrow> (parse_error, DefinitionsUpdate) result" where
  "hash_definition J d u =
     and_then (asInt J (elem J d 0)) (\<lambda>i. and_then (asString J (elem J d 1)) (\<lambda>hex.
       Inr (u\<lparr>hash_ids_to_hashes := emplace i hex (hash_ids_to_hashes u)\<rparr>)))"

definition tag_definition :: "'j Jsoncpp \<Rightarrow> 'j \<Rightarrow> DefinitionsUpdate \<Rightarrow> (parse_error, DefinitionsUpdate) result" where
  "tag_definition J d u =
     and_then (asInt J (elem J d 0)) (\<lambda>i. and_then (asString J (elem J d 1)) (\<lambda>tag.
       Inr (u\<lparr>tag_ids_to_tags := emplace i (filter (\<lambda>c. c \<noteq> CHR 0x00) tag) (tag_ids_to_tags u)\<rparr>)))"

definition definitions_block :: "'j Jsoncpp \<Rightarrow> 'j \<Rightarrow> DefinitionsUpdate \<Rightarrow> (parse_error, DefinitionsUpdate) result" where
  "definitions_block J entry u =
     and_then (asInt J (elem J entry 0)) (\<lambda>t.
       let definitions = elem J entry 1 in
       if \<not> j_isArray J definitions then Inr u
       else if t = DEFINITIONS_TYPE_HASHES then fold_result (hash_definition J) (rows J 2 definitions) u
       else if t = DEFINITIONS_TYPE_TAGS then fold_result (tag_definition J) (rows J 2 definitions) u
       else Inr u)"

definition parseDefinitionsUpdate :: "'j Jsoncpp \<Rightarrow> 'j \<Rightarrow> (parse_error, DefinitionsUpdate) result" where
  "parseDefinitionsUpdate J info =
     (let none = \<lparr>hash_ids_to_hashes = [], tag_ids_to_tags = []\<rparr> in
      if \<not> j_isArray J info then Inr none else fold_result (definitions_block J) (rows J 2 info) none)"

definition mapping_row :: "'j Jsoncpp \<Rightarrow> bool \<Rightarrow> 'j \<Rightarrow> ContentUpdate \<Rightarrow> (parse_error, ContentUpdate) result" where
  "mapping_row J is_delete row c =
     and_then (asInt J (elem J row 0)) (\<lambda>t.
       and_then (if j_isArray J (elem J row 1)
                 then fold_result (\<lambda>h ids. and_then (asInt J h) (\<lambda>i. Inr (ids @ [i]))) (j_elems J (elem J row 1)) []
                 else Inr []) (\<lambda>ids.
         let m = \<lparr>cm_tag_id = t, cm_hash_ids = ids\<rparr> in
         Inr (if is_delete then c\<lparr>mappings_delete := mappings_delete c @ [m]\<rparr> else c\<lparr>mappings_add := mappings_add c @ [m]\<rparr>)))"

definition parent_row :: "'j Jsoncpp \<Rightarrow> bool \<Rightarrow> 'j \<Rightarrow> ContentUpdate \<Rightarrow> (parse_error, ContentUpdate) result" where
  "parent_row J is_delete row c =
     and_then (asInt J (elem J row 0)) (\<lambda>child_id. and_then (asInt J (elem J row 1)) (\<lambda>parent_id.
       Inr (if is_delete then c\<lparr>tag_parents_delete := tag_parents_delete c @ [(child_id, parent_id)]\<rparr>
            else c\<lparr>tag_parents_add := tag_parents_add c @ [(child_id, parent_id)]\<rparr>)))"

definition sibling_row :: "'j Jsoncpp \<Rightarrow> bool \<Rightarrow> 'j \<Rightarrow> ContentUpdate \<Rightarrow> (parse_error, ContentUpdate) result" where
  "sibling_row J is_delete row c =
     and_then (asInt J (elem J row 0)) (\<lambda>bad_id. and_then (asInt J (elem J row 1)) (\<lambda>good_id.
       Inr (if is_delete then c\<lparr>tag_siblings_delete := tag_siblings_delete c @ [(bad_id, good_id)]\<rparr>
            else c\<lparr>tag_siblings_add := tag_siblings_add c @ [(bad_id, good_id)]\<rparr>)))"

definition content_action :: "'j Jsoncpp \<Rightarrow> int \<Rightarrow> 'j \<Rightarrow> ContentUpdate \<Rightarrow> (parse_error, ContentUpdate) result" where
  "content_action J content_type action_entry c =
     and_then (asInt J (elem J action_entry 0)) (\<lambda>action.
       if action \<noteq> CONTENT_UPDATE_ADD \<and> action \<noteq> CONTENT_UPDATE_DELETE then Inr c
       else
         (let is_delete = (action = CONTENT_UPDATE_DELETE); data_rows = elem J action_entry 1 in
          if \<not> j_isArray J data_rows then Inr c
          else if content_type = CONTENT_TYPE_MAPPINGS then fold_result (mapping_row J is_delete) (rows J 2 data_rows) c
          else if content_type = CONTENT_TYPE_TAG_PARENTS then fold_result (parent_row J is_delete) (rows J 2 data_rows) c
          else if content_type = CONTENT_TYPE_TAG_SIBLINGS then fold_result (sibling_row J is_delete) (rows J 2 data_rows) c
          else Inr c))"

definition content_block :: "'j Jsoncpp \<Rightarrow> 'j \<Rightarrow> ContentUpdate \<Rightarrow> (parse_error, ContentUpdate) result" where
  "content_block J content_entry c =
     and_then (asInt J (elem J content_entry 0)) (\<lambda>content_type.
       let actions_to_datas = elem J content_entry 1 in
       if \<not> j_isArray J actions_to_datas then Inr c
       else fold_result (content_action J content_type) (rows J 2 actions_to_datas) c)"

definition no_content :: ContentUpdate where
  "no_content = \<lparr>mappings_add = [], tag_parents_add = [], tag_siblings_add = [], mappings_delete = [], tag_parents_delete = [],
     tag_siblings_delete = []\<rparr>"

definition parseContentUpdate :: "'j Jsoncpp \<Rightarrow> 'j \<Rightarrow> (parse_error, ContentUpdate) result" where
  "parseContentUpdate J info =
     (if \<not> j_isArray J info then Inr no_content else fold_result (content_block J) (rows J 2 info) no_content)"

definition string_elems :: "'j Jsoncpp \<Rightarrow> 'j \<Rightarrow> (parse_error, string list) result" where
  "string_elems J v = fold_result (\<lambda>h hs. and_then (asString J h) (\<lambda>s. Inr (hs @ [s]))) (j_elems J v) []"

definition metadata_entry :: "'j Jsoncpp \<Rightarrow> 'j \<Rightarrow> MetadataUpdateEntry list \<Rightarrow> (parse_error, MetadataUpdateEntry list) result" where
  "metadata_entry J entry ues =
     (if \<not> j_isArray J (elem J entry 1) then and_then (asInt J (elem J entry 0)) (\<lambda>_. Inr ues)
      else and_then (asInt J (elem J entry 0)) (\<lambda>i. and_then (string_elems J (elem J entry 1)) (\<lambda>hs.
        and_then (asInt64 J (elem J entry 2)) (\<lambda>b. and_then (asInt64 J (elem J entry 3)) (\<lambda>e.
          Inr (ues @ [\<lparr>me_index = i, me_hashes = hs, me_begin = b, me_end = e\<rparr>]))))))"

text \<open>
  For a document of another shape the C++ returns an update whose \<^verbatim>\<open>next_update_due\<close> was never
  initialised; the model has zero there.
\<close>

definition parseMetadataUpdate :: "'j Jsoncpp \<Rightarrow> 'j \<Rightarrow> (parse_error, MetadataUpdate) result" where
  "parseMetadataUpdate J info =
     (if \<not> j_isArray J info \<or> length (j_elems J info) < 2 then Inr \<lparr>mu_updates = [], next_update_due = 0\<rparr>
      else and_then (asInt64 J (elem J info 1)) (\<lambda>due.
        if \<not> j_isArray J (elem J info 0) then Inr \<lparr>mu_updates = [], next_update_due = due\<rparr>
        else and_then (fold_result (metadata_entry J) (rows J 4 (elem J info 0)) []) (\<lambda>ues.
          Inr \<lparr>mu_updates = ues, next_update_due = due\<rparr>)))"

definition memberOf :: "'j Jsoncpp \<Rightarrow> 'j \<Rightarrow> string \<Rightarrow> (parse_error, 'j) result" where
  "memberOf J j k = (case j_at J j k of None \<Rightarrow> Inl BadConversion | Some v \<Rightarrow> Inr v)"

definition memberOr :: "'j Jsoncpp \<Rightarrow> 'j \<Rightarrow> string \<Rightarrow> 'j \<Rightarrow> (parse_error, 'j) result" where
  "memberOr J j k d = (case j_get J j k d of None \<Rightarrow> Inl BadConversion | Some v \<Rightarrow> Inr v)"

definition cache_entry :: "'j Jsoncpp \<Rightarrow> 'j \<Rightarrow> MetadataUpdateEntry list \<Rightarrow> (parse_error, MetadataUpdateEntry list) result" where
  "cache_entry J u ues =
     and_then (memberOf J u ''hashes'') (\<lambda>hashes.
       if \<not> j_isArray J hashes then and_then (memberOr J u ''index'' (j_of_int J (- 1))) (\<lambda>i. and_then (asInt J i) (\<lambda>_. Inr ues))
       else and_then (memberOf J u ''index'') (\<lambda>ji. and_then (asInt J ji) (\<lambda>i. and_then (string_elems J hashes) (\<lambda>hs.
         and_then (memberOf J u ''begin'') (\<lambda>jb. and_then (asInt64 J jb) (\<lambda>b.
         and_then (memberOf J u ''end'') (\<lambda>je. and_then (asInt64 J je) (\<lambda>e.
           Inr (ues @ [\<lparr>me_index = i, me_hashes = hs, me_begin = b, me_end = e\<rparr>])))))))))"

definition parseMetadataCacheJson :: "'j Jsoncpp \<Rightarrow> 'j \<Rightarrow> (parse_error, MetadataUpdate) result" where
  "parseMetadataCacheJson J root =
     and_then (memberOf J root ''updates'') (\<lambda>updates_arr.
       and_then (if j_isArray J updates_arr then fold_result (cache_entry J) (j_elems J updates_arr) [] else Inr []) (\<lambda>ues.
         and_then (memberOr J root ''next_update_due'' (j_of_int J 0)) (\<lambda>jd. and_then (asInt64 J jd) (\<lambda>due.
           Inr \<lparr>mu_updates = ues, next_update_due = due\<rparr>))))"

definition parseUpdateJson :: "'j Jsoncpp \<Rightarrow> 'j \<Rightarrow> (parse_error, ParsedUpdate) result" where
  "parseUpdateJson J root =
     (if \<not> j_isArray J root \<or> length (j_elems J root) < 3 then Inl InvalidFormat
      else and_then (asInt J (elem J root 0)) (\<lambda>t. and_then (asInt J (elem J root 1)) (\<lambda>_.
        let info = elem J root 2 in
        if t = SERIALISABLE_TYPE_DEFINITIONS_UPDATE then and_then (parseDefinitionsUpdate J info) (\<lambda>u. Inr (PDefinitions u))
        else if t = SERIALISABLE_TYPE_CONTENT_UPDATE then and_then (parseContentUpdate J info) (\<lambda>c. Inr (PContent c))
        else if t = SERIALISABLE_TYPE_METADATA then and_then (parseMetadataUpdate J info) (\<lambda>m. Inr (PMetadata m))
        else Inl (UnknownType t))))"

definition parseUpdateBytes :: "'j Jsoncpp \<Rightarrow> 'z Inflater \<Rightarrow> byte list \<Rightarrow> (parse_error, ParsedUpdate) result option" where
  "parseUpdateBytes J Z compressed_data =
     map_option (\<lambda>r. and_then r (parseUpdateJson J)) (decompressToJson J Z compressed_data)"

text \<open>
  The metadata of a corpus directory, given the parse of an update file: the cache of the downloader
  if it is there and is JSON, otherwise the raw metadata update.  A cache that is JSON of the wrong
  shape throws and the raw file is not consulted.
\<close>

definition loadCorpusMetadata ::
  "'j Jsoncpp \<Rightarrow> (byte list \<Rightarrow> (parse_error, ParsedUpdate) result) \<Rightarrow> (string \<rightharpoonup> byte list) \<Rightarrow> (parse_error, MetadataUpdate) result" where
  "loadCorpusMetadata J parse dir =
     (let raw = (case dir ''metadata.ptrupdate'' of
            None \<Rightarrow> Inl NoMetadataFound
          | Some bytes \<Rightarrow> (case parse bytes of Inr (PMetadata metadata) \<Rightarrow> Inr metadata | _ \<Rightarrow> Inl NoMetadataFound)) in
      case dir ''ptr_metadata.json'' of
        None \<Rightarrow> raw
      | Some bytes \<Rightarrow> (case j_parse J bytes of Some root \<Rightarrow> parseMetadataCacheJson J root | None \<Rightarrow> raw))"

section \<open>The inflated document\<close>

text \<open>
  What zlib documents of a sound stream: while there is room, a call produces the next bytes and
  makes progress, and it reports the end of the stream exactly when everything was produced.
  \<open>rest\<close> is what a stream has still to produce and \<open>effort\<close> bounds the calls it still needs.
\<close>

definition inflates :: "('z \<Rightarrow> nat \<Rightarrow> zret \<times> byte list \<times> 'z) \<Rightarrow> ('z \<Rightarrow> bool) \<Rightarrow> ('z \<Rightarrow> byte list) \<Rightarrow> ('z \<Rightarrow> nat) \<Rightarrow> bool" where
  "inflates inflate sound rest effort \<longleftrightarrow>
     (\<forall>z n ret piece z1. sound z \<and> 0 < n \<and> inflate z n = (ret, piece, z1) \<longrightarrow>
        rest z = piece @ rest z1 \<and> length piece \<le> n \<and> sound z1 \<and>
        (ret = Z_STREAM_END \<and> rest z1 = [] \<or> ret = Z_OK \<and> effort z1 < effort z))"

lemma inflate_loop_complete:
  assumes "inflates inflate sound rest effort" and "sound z" and "length out \<le> cap"
  shows "inflate_loop inflate z out cap = Some (Z_STREAM_END, out @ rest z)"
  using assms(2,3)
proof (induction "effort z" arbitrary: z out cap rule: less_induct)
  case less
  define cap1 where "cap1 = (if cap - length out = 0 then cap + CHUNK_SIZE else cap)"
  have room: "0 < cap1 - length out" using less.prems(2) by (auto simp: cap1_def CHUNK_SIZE_def)
  obtain ret piece z1 where i: "inflate z (cap1 - length out) = (ret, piece, z1)" by (cases "inflate z (cap1 - length out)")
  have c: "rest z = piece @ rest z1" "length piece \<le> cap1 - length out" "sound z1"
    "ret = Z_STREAM_END \<and> rest z1 = [] \<or> ret = Z_OK \<and> effort z1 < effort z"
    using assms(1) less.prems(1) room i unfolding inflates_def by blast+
  have step: "inflate_loop inflate z out cap = (if ret = Z_OK then inflate_loop inflate z1 (out @ piece) cap1 else Some (ret, out @ piece))"
    unfolding inflate_loop.simps [of inflate z out cap] cap1_def [symmetric] Let_def i by simp
  show ?case
  proof (cases "ret = Z_OK")
    case True
    have "inflate_loop inflate z1 (out @ piece) cap1 = Some (Z_STREAM_END, (out @ piece) @ rest z1)"
      using c(2-4) room True by (intro less.hyps) auto
    then show ?thesis using step True c(1) by simp
  next
    case False
    then show ?thesis using step c by auto
  qed
qed

text \<open>
  C18. Reading an update file ends and loses nothing: if zlib makes progress on the stream, the loop
  with its growing buffer returns after finitely many calls, whatever pieces zlib produces, and what
  is parsed is the whole stream.
\<close>

theorem update_file_inflates:
  assumes "z_init Z bytes = Some z" and "inflates (z_inflate Z) sound rest effort" and "sound z"
  shows "parseUpdateBytes J Z bytes =
    Some (case j_parse J (rest z) of None \<Rightarrow> Inl JsonSyntax | Some root \<Rightarrow> parseUpdateJson J root)"
  using inflate_loop_complete [OF assms(2,3), of "[]" CHUNK_SIZE] assms(1)
  by (simp add: parseUpdateBytes_def decompressToJson_def split: option.splits)

definition plain_inflate :: "byte list \<Rightarrow> nat \<Rightarrow> zret \<times> byte list \<times> byte list" where
  "plain_inflate z n = (if z = [] then (Z_STREAM_END, [], []) else (Z_OK, take 1 z, drop 1 z))"

lemma plain_inflates: "inflates plain_inflate (\<lambda>z. True) (\<lambda>z. z) length"
proof -
  have "plain_inflate z n = (ret, piece, z1) \<Longrightarrow> 0 < n \<Longrightarrow> z = piece @ z1 \<and> length piece \<le> n \<and>
    (ret = Z_STREAM_END \<and> z1 = [] \<or> ret = Z_OK \<and> length z1 < length z)" for z n ret piece z1
    by (cases z) (auto simp: plain_inflate_def)
  then show ?thesis unfolding inflates_def by blast
qed

lemma update_file_inflates_witness:
  "parseUpdateBytes (json_trees (JArray [JInt 36, JInt 1, JArray []])) \<lparr>z_init = Some, z_inflate = plain_inflate\<rparr> [123, 125]
    = Some (Inr (PDefinitions \<lparr>hash_ids_to_hashes = [], tag_ids_to_tags = []\<rparr>))"
proof -
  let ?J = "json_trees (JArray [JInt 36, JInt 1, JArray []])" and ?Z = "\<lparr>z_init = Some, z_inflate = plain_inflate\<rparr>"
  have "parseUpdateBytes ?J ?Z [123, 125] =
    Some (case j_parse ?J [123, 125] of None \<Rightarrow> Inl JsonSyntax | Some root \<Rightarrow> parseUpdateJson ?J root)"
    by (rule update_file_inflates [where sound = "\<lambda>z. True" and effort = length and rest = "\<lambda>z. z"]) (simp_all add: plain_inflates)
  also have "\<dots> = Some (Inr (PDefinitions \<lparr>hash_ids_to_hashes = [], tag_ids_to_tags = []\<rparr>))" by code_simp
  finally show ?thesis .
qed

section \<open>The layout of an update\<close>

text \<open>The arrays Hydrus writes for each kind of update, from the typed update.\<close>

definition pair_doc :: "'j Jsoncpp \<Rightarrow> int \<times> int \<Rightarrow> 'j" where
  "pair_doc J p = j_list J [j_of_int J (fst p), j_of_int J (snd p)]"

definition mapping_doc :: "'j Jsoncpp \<Rightarrow> ContentUpdateMapping \<Rightarrow> 'j" where
  "mapping_doc J m = j_list J [j_of_int J (cm_tag_id m), j_list J (map (j_of_int J) (cm_hash_ids m))]"

definition action_docs :: "'j Jsoncpp \<Rightarrow> int \<Rightarrow> 'j list \<Rightarrow> 'j list \<Rightarrow> 'j" where
  "action_docs J content_type adds deletes = j_list J [j_of_int J content_type,
     j_list J [j_list J [j_of_int J CONTENT_UPDATE_ADD, j_list J adds], j_list J [j_of_int J CONTENT_UPDATE_DELETE, j_list J deletes]]]"

definition content_doc :: "'j Jsoncpp \<Rightarrow> ContentUpdate \<Rightarrow> 'j" where
  "content_doc J c = j_list J [
     action_docs J CONTENT_TYPE_MAPPINGS (map (mapping_doc J) (mappings_add c)) (map (mapping_doc J) (mappings_delete c)),
     action_docs J CONTENT_TYPE_TAG_SIBLINGS (map (pair_doc J) (tag_siblings_add c)) (map (pair_doc J) (tag_siblings_delete c)),
     action_docs J CONTENT_TYPE_TAG_PARENTS (map (pair_doc J) (tag_parents_add c)) (map (pair_doc J) (tag_parents_delete c))]"

definition definition_doc :: "'j Jsoncpp \<Rightarrow> int \<times> string \<Rightarrow> 'j" where
  "definition_doc J d = j_list J [j_of_int J (fst d), j_of_string J (snd d)]"

definition definitions_doc :: "'j Jsoncpp \<Rightarrow> DefinitionsUpdate \<Rightarrow> 'j" where
  "definitions_doc J u = j_list J [
     j_list J [j_of_int J DEFINITIONS_TYPE_HASHES, j_list J (map (definition_doc J) (hash_ids_to_hashes u))],
     j_list J [j_of_int J DEFINITIONS_TYPE_TAGS, j_list J (map (definition_doc J) (tag_ids_to_tags u))]]"

definition entry_doc :: "'j Jsoncpp \<Rightarrow> MetadataUpdateEntry \<Rightarrow> 'j" where
  "entry_doc J e = j_list J [j_of_int J (me_index e), j_list J (map (j_of_string J) (me_hashes e)), j_of_int J (me_begin e), j_of_int J (me_end e)]"

definition metadata_doc :: "'j Jsoncpp \<Rightarrow> MetadataUpdate \<Rightarrow> 'j" where
  "metadata_doc J m = j_list J [j_list J (map (entry_doc J) (mu_updates m)), j_of_int J (next_update_due m)]"

definition update_doc :: "'j Jsoncpp \<Rightarrow> int \<Rightarrow> ParsedUpdate \<Rightarrow> 'j" where
  "update_doc J version u =
     (case u of
        PDefinitions d \<Rightarrow> j_list J [j_of_int J SERIALISABLE_TYPE_DEFINITIONS_UPDATE, j_of_int J version, definitions_doc J d]
      | PContent c \<Rightarrow> j_list J [j_of_int J SERIALISABLE_TYPE_CONTENT_UPDATE, j_of_int J version, content_doc J c]
      | PMetadata m \<Rightarrow> j_list J [j_of_int J SERIALISABLE_TYPE_METADATA, j_of_int J version, metadata_doc J m])"

definition mapping_ok :: "ContentUpdateMapping \<Rightarrow> bool" where
  "mapping_ok m \<longleftrightarrow> int32 (cm_tag_id m) \<and> list_all int32 (cm_hash_ids m)"

definition pair_ok :: "int \<times> int \<Rightarrow> bool" where
  "pair_ok p \<longleftrightarrow> int32 (fst p) \<and> int32 (snd p)"

definition entry_ok :: "MetadataUpdateEntry \<Rightarrow> bool" where
  "entry_ok e \<longleftrightarrow> int32 (me_index e) \<and> int64 (me_begin e) \<and> int64 (me_end e)"

fun update_ok :: "ParsedUpdate \<Rightarrow> bool" where
  "update_ok (PDefinitions d) \<longleftrightarrow> distinct (map fst (hash_ids_to_hashes d)) \<and> distinct (map fst (tag_ids_to_tags d)) \<and>
     list_all (\<lambda>p. int32 (fst p)) (hash_ids_to_hashes d) \<and> list_all (\<lambda>p. int32 (fst p) \<and> CHR 0x00 \<notin> set (snd p)) (tag_ids_to_tags d)"
| "update_ok (PContent c) \<longleftrightarrow> list_all mapping_ok (mappings_add c @ mappings_delete c) \<and>
     list_all pair_ok (tag_parents_add c @ tag_parents_delete c @ tag_siblings_add c @ tag_siblings_delete c)"
| "update_ok (PMetadata m) \<longleftrightarrow> list_all entry_ok (mu_updates m) \<and> int64 (next_update_due m)"

lemma json_reads:
  assumes "json_laws J"
  shows "int32 i \<Longrightarrow> asInt J (j_of_int J i) = Inr i" "int64 i \<Longrightarrow> asInt64 J (j_of_int J i) = Inr i"
    "asString J (j_of_string J str) = Inr str" "elem J (j_list J vs) n = vs ! n"
    "(\<And>v. v \<in> set vs \<Longrightarrow> j_isArray J v \<and> n \<le> length (j_elems J v)) \<Longrightarrow> rows J n (j_list J vs) = vs"
  using assms by (simp_all add: json_laws_def scalar_laws_def asInt_def asInt64_def asString_def elem_def rows_def j_list_laws)

lemma string_elems_list: "json_laws J \<Longrightarrow> string_elems J (j_list J (map (j_of_string J) hs)) = Inr hs"
  unfolding string_elems_def by (simp add: j_list_laws json_reads fold_result_map [where g = "\<lambda>h hs. hs @ [h]"] fold_push [where g = "\<lambda>h. h", simplified])

lemma int_elems_list:
  "json_laws J \<Longrightarrow> list_all int32 ids \<Longrightarrow>
     fold_result (\<lambda>h ids. and_then (asInt J h) (\<lambda>i. Inr (ids @ [i]))) (map (j_of_int J) ids) acc = Inr (acc @ ids)"
  by (induction ids arbitrary: acc) (simp_all add: json_reads)

lemma doc_arrays:
  assumes "json_laws J"
  shows "rows J 2 (j_list J (map (definition_doc J) ds)) = map (definition_doc J) ds"
    "rows J 2 (j_list J (map (pair_doc J) ps)) = map (pair_doc J) ps"
    "rows J 2 (j_list J (map (mapping_doc J) ms)) = map (mapping_doc J) ms"
    "rows J 4 (j_list J (map (entry_doc J) es)) = map (entry_doc J) es"
  using assms by (auto intro!: json_reads(5) simp: definition_doc_def pair_doc_def mapping_doc_def entry_doc_def j_list_laws)

subsection \<open>Definitions\<close>

lemma hash_definitions_read:
  assumes "json_laws J" and "list_all (\<lambda>p. int32 (fst p)) ds" and "distinct (map fst (hash_ids_to_hashes u @ ds))"
  shows "fold_result (hash_definition J) (map (definition_doc J) ds) u = Inr (u\<lparr>hash_ids_to_hashes := hash_ids_to_hashes u @ ds\<rparr>)"
  using assms(2,3)
proof (induction ds arbitrary: u)
  case (Cons d ds)
  then have "hash_definition J (definition_doc J d) u = Inr (u\<lparr>hash_ids_to_hashes := hash_ids_to_hashes u @ [d]\<rparr>)"
    using assms(1) by (auto simp: hash_definition_def definition_doc_def json_reads emplace_def)
  then show ?case using Cons by simp
qed simp

lemma tag_definitions_read:
  assumes "json_laws J" and "list_all (\<lambda>p. int32 (fst p) \<and> CHR 0x00 \<notin> set (snd p)) ds" and "distinct (map fst (tag_ids_to_tags u @ ds))"
  shows "fold_result (tag_definition J) (map (definition_doc J) ds) u = Inr (u\<lparr>tag_ids_to_tags := tag_ids_to_tags u @ ds\<rparr>)"
  using assms(2,3)
proof (induction ds arbitrary: u)
  case (Cons d ds)
  have "filter (\<lambda>c. c \<noteq> CHR 0x00) (snd d) = snd d" using Cons.prems(1) by (auto simp: filter_id_conv)
  then have "tag_definition J (definition_doc J d) u = Inr (u\<lparr>tag_ids_to_tags := tag_ids_to_tags u @ [d]\<rparr>)"
    using assms(1) Cons.prems by (auto simp: tag_definition_def definition_doc_def json_reads emplace_def)
  then show ?case using Cons by simp
qed simp

lemma small_int32 [simp]: "int32 0" "int32 1" "int32 2" "int32 34" "int32 36" "int32 37"
  by (simp_all add: int32_def)

lemma definitions_read:
  assumes "json_laws J" and "update_ok (PDefinitions d)"
  shows "parseDefinitionsUpdate J (definitions_doc J d) = Inr d"
proof -
  let ?H = "j_list J [j_of_int J 0, j_list J (map (definition_doc J) (hash_ids_to_hashes d))]"
  let ?T = "j_list J [j_of_int J 1, j_list J (map (definition_doc J) (tag_ids_to_tags d))]"
  have r: "rows J 2 (j_list J [?H, ?T]) = [?H, ?T]" using assms(1) by (intro json_reads(5)) (auto simp: j_list_laws)
  show ?thesis
    using assms by (simp add: parseDefinitionsUpdate_def definitions_doc_def ptr_constants r j_list_laws definitions_block_def
      json_reads doc_arrays hash_definitions_read tag_definitions_read)
qed

subsection \<open>Content\<close>

lemma mapping_rows_read:
  assumes "json_laws J" and "list_all mapping_ok ms"
  shows "fold_result (mapping_row J False) (map (mapping_doc J) ms) c = Inr (c\<lparr>mappings_add := mappings_add c @ ms\<rparr>)"
    "fold_result (mapping_row J True) (map (mapping_doc J) ms) c = Inr (c\<lparr>mappings_delete := mappings_delete c @ ms\<rparr>)"
  using assms(2) by (induction ms arbitrary: c)
    (simp_all add: mapping_row_def mapping_doc_def mapping_ok_def json_reads assms(1) j_list_laws int_elems_list)

lemma parent_rows_read:
  assumes "json_laws J" and "list_all pair_ok ps"
  shows "fold_result (parent_row J False) (map (pair_doc J) ps) c = Inr (c\<lparr>tag_parents_add := tag_parents_add c @ ps\<rparr>)"
    "fold_result (parent_row J True) (map (pair_doc J) ps) c = Inr (c\<lparr>tag_parents_delete := tag_parents_delete c @ ps\<rparr>)"
  using assms(2) by (induction ps arbitrary: c)
    (simp_all add: parent_row_def pair_doc_def pair_ok_def json_reads assms(1))

lemma sibling_rows_read:
  assumes "json_laws J" and "list_all pair_ok ps"
  shows "fold_result (sibling_row J False) (map (pair_doc J) ps) c = Inr (c\<lparr>tag_siblings_add := tag_siblings_add c @ ps\<rparr>)"
    "fold_result (sibling_row J True) (map (pair_doc J) ps) c = Inr (c\<lparr>tag_siblings_delete := tag_siblings_delete c @ ps\<rparr>)"
  using assms(2) by (induction ps arbitrary: c)
    (simp_all add: sibling_row_def pair_doc_def pair_ok_def json_reads assms(1))

lemma action_docs_read:
  assumes "json_laws J" and "int32 t"
  shows "content_block J (action_docs J t adds dels) c =
    and_then (content_action J t (j_list J [j_of_int J CONTENT_UPDATE_ADD, j_list J adds]) c)
      (content_action J t (j_list J [j_of_int J CONTENT_UPDATE_DELETE, j_list J dels]))"
proof -
  let ?A = "[j_list J [j_of_int J CONTENT_UPDATE_ADD, j_list J adds], j_list J [j_of_int J CONTENT_UPDATE_DELETE, j_list J dels]]"
  have "rows J 2 (j_list J ?A) = ?A" using assms(1) by (intro json_reads(5)) (auto simp: j_list_laws)
  then show ?thesis using assms
    by (simp add: content_block_def action_docs_def json_reads j_list_laws and_then_def split: sum.splits)
qed

lemma content_read:
  assumes "json_laws J" and "update_ok (PContent c)"
  shows "parseContentUpdate J (content_doc J c) = Inr c"
proof -
  have r: "rows J 2 (j_list J [action_docs J t1 a1 d1, action_docs J t2 a2 d2, action_docs J t3 a3 d3]) =
    [action_docs J t1 a1 d1, action_docs J t2 a2 d2, action_docs J t3 a3 d3]" for t1 t2 t3 a1 a2 a3 d1 d2 d3
    using assms(1) by (intro json_reads(5)) (auto simp: action_docs_def j_list_laws)
  show ?thesis
    using assms by (simp add: parseContentUpdate_def content_doc_def r action_docs_read j_list_laws ptr_constants content_action_def
      json_reads doc_arrays mapping_rows_read parent_rows_read sibling_rows_read no_content_def)
qed

subsection \<open>Metadata\<close>

lemma metadata_entries_read:
  assumes "json_laws J" and "list_all entry_ok es"
  shows "fold_result (metadata_entry J) (map (entry_doc J) es) ues = Inr (ues @ es)"
  using assms(2)
proof (induction es arbitrary: ues)
  case (Cons e es)
  then have "metadata_entry J (entry_doc J e) ues = Inr (ues @ [e])"
    using assms(1) by (simp add: metadata_entry_def entry_doc_def entry_ok_def json_reads j_list_laws string_elems_list)
  then show ?case using Cons by simp
qed simp

lemma metadata_read:
  assumes "json_laws J" and "update_ok (PMetadata m)"
  shows "parseMetadataUpdate J (metadata_doc J m) = Inr m"
  using assms by (simp add: parseMetadataUpdate_def metadata_doc_def j_list_laws json_reads doc_arrays metadata_entries_read)

text \<open>
  C17. Parsing inverts the layout of every kind of update file: definitions with distinct ids and no
  null bytes, mappings, parents and siblings under their add and delete actions, and the metadata
  index are all read back as they were written, for ids in the range of an \<open>int\<close>.
\<close>

theorem update_roundtrip:
  assumes "json_laws J" and "update_ok u" and "int32 version"
  shows "parseUpdateJson J (update_doc J version u) = Inr u"
  using assms definitions_read [OF assms(1)] content_read [OF assms(1)] metadata_read [OF assms(1)]
  by (cases u) (simp_all add: parseUpdateJson_def update_doc_def j_list_laws json_reads ptr_constants)

lemma update_roundtrip_witness:
  "parseUpdateJson (json_trees JNull) (update_doc (json_trees JNull) 1
     (PContent (no_content\<lparr>mappings_add := [\<lparr>cm_tag_id = 5, cm_hash_ids = [7, 8]\<rparr>], tag_parents_delete := [(1, 2)]\<rparr>))) =
   Inr (PContent (no_content\<lparr>mappings_add := [\<lparr>cm_tag_id = 5, cm_hash_ids = [7, 8]\<rparr>], tag_parents_delete := [(1, 2)]\<rparr>))"
  by (rule update_roundtrip) (simp_all add: json_trees_laws no_content_def mapping_ok_def pair_ok_def int32_def)

end
