(* ===== verification/Ptr_Scan.thy ===== *)
theory Ptr_Scan
  imports Ptr_Collapse Ptr_Relations Ptr_Parser
begin

text \<open>
  The scan stage of the PTR compactor, \<^verbatim>\<open>ptr-core/src/FlattenScan.cpp\<close>, which writes
  definitions into the definition store and mapping events into the buckets.  What a file of the
  corpus holds is a function from names to parse results; \<open>order\<close> is the order in which the workers
  reach the items, a file being handled as one step.
\<close>

text \<open>A file of the corpus: absent, refused by the parser with an exception, or parsed.\<close>

datatype corpus_file = Missing | Unreadable | Parsed ParsedUpdate

section \<open>Scanning\<close>

record ScanWorkItem =
  wi_hash_hex :: string
  wi_update_index :: u16

definition appendRelations :: "(int \<times> int) list \<Rightarrow> u16 \<Rightarrow> EventOp \<Rightarrow> RelationEvent list \<Rightarrow> RelationEvent list" where
  "appendRelations pairs index eop out =
     out @ map (\<lambda>(a, b). \<lparr>re_a = word_of_int a, re_b = word_of_int b, re_index = index, re_op = op_byte eop, re_pad = 0\<rparr>) pairs"

definition mapping_events :: "ContentUpdateMapping list \<Rightarrow> u16 \<Rightarrow> EventOp \<Rightarrow> MappingEvent list" where
  "mapping_events mappings index eop =
     concat (map (\<lambda>m. map (\<lambda>h. \<lparr>hash_id = word_of_int h, tag_id = word_of_int (cm_tag_id m), update_index = index,
       ev_op = op_byte eop, ev_pad = 0\<rparr>) (cm_hash_ids m)) mappings)"

definition spillMappings :: "ContentUpdateMapping list \<Rightarrow> u16 \<Rightarrow> EventOp \<Rightarrow> BucketWriter \<Rightarrow> nat \<times> BucketWriter" where
  "spillMappings mappings index eop buckets =
     (length (mapping_events mappings index eop), fold bucket_write (mapping_events mappings index eop) buckets)"

record ScanState =
  sc_definitions :: DefinitionWriter
  sc_buckets :: BucketWriter
  sc_parents :: "RelationEvent list"
  sc_siblings :: "RelationEvent list"
  sc_events :: nat
  sc_skipped :: nat

record ScanResult =
  sr_first_update_index :: int
  sr_last_update_index :: int
  sr_events_written :: nat
  sr_skipped_files :: nat
  sr_rejected_hashes :: nat
  sr_parents :: "RelationEvent list"
  sr_siblings :: "RelationEvent list"
  sr_cancelled :: bool

datatype scan_error = IndexOutOfRange int | StoreFailed store_error

definition definitions_of :: "DefinitionsUpdate \<Rightarrow> (u32 \<times> definition_text) list" where
  "definitions_of d = map (\<lambda>(i, hex). (word_of_int i, HashText hex)) (hash_ids_to_hashes d)
     @ map (\<lambda>(i, tag). (word_of_int i, TagText tag)) (tag_ids_to_tags d)"

definition scan_item :: "(string \<Rightarrow> corpus_file) \<Rightarrow> ScanWorkItem \<Rightarrow> ScanState \<Rightarrow> (scan_error, ScanState) result" where
  "scan_item corpus item st =
     (case corpus (wi_hash_hex item) of
        Missing \<Rightarrow> Inr (st\<lparr>sc_skipped := sc_skipped st + 1\<rparr>)
      | Unreadable \<Rightarrow> Inr (st\<lparr>sc_skipped := sc_skipped st + 1\<rparr>)
      | Parsed (PDefinitions d) \<Rightarrow>
          (case write_defs (definitions_of d) (sc_definitions st) of
             Inl e \<Rightarrow> Inl (StoreFailed e)
           | Inr w \<Rightarrow> Inr (st\<lparr>sc_definitions := w\<rparr>))
      | Parsed (PContent c) \<Rightarrow>
          (let i = wi_update_index item in
           case spillMappings (mappings_add c) i Add (sc_buckets st) of (n1, b1) \<Rightarrow>
           (case spillMappings (mappings_delete c) i Delete b1 of (n2, b2) \<Rightarrow>
             Inr (st\<lparr>sc_buckets := b2, sc_events := sc_events st + (n1 + n2),
               sc_parents := sc_parents st @ appendRelations (tag_parents_delete c) i Delete (appendRelations (tag_parents_add c) i Add []),
               sc_siblings := sc_siblings st @ appendRelations (tag_siblings_delete c) i Delete (appendRelations (tag_siblings_add c) i Add [])\<rparr>)))
      | Parsed (PMetadata m) \<Rightarrow> Inr st)"

fun scan_items :: "(string \<Rightarrow> corpus_file) \<Rightarrow> ScanWorkItem list \<Rightarrow> ScanState \<Rightarrow> (scan_error, ScanState) result" where
  "scan_items corpus [] st = Inr st"
| "scan_items corpus (item # items) st =
     (case scan_item corpus item st of Inl e \<Rightarrow> Inl e | Inr st1 \<Rightarrow> scan_items corpus items st1)"

definition work_items :: "MetadataUpdateEntry list \<Rightarrow> ScanWorkItem list" where
  "work_items updates =
     concat (map (\<lambda>u. map (\<lambda>h. \<lparr>wi_hash_hex = h, wi_update_index = word_of_int (me_index u)\<rparr>) (me_hashes u)) updates)"

definition no_scan :: ScanResult where
  "no_scan = \<lparr>sr_first_update_index = 0, sr_last_update_index = 0, sr_events_written = 0, sr_skipped_files = 0,
     sr_rejected_hashes = 0, sr_parents = [], sr_siblings = [], sr_cancelled = False\<rparr>"

text \<open>
  The scan of a corpus: \<open>schedule\<close> picks and orders the items the workers get to, all of them
  unless the host cancels.  The definition writer truncates its files; the bucket files in \<open>dir\<close>
  are appended to.
\<close>

definition scanCorpus ::
  "(string \<Rightarrow> corpus_file) \<Rightarrow> MetadataUpdate \<Rightarrow> (nat \<Rightarrow> byte list option) \<Rightarrow> nat \<Rightarrow>
   (ScanWorkItem list \<Rightarrow> ScanWorkItem list) \<Rightarrow> (scan_error, ScanResult \<times> ScanState) result" where
  "scanCorpus corpus metadata dir buffer schedule =
     (let updates = sort_key me_index (mu_updates metadata);
          st0 = \<lparr>sc_definitions = newDefinitionWriter, sc_buckets = newBucketWriter buffer dir, sc_parents = [],
                 sc_siblings = [], sc_events = 0, sc_skipped = 0\<rparr> in
      if updates = [] then Inr (no_scan, st0)
      else
        (case find (\<lambda>u. me_index u < 0 \<or> me_index u > int MAX_UPDATE_INDEX) updates of
           Some u \<Rightarrow> Inl (IndexOutOfRange (me_index u))
         | None \<Rightarrow>
             (let items = work_items updates; taken = schedule items in
              case scan_items corpus taken st0 of
                Inl e \<Rightarrow> Inl e
              | Inr st \<Rightarrow>
                  (let st1 = st\<lparr>sc_buckets := bucket_flush (sc_buckets st)\<rparr> in
                   Inr (\<lparr>sr_first_update_index = me_index (hd updates), sr_last_update_index = me_index (last updates),
                     sr_events_written = sc_events st, sr_skipped_files = sc_skipped st,
                     sr_rejected_hashes = rejected_hashes (sc_definitions st), sr_parents = sc_parents st,
                     sr_siblings = sc_siblings st, sr_cancelled = (length taken < length items)\<rparr>, st1)))))"

section \<open>What a scan leaves behind\<close>

definition item_events :: "(string \<Rightarrow> corpus_file) \<Rightarrow> ScanWorkItem \<Rightarrow> MappingEvent list" where
  "item_events corpus item =
     (case corpus (wi_hash_hex item) of
        Parsed (PContent c) \<Rightarrow> mapping_events (mappings_add c) (wi_update_index item) Add
          @ mapping_events (mappings_delete c) (wi_update_index item) Delete
      | _ \<Rightarrow> [])"

definition item_definitions :: "(string \<Rightarrow> corpus_file) \<Rightarrow> ScanWorkItem \<Rightarrow> (u32 \<times> definition_text) list" where
  "item_definitions corpus item = (case corpus (wi_hash_hex item) of Parsed (PDefinitions d) \<Rightarrow> definitions_of d | _ \<Rightarrow> [])"

lemma write_defs_append:
  "write_defs (xs @ ys) w = (case write_defs xs w of Inl e \<Rightarrow> Inl e | Inr w1 \<Rightarrow> write_defs ys w1)"
proof (induction xs arbitrary: w)
  case (Cons x xs)
  then show ?case by (cases x) (simp split: sum.splits)
qed simp

lemma scan_items_result:
  "scan_items corpus items st = Inr st' \<Longrightarrow>
     sc_buckets st' = fold bucket_write (concat (map (item_events corpus) items)) (sc_buckets st) \<and>
     sc_events st' = sc_events st + length (concat (map (item_events corpus) items)) \<and>
     write_defs (concat (map (item_definitions corpus) items)) (sc_definitions st) = Inr (sc_definitions st')"
proof (induction items arbitrary: st)
  case (Cons item items)
  obtain st1 where s: "scan_item corpus item st = Inr st1" "scan_items corpus items st1 = Inr st'"
    using Cons.prems by (auto split: sum.splits)
  have "sc_buckets st1 = fold bucket_write (item_events corpus item) (sc_buckets st) \<and>
      sc_events st1 = sc_events st + length (item_events corpus item) \<and>
      write_defs (item_definitions corpus item) (sc_definitions st) = Inr (sc_definitions st1)"
    using s(1) by (auto simp: scan_item_def item_events_def item_definitions_def spillMappings_def Let_def
      split: corpus_file.splits ParsedUpdate.splits sum.splits if_splits)
  then show ?case using Cons.IH [OF s(2)] by (simp add: write_defs_append)
qed simp

lemma item_events_ops: "ops_ok (item_events corpus item)"
  by (auto simp: item_events_def mapping_events_def ops_ok_def list_all_iff split: corpus_file.splits ParsedUpdate.splits)

lemma ops_ok_concat: "\<forall>xs \<in> set xss. ops_ok xs \<Longrightarrow> ops_ok (concat xss)"
  by (auto simp: ops_ok_def list_all_iff)

definition scan_schedule_ok :: "(ScanWorkItem list \<Rightarrow> ScanWorkItem list) \<Rightarrow> bool" where
  "scan_schedule_ok schedule \<longleftrightarrow> (\<forall>items. mset (schedule items) = mset items)"

text \<open>The items a scan takes, in the order it takes them, and the events and definitions they hold.\<close>

definition scanned :: "MetadataUpdate \<Rightarrow> (ScanWorkItem list \<Rightarrow> ScanWorkItem list) \<Rightarrow> ScanWorkItem list" where
  "scanned metadata schedule = schedule (work_items (sort_key me_index (mu_updates metadata)))"

definition corpus_events :: "(string \<Rightarrow> corpus_file) \<Rightarrow> ScanWorkItem list \<Rightarrow> MappingEvent list" where
  "corpus_events corpus items = concat (map (item_events corpus) items)"

definition corpus_definitions :: "(string \<Rightarrow> corpus_file) \<Rightarrow> ScanWorkItem list \<Rightarrow> (u32 \<times> definition_text) list" where
  "corpus_definitions corpus items = concat (map (item_definitions corpus) items)"

lemma scan_result:
  assumes "scanCorpus corpus metadata (spilled m old) buffer schedule = Inr (res, st)" and "mu_updates metadata \<noteq> []"
    and "scan_schedule_ok schedule"
  shows "holds_events (bucket_files (sc_buckets st)) (old @ corpus_events corpus (scanned metadata schedule)) \<and>
    write_defs (corpus_definitions corpus (scanned metadata schedule)) newDefinitionWriter = Inr (sc_definitions st) \<and>
    sr_events_written res = length (corpus_events corpus (scanned metadata schedule)) \<and> \<not> sr_cancelled res"
proof -
  let ?u = "sort_key me_index (mu_updates metadata)"
  let ?w = "newBucketWriter buffer (spilled m old)"
  let ?evs = "corpus_events corpus (scanned metadata schedule)"
  let ?st0 = "\<lparr>sc_definitions = newDefinitionWriter, sc_buckets = ?w, sc_parents = [], sc_siblings = [], sc_events = 0, sc_skipped = 0\<rparr>"
  have ne: "?u \<noteq> []" using assms(2) by (metis set_empty set_sort)
  obtain st1 where s: "scan_items corpus (scanned metadata schedule) ?st0 = Inr st1" "st = st1\<lparr>sc_buckets := bucket_flush (sc_buckets st1)\<rparr>"
    "sr_events_written res = sc_events st1" "sr_cancelled res = (length (scanned metadata schedule) < length (work_items ?u))"
    using assms(1) ne by (auto simp: scanCorpus_def scanned_def Let_def split: option.splits sum.splits)
  have r: "sc_buckets st1 = fold bucket_write ?evs ?w" "sc_events st1 = length ?evs"
    "write_defs (corpus_definitions corpus (scanned metadata schedule)) newDefinitionWriter = Inr (sc_definitions st1)"
    using scan_items_result [OF s(1)] by (simp_all add: corpus_events_def corpus_definitions_def)
  have w: "\<forall>b. bucket_holds ?w b (filter (\<lambda>e. bucketFor (hash_id e) = b) old)"
    unfolding spilled_def by (intro allI reopened_holds bucket_writes_hold)
  have "holds_events (bucket_files (bucket_flush (sc_buckets st1))) (old @ ?evs)"
    unfolding holds_events_def r(1) by (intro allI impI held_bucket_file bucket_writes_hold_after [OF w])
  moreover have "length (scanned metadata schedule) = length (work_items ?u)"
    using assms(3) mset_eq_length unfolding scan_schedule_ok_def scanned_def by blast
  ultimately show ?thesis using r s by simp
qed

text \<open>
  When the scan of a corpus succeeds, collapsing its buckets with the definitions it stored produces
  chunk files that, read back together, hold exactly the records of the specification applied to
  the events already in the work directory followed by those of the corpus.
\<close>

lemma scan_collapses:
  assumes "scanCorpus corpus metadata (spilled m old) buffer schedule = Inr (res, st)" and "mu_updates metadata \<noteq> []"
    and "scan_schedule_ok schedule" and "ops_ok old"
    and defs: "defs = corpus_definitions corpus (scanned metadata schedule)"
    and evs: "evs = old @ corpus_events corpus (scanned metadata schedule)"
    and "\<forall>(i, d) \<in> set defs. hash_of d \<noteq> Some (replicate SHA256_BYTES 0)"
    and zlib: "\<And>b. \<exists>c. compress b = Some c \<and> uncompress c (length b) = Some b"
    and order: "mset order = mset [0..<BUCKET_COUNT]"
    and small: "\<And>rs. mset rs \<subseteq># mset (bucket_spec (last_def hash_of defs) discard evs) \<Longrightarrow>
      length (body_of (last_def tag_of defs) (map pending_of rs)) < 2 ^ 32"
  shows "\<exists>cres s cs.
    collapseBuckets compress (bucket_files (sc_buckets st)) (openDefinitions (sc_definitions st)) usage cap discard order = Inr (cres, s) \<and> \<not> cres_cancelled cres \<and>
    map (\<lambda>e. readChunk uncompress (the (sk_files s (ce_file e)))) (cres_chunks cres) = map Inr cs \<and>
    mset (concat (map resolved cs)) =
      mset (map (spec_record (last_def tag_of defs)) (bucket_spec (last_def hash_of defs) discard evs)) \<and>
    fs_mappings (cres_stats cres) = sum_list (map ce_mappings (cres_chunks cres)) + fs_skipped_missing (cres_stats cres)"
proof -
  note scan = scan_result [OF assms(1-3)]
  have held: "holds_events (bucket_files (sc_buckets st)) evs" using scan evs by simp
  have "write_defs defs newDefinitionWriter = Inr (sc_definitions st)" using scan defs by simp
  from store_lookup [OF this assms(7)] have look:
    "(\<lambda>h. def_hash h (openDefinitions (sc_definitions st))) = last_def hash_of defs"
    "(\<lambda>t. def_tag t (openDefinitions (sc_definitions st))) = last_def tag_of defs" by auto
  have "ops_ok (corpus_events corpus items)" for items
    unfolding corpus_events_def by (rule ops_ok_concat) (auto simp: item_events_ops)
  then have ok: "ops_ok evs" using assms(4) evs by (simp add: ops_ok_def)
  from collapse_reads_back [where compress = compress and uncompress = uncompress and discard = discard and cap = cap and usage = usage
    and definitions = "openDefinitions (sc_definitions st)", OF zlib held ok order] small
  show ?thesis unfolding look by blast
qed

end
