(* ===== verification/Ptr_Manifest.thy ===== *)
theory Ptr_Manifest
  imports Ptr_Collapse Json_Value
begin

text \<open>
  The manifest of a compacted directory (\<^verbatim>\<open>ptr-core/include/ptr/flatten/Manifest.hpp\<close>,
  \<^verbatim>\<open>ptr-core/src/Manifest.cpp\<close>): its JSON form, writing it, reading it and the test for a compacted
  directory.  A directory is a map from names to contents.
\<close>

type_synonym directory = "string \<rightharpoonup> byte list"

definition MANIFEST_FILENAME :: string where
  "MANIFEST_FILENAME = ''compact_manifest.json''"

record CompactManifest =
  mf_format_version :: u32
  mf_first_update_index :: int
  mf_last_update_index :: int
  mf_max_records_per_chunk :: nat
  mf_discard :: bool
  mf_chunks :: "ChunkEntry list"
  mf_relations_file :: string
  mf_stats :: FlattenStats

datatype manifest_error = NoManifest | BadManifest | MissingKey string | WrongVersion u32 | BadField

section \<open>The JSON form\<close>

definition require :: "'j Jsoncpp \<Rightarrow> 'j \<Rightarrow> string \<Rightarrow> (manifest_error, 'j) result" where
  "require J json key =
     (if \<not> j_isObject J json \<or> \<not> j_isMember J json key then Inl (MissingKey key)
      else case j_at J json key of None \<Rightarrow> Inl BadField | Some v \<Rightarrow> Inr v)"

definition field :: "'a option \<Rightarrow> (manifest_error, 'a) result" where
  "field v = (case v of None \<Rightarrow> Inl BadField | Some x \<Rightarrow> Inr x)"

definition statsToJson :: "'j Jsoncpp \<Rightarrow> FlattenStats \<Rightarrow> 'j" where
  "statsToJson J stats = j_members J [
     (''events_scanned'', j_of_nat J (fs_events_scanned stats)),
     (''mappings_after_collapse'', j_of_nat J (fs_mappings stats)),
     (''events_collapsed'', j_of_nat J (fs_events_collapsed stats)),
     (''terminal_deletes'', j_of_nat J (fs_terminal_deletes stats)),
     (''terminal_delete_records'', j_of_nat J (fs_terminal_delete_records stats)),
     (''skipped_files'', j_of_nat J (fs_skipped_files stats)),
     (''skipped_missing_definitions'', j_of_nat J (fs_skipped_missing stats)),
     (''defined_tags'', j_of_nat J (fs_defined_tags stats)),
     (''used_tags'', j_of_nat J (fs_used_tags stats))] (j_object J)"

definition require_uint64 :: "'j Jsoncpp \<Rightarrow> 'j \<Rightarrow> string \<Rightarrow> (manifest_error, nat) result" where
  "require_uint64 J json key = and_then (require J json key) (\<lambda>v. field (j_asUInt64 J v))"

definition statsFromJson :: "'j Jsoncpp \<Rightarrow> 'j \<Rightarrow> (manifest_error, FlattenStats) result" where
  "statsFromJson J json =
     and_then (require_uint64 J json ''events_scanned'') (\<lambda>scanned.
     and_then (require_uint64 J json ''mappings_after_collapse'') (\<lambda>mappings.
     and_then (require_uint64 J json ''events_collapsed'') (\<lambda>collapsed.
     and_then (require_uint64 J json ''terminal_deletes'') (\<lambda>deletes.
     and_then (require_uint64 J json ''terminal_delete_records'') (\<lambda>delete_records.
     and_then (require_uint64 J json ''skipped_files'') (\<lambda>skipped.
     and_then (require_uint64 J json ''skipped_missing_definitions'') (\<lambda>missing.
     and_then (require_uint64 J json ''defined_tags'') (\<lambda>defined_tags.
     and_then (require_uint64 J json ''used_tags'') (\<lambda>used_tags.
       Inr \<lparr>fs_events_scanned = scanned, fs_mappings = mappings, fs_events_collapsed = collapsed, fs_terminal_deletes = deletes,
         fs_terminal_delete_records = delete_records, fs_skipped_files = skipped, fs_skipped_missing = missing,
         fs_defined_tags = defined_tags, fs_used_tags = used_tags\<rparr>)))))))))"

definition chunk_entry_doc :: "'j Jsoncpp \<Rightarrow> ChunkEntry \<Rightarrow> 'j" where
  "chunk_entry_doc J chunk = j_members J [
     (''file'', j_of_string J (ce_file chunk)), (''records'', j_of_nat J (ce_records chunk)),
     (''mappings'', j_of_nat J (ce_mappings chunk))] (j_object J)"

definition manifest_doc :: "'j Jsoncpp \<Rightarrow> CompactManifest \<Rightarrow> 'j" where
  "manifest_doc J manifest = j_members J [
     (''format_version'', j_of_nat J (unat (mf_format_version manifest))),
     (''first_update_index'', j_of_int J (mf_first_update_index manifest)),
     (''last_update_index'', j_of_int J (mf_last_update_index manifest)),
     (''max_records_per_chunk'', j_of_nat J (mf_max_records_per_chunk manifest)),
     (''discard_terminal_deletes'', j_of_bool J (mf_discard manifest)),
     (''relations_file'', j_of_string J (mf_relations_file manifest)),
     (''stats'', statsToJson J (mf_stats manifest)),
     (''chunks'', j_list J (map (chunk_entry_doc J) (mf_chunks manifest)))] (j_object J)"

text \<open>
  How the stream behaves when the manifest is written: it cannot be opened, it breaks after some
  bytes, it loses the bytes still buffered when it is closed (the code tests the stream before that),
  or it takes everything.
\<close>

datatype stream_fate = CannotOpen | BreaksAfter nat | LostOnClose nat | Sound

definition writeManifest :: "'j Jsoncpp \<Rightarrow> stream_fate \<Rightarrow> CompactManifest \<Rightarrow> directory \<Rightarrow> bool \<times> directory" where
  "writeManifest J fate manifest dir =
     (case fate of
        CannotOpen \<Rightarrow> (False, dir)
      | BreaksAfter n \<Rightarrow> (False, dir(MANIFEST_FILENAME \<mapsto> take n (j_write J (manifest_doc J manifest))))
      | LostOnClose n \<Rightarrow> (True, dir(MANIFEST_FILENAME \<mapsto> take n (j_write J (manifest_doc J manifest))))
      | Sound \<Rightarrow> (True, dir(MANIFEST_FILENAME \<mapsto> j_write J (manifest_doc J manifest))))"

definition chunk_entry :: "'j Jsoncpp \<Rightarrow> 'j \<Rightarrow> ChunkEntry list \<Rightarrow> (manifest_error, ChunkEntry list) result" where
  "chunk_entry J entry chunks =
     (if \<not> j_isObject J entry then Inr chunks
      else
        and_then (field (j_get J entry ''file'' (j_of_string J []))) (\<lambda>jf. and_then (field (j_asString J jf)) (\<lambda>f.
        and_then (field (j_get J entry ''records'' (j_of_nat J 0))) (\<lambda>jr. and_then (field (j_asUInt64 J jr)) (\<lambda>r.
        and_then (field (j_get J entry ''mappings'' (j_of_nat J 0))) (\<lambda>jm. and_then (field (j_asUInt64 J jm)) (\<lambda>m.
          Inr (chunks @ [\<lparr>ce_file = f, ce_records = r, ce_mappings = m\<rparr>]))))))))"

definition readManifest :: "'j Jsoncpp \<Rightarrow> directory \<Rightarrow> (manifest_error, CompactManifest) result" where
  "readManifest J dir =
     (case dir MANIFEST_FILENAME of
        None \<Rightarrow> Inl NoManifest
      | Some bytes \<Rightarrow>
     (case j_parse J bytes of
        None \<Rightarrow> Inl BadManifest
      | Some root \<Rightarrow>
     and_then (require J root ''format_version'') (\<lambda>jv. and_then (field (j_asUInt J jv)) (\<lambda>version.
     if word_of_nat version \<noteq> CHUNK_FORMAT_VERSION then Inl (WrongVersion (word_of_nat version))
     else
       and_then (require J root ''first_update_index'') (\<lambda>jf. and_then (field (j_asInt J jf)) (\<lambda>first.
       and_then (require J root ''last_update_index'') (\<lambda>jl. and_then (field (j_asInt J jl)) (\<lambda>last_index.
       and_then (require_uint64 J root ''max_records_per_chunk'') (\<lambda>cap.
       and_then (require J root ''discard_terminal_deletes'') (\<lambda>jd. and_then (field (j_asBool J jd)) (\<lambda>discard.
       and_then (require J root ''relations_file'') (\<lambda>jr. and_then (field (j_asString J jr)) (\<lambda>relations.
       and_then (require J root ''stats'') (\<lambda>js. and_then (statsFromJson J js) (\<lambda>stats.
       and_then (field (j_at J root ''chunks'')) (\<lambda>jc.
       and_then (if j_isArray J jc then fold_result (chunk_entry J) (j_elems J jc) [] else Inr []) (\<lambda>chunks.
         Inr \<lparr>mf_format_version = word_of_nat version, mf_first_update_index = first, mf_last_update_index = last_index,
           mf_max_records_per_chunk = cap, mf_discard = discard, mf_chunks = chunks, mf_relations_file = relations,
           mf_stats = stats\<rparr>)))))))))))))))))"

definition isCompactedDirectory :: "'j Jsoncpp \<Rightarrow> directory \<Rightarrow> bool" where
  "isCompactedDirectory J dir =
     (if dir MANIFEST_FILENAME = None then False
      else (case readManifest J dir of Inr manifest \<Rightarrow> True | Inl e \<Rightarrow> False))"

section \<open>Reading back\<close>

definition stats_fit :: "FlattenStats \<Rightarrow> bool" where
  "stats_fit s \<longleftrightarrow> list_all (\<lambda>n. n < 2 ^ 64) [fs_events_scanned s, fs_mappings s, fs_events_collapsed s, fs_terminal_deletes s,
     fs_terminal_delete_records s, fs_skipped_files s, fs_skipped_missing s, fs_defined_tags s, fs_used_tags s]"

definition chunk_fits :: "ChunkEntry \<Rightarrow> bool" where
  "chunk_fits c \<longleftrightarrow> ce_records c < 2 ^ 64 \<and> ce_mappings c < 2 ^ 64"

definition manifest_fits :: "CompactManifest \<Rightarrow> bool" where
  "manifest_fits m \<longleftrightarrow> int32 (mf_first_update_index m) \<and> int32 (mf_last_update_index m) \<and> mf_max_records_per_chunk m < 2 ^ 64 \<and>
     stats_fit (mf_stats m) \<and> list_all chunk_fits (mf_chunks m)"

lemma object_members:
  assumes "json_laws J"
  shows "j_isObject J (j_members J ms (j_object J))"
    "j_isMember J (j_members J ms (j_object J)) k = (k \<in> fst ` set ms)"
    "map_of (rev ms) k = Some v \<Longrightarrow> j_at J (j_members J ms (j_object J)) k = Some v"
    "map_of (rev ms) k = Some v \<Longrightarrow> j_get J (j_members J ms (j_object J)) k d = Some v"
  using j_members_laws [OF assms, of "j_object J" ms k d] assms by (simp_all add: json_laws_def object_laws_def)

lemma member_reads:
  assumes "json_laws J" and "map_of (rev ms) k = Some v"
  shows "require J (j_members J ms (j_object J)) k = Inr v"
proof -
  have "k \<in> fst ` set ms" using map_of_SomeD [OF assms(2)] by force
  then show ?thesis using object_members [OF assms(1)] assms(2) by (simp add: require_def)
qed

lemma scalar_reads:
  assumes "json_laws J"
  shows "n < 2 ^ 64 \<Longrightarrow> field (j_asUInt64 J (j_of_nat J n)) = Inr n" "n < 2 ^ 32 \<Longrightarrow> field (j_asUInt J (j_of_nat J n)) = Inr n"
    "int32 i \<Longrightarrow> field (j_asInt J (j_of_int J i)) = Inr i" "field (j_asBool J (j_of_bool J b)) = Inr b"
    "field (j_asString J (j_of_string J s)) = Inr s"
  using assms by (simp_all add: field_def json_laws_def scalar_laws_def)

lemma stats_roundtrip:
  assumes "json_laws J" and "stats_fit s"
  shows "statsFromJson J (statsToJson J s) = Inr s"
  using assms by (simp add: statsFromJson_def statsToJson_def require_uint64_def member_reads scalar_reads stats_fit_def)

lemma chunk_entry_reads:
  assumes "json_laws J" and "chunk_fits c"
  shows "chunk_entry J (chunk_entry_doc J c) cs = Inr (cs @ [c])"
proof -
  note get = object_members(1,4) [OF assms(1)]
  show ?thesis using assms
    by (simp add: chunk_entry_def chunk_entry_doc_def get field_def chunk_fits_def json_laws_def scalar_laws_def)
qed

lemma manifest_reads:
  assumes "json_laws J" and "manifest_fits m" and "mf_format_version m = CHUNK_FORMAT_VERSION"
    and "dir MANIFEST_FILENAME = Some bytes" and "j_parse J bytes = Some (manifest_doc J m)"
  shows "readManifest J dir = Inr m"
proof -
  have chunks: "fold_result (chunk_entry J) (map (chunk_entry_doc J) (mf_chunks m)) [] = Inr (mf_chunks m)"
    using assms(1,2) fold_result_map [of "mf_chunks m" "chunk_entry J" "chunk_entry_doc J" "\<lambda>c cs. cs @ [c]" "[]"]
      fold_push [of "\<lambda>c. c" "mf_chunks m" "[]"]
    by (simp add: chunk_entry_reads manifest_fits_def list_all_iff)
  have v: "unat (mf_format_version m) < 2 ^ 32" using unsigned_less [of "mf_format_version m"] by simp
  show ?thesis
    unfolding readManifest_def assms(4) option.case assms(5) manifest_doc_def
    using assms(1-3) v
    by (simp add: member_reads scalar_reads require_uint64_def manifest_fits_def stats_roundtrip chunks j_list_laws object_members
      field_def [of "Some _"])
qed

text \<open>
  C19. A manifest that was written is read back field by field, and its directory then counts as
  compacted; a manifest of another format version is refused with that version.
\<close>

theorem manifest_roundtrip:
  assumes "json_laws J" and "manifest_fits m" and "j_parse J (j_write J (manifest_doc J m)) = Some (manifest_doc J m)"
    and "writeManifest J Sound m dir = (ok, dir')"
  shows "ok \<and> readManifest J dir' = (if mf_format_version m = CHUNK_FORMAT_VERSION then Inr m else Inl (WrongVersion (mf_format_version m))) \<and>
    isCompactedDirectory J dir' = (mf_format_version m = CHUNK_FORMAT_VERSION)"
proof -
  have d: "ok" "dir' MANIFEST_FILENAME = Some (j_write J (manifest_doc J m))"
    using assms(4) by (auto simp: writeManifest_def)
  have v: "unat (mf_format_version m) < 2 ^ 32" using unsigned_less [of "mf_format_version m"] by simp
  have other: "readManifest J dir' = Inl (WrongVersion (mf_format_version m))" if "mf_format_version m \<noteq> CHUNK_FORMAT_VERSION"
    unfolding readManifest_def d(2) option.case assms(3)
    using assms(1) v that by (simp add: manifest_doc_def member_reads scalar_reads)
  show ?thesis using manifest_reads [of J m dir' "j_write J (manifest_doc J m)", OF assms(1,2) _ d(2) assms(3)] other d by (simp add: isCompactedDirectory_def)
qed

definition demo_manifest :: CompactManifest where
  "demo_manifest = \<lparr>mf_format_version = CHUNK_FORMAT_VERSION, mf_first_update_index = 0, mf_last_update_index = 7,
     mf_max_records_per_chunk = 100, mf_discard = False, mf_chunks = [\<lparr>ce_file = ''chunk-000000.idhanptr'', ce_records = 2, ce_mappings = 5\<rparr>],
     mf_relations_file = ''relations.idhanptr'', mf_stats = \<lparr>fs_events_scanned = 6, fs_mappings = 5, fs_events_collapsed = 1,
       fs_terminal_deletes = 0, fs_terminal_delete_records = 0, fs_skipped_files = 0, fs_skipped_missing = 0, fs_defined_tags = 3,
       fs_used_tags = 3\<rparr>\<rparr>"

lemma manifest_doc_trees: "manifest_doc (json_trees d) m = manifest_doc (json_trees d') m"
  by (simp add: manifest_doc_def json_trees_def statsToJson_def chunk_entry_doc_def j_of_nat_def j_members_def j_list_def cong: map_cong)

lemma manifest_roundtrip_witness:
  "\<exists>dir'. writeManifest (json_trees (manifest_doc (json_trees JNull) demo_manifest)) Sound demo_manifest Map.empty = (True, dir') \<and>
     readManifest (json_trees (manifest_doc (json_trees JNull) demo_manifest)) dir' = Inr demo_manifest \<and>
     isCompactedDirectory (json_trees (manifest_doc (json_trees JNull) demo_manifest)) dir'"
proof -
  let ?d = "manifest_doc (json_trees JNull) demo_manifest"
  let ?J = "json_trees ?d"
  obtain ok dir' where w: "writeManifest ?J Sound demo_manifest Map.empty = (ok, dir')" by (cases "writeManifest ?J Sound demo_manifest Map.empty")
  have fits: "manifest_fits demo_manifest"
    by (simp add: manifest_fits_def stats_fit_def chunk_fits_def demo_manifest_def int32_def)
  have "j_parse ?J (j_write ?J (manifest_doc ?J demo_manifest)) = Some ?d" by (simp add: json_trees_def)
  then have parse: "j_parse ?J (j_write ?J (manifest_doc ?J demo_manifest)) = Some (manifest_doc ?J demo_manifest)"
    by (simp only: manifest_doc_trees [of ?d demo_manifest JNull])
  have "mf_format_version demo_manifest = CHUNK_FORMAT_VERSION" by (simp add: demo_manifest_def)
  then show ?thesis using manifest_roundtrip [OF json_trees_laws fits parse w] w by (intro exI [of _ dir']) simp
qed

end
