(* ===== verification/Ptr_Flatten.thy ===== *)
theory Ptr_Flatten
  imports Ptr_Scan Ptr_Manifest
begin

text \<open>
  A whole run of the PTR compactor (\<^verbatim>\<open>ptr-core/src/RunFlatten.cpp\<close>): free space, metadata, scan,
  collapse, relations, publication of the staged files and the manifest.  The output directory is a
  map from names to contents, without the work directory nested in it.  What the file system and the
  JSON library answer, how update files parse, in which order the workers finish and how many items
  they take before the host cancels is the environment.
\<close>

section \<open>Publishing\<close>

datatype publish_result = Published directory directory | PublishFailed directory

text \<open>
  Moving the listed files: \<open>rename_ok\<close> says which renames the file system performs; a missing source
  fails.  After a failure the files moved so far are removed from the output directory.
\<close>

fun move_files :: "(string \<Rightarrow> bool) \<Rightarrow> string list \<Rightarrow> string list \<Rightarrow> directory \<Rightarrow> directory \<Rightarrow> publish_result" where
  "move_files rename_ok moved [] staging out = Published staging out"
| "move_files rename_ok moved (n # names) staging out =
     (case staging n of
        Some bytes \<Rightarrow>
          if rename_ok n then move_files rename_ok (moved @ [n]) names (staging(n := None)) (out(n \<mapsto> bytes))
          else PublishFailed (fold (\<lambda>m d. d(m := None)) moved out)
      | None \<Rightarrow> PublishFailed (fold (\<lambda>m d. d(m := None)) moved out))"

definition published_names :: "CompactManifest \<Rightarrow> string list" where
  "published_names manifest = map ce_file (mf_chunks manifest) @ (if mf_relations_file manifest \<noteq> [] then [mf_relations_file manifest] else [])"

definition publishStagedOutput :: "(string \<Rightarrow> bool) \<Rightarrow> directory \<Rightarrow> directory \<Rightarrow> CompactManifest \<Rightarrow> publish_result" where
  "publishStagedOutput rename_ok staging out manifest = move_files rename_ok [] (published_names manifest) staging out"

definition RELATIONS_FILENAME :: string where
  "RELATIONS_FILENAME = ''relations.idhanptr''"

section \<open>A run\<close>

record 'j FlattenEnv =
  fe_json :: "'j Jsoncpp"
  fe_available :: nat
  fe_ptr_dir :: directory
  fe_parse :: "byte list \<Rightarrow> (parse_error, ParsedUpdate) result"
  fe_work :: "nat \<Rightarrow> byte list option"
  fe_schedule :: "ScanWorkItem list \<Rightarrow> ScanWorkItem list"
  fe_order :: "nat list"
  fe_compress :: deflater
  fe_rename_ok :: "string \<Rightarrow> bool"
  fe_manifest_fate :: stream_fate

definition read_corpus :: "(byte list \<Rightarrow> (parse_error, ParsedUpdate) result) \<Rightarrow> directory \<Rightarrow> string \<Rightarrow> corpus_file" where
  "read_corpus parse dir hash_hex =
     (case dir (hash_hex @ ''.ptrupdate'') of
        None \<Rightarrow> Missing
      | Some bytes \<Rightarrow> (case parse bytes of Inl e \<Rightarrow> Unreadable | Inr parsed \<Rightarrow> Parsed parsed))"

record FlattenOptions =
  fo_max_records_per_chunk :: nat
  fo_required_free_bytes :: nat
  fo_discard :: bool

datatype flatten_message =
    NotEnoughSpace | MetadataFailed parse_error | ScanFailed scan_error | CancelledScan | CollapseFailed collapse_error
  | CancelledCollapse | RelationsFailed chunk_error | RenameFailed | ManifestFailed | Flattened

record FlattenOutcome =
  fl_success :: bool
  fl_cancelled :: bool
  fl_message :: flatten_message
  fl_manifest :: "CompactManifest option"

definition failed :: "flatten_message \<Rightarrow> CompactManifest option \<Rightarrow> FlattenOutcome" where
  "failed msg manifest = \<lparr>fl_success = False, fl_cancelled = (msg = CancelledScan \<or> msg = CancelledCollapse), fl_message = msg, fl_manifest = manifest\<rparr>"

definition DEFAULT_BUFFER_EVENTS :: nat where
  "DEFAULT_BUFFER_EVENTS = 5461"

text \<open>The stages up to the relations file: what is staged and the manifest to write, or why the run ends.\<close>

definition flatten_stages :: "'j FlattenEnv \<Rightarrow> FlattenOptions \<Rightarrow> (flatten_message, directory \<times> CompactManifest) result" where
  "flatten_stages env opts =
     (if fe_available env < fo_required_free_bytes opts then Inl NotEnoughSpace
      else case loadCorpusMetadata (fe_json env) (fe_parse env) (fe_ptr_dir env) of
        Inl e \<Rightarrow> Inl (MetadataFailed e)
      | Inr metadata \<Rightarrow>
     (case scanCorpus (read_corpus (fe_parse env) (fe_ptr_dir env)) metadata (fe_work env) DEFAULT_BUFFER_EVENTS (fe_schedule env) of
        Inl e \<Rightarrow> Inl (ScanFailed e)
      | Inr (scan, st) \<Rightarrow>
     if sr_cancelled scan then Inl CancelledScan
     else
       (let definitions = openDefinitions (sc_definitions st); usage = newUsage (tagIdCapacity definitions) in
        case collapseBuckets (fe_compress env) (bucket_files (sc_buckets st)) definitions usage (fo_max_records_per_chunk opts)
            (fo_discard opts) (fe_order env) of
          Inl e \<Rightarrow> Inl (CollapseFailed e)
        | Inr (collapse, sink) \<Rightarrow>
       if cres_cancelled collapse then Inl CancelledCollapse
       else
         (case writeRelationsFile (fe_compress env) (collapseRelations (sr_parents scan)) (collapseRelations (sr_siblings scan))
             (\<lambda>t. def_tag t definitions) (Some (sk_usage sink)) of
            Inl e \<Rightarrow> Inl (RelationsFailed e)
          | Inr (rstats, usage1, rbytes) \<Rightarrow>
              Inr ((sk_files sink)(RELATIONS_FILENAME \<mapsto> rbytes),
                \<lparr>mf_format_version = CHUNK_FORMAT_VERSION, mf_first_update_index = sr_first_update_index scan,
                 mf_last_update_index = sr_last_update_index scan, mf_max_records_per_chunk = fo_max_records_per_chunk opts,
                 mf_discard = fo_discard opts, mf_chunks = cres_chunks collapse, mf_relations_file = RELATIONS_FILENAME,
                 mf_stats = (cres_stats collapse)\<lparr>fs_skipped_files := sr_skipped_files scan,
                   fs_skipped_missing := fs_skipped_missing (cres_stats collapse) + rs_missing rstats,
                   fs_defined_tags := m_defined_tags definitions,
                   fs_used_tags := (case usage1 of None \<Rightarrow> 0 | Some u \<Rightarrow> usage_count u)\<rparr>\<rparr>)))))"

definition runFlatten :: "'j FlattenEnv \<Rightarrow> FlattenOptions \<Rightarrow> directory \<Rightarrow> FlattenOutcome \<times> directory" where
  "runFlatten env opts out =
     (case flatten_stages env opts of
        Inl msg \<Rightarrow> (failed msg None, out)
      | Inr (staging, manifest) \<Rightarrow>
          (case publishStagedOutput (fe_rename_ok env) staging out manifest of
             PublishFailed out1 \<Rightarrow> (failed RenameFailed (Some manifest), out1)
           | Published staging1 out1 \<Rightarrow>
               (case writeManifest (fe_json env) (fe_manifest_fate env) manifest out1 of (ok, out2) \<Rightarrow>
                  if ok then
                    (\<lparr>fl_success = True, fl_cancelled = False, fl_message = Flattened, fl_manifest = Some manifest\<rparr>, out2)
                  else (failed ManifestFailed (Some manifest), out2))))"

section \<open>What publication does\<close>

lemma remove_fold: "fold (\<lambda>m d. d(m := None)) ms d = (\<lambda>n. if n \<in> set ms then None else d n)"
  by (induction ms arbitrary: d) auto

lemma move_files_published:
  "move_files ok moved names staging out = Published staging1 out1 \<Longrightarrow> distinct names \<Longrightarrow>
     out1 = (\<lambda>n. if n \<in> set names then staging n else out n) \<and> set names \<subseteq> dom staging"
proof (induction names arbitrary: moved staging out)
  case (Cons n names)
  then obtain bytes where b: "staging n = Some bytes" "move_files ok (moved @ [n]) names (staging(n := None)) (out(n \<mapsto> bytes)) = Published staging1 out1"
    by (auto split: option.splits if_splits)
  have "out1 = (\<lambda>m. if m \<in> set names then (staging(n := None)) m else (out(n \<mapsto> bytes)) m)" "set names \<subseteq> dom (staging(n := None))"
    using Cons.IH [OF b(2)] Cons.prems(2) unfolding distinct.simps by blast+
  then show ?case using b(1) Cons.prems(2) by (auto simp: subset_iff split: if_splits)
qed auto

lemma move_files_failed:
  "move_files ok moved names staging out = PublishFailed out1 \<Longrightarrow> n \<notin> set (moved @ names) \<Longrightarrow> out1 n = out n"
proof (induction names arbitrary: moved staging out)
  case (Cons k names)
  then show ?case by (auto simp: remove_fold split: option.splits if_splits)
qed simp

lemma bucket_loop_reach:
  "bucket_loop compress files definitions discard order (s, tot) = Inr (s', tot') \<Longrightarrow>
   sink_reach compress (\<lambda>t. def_tag t definitions) cap usage s [] sealed log \<Longrightarrow>
   \<exists>sealed' log'. sink_reach compress (\<lambda>t. def_tag t definitions) cap usage s' [] sealed' log'"
proof (induction order arbitrary: s tot sealed log)
  case (Cons b order)
  obtain s1 tot1 where b: "bucket_body compress files definitions discard b (s, tot) = Inr (s1, tot1)"
    "bucket_loop compress files definitions discard order (s1, tot1) = Inr (s', tot')"
    using Cons.prems(1) by (auto split: sum.splits)
  have "\<exists>sealed1 log1. sink_reach compress (\<lambda>t. def_tag t definitions) cap usage s1 [] sealed1 log1"
  proof (cases "s1 = s")
    case False
    then obtain rs where "sink_add compress (\<lambda>t. def_tag t definitions) rs s = Inr s1"
      using b(1) by (auto simp: bucket_body_def split: sum.splits if_splits)
    then show ?thesis using sink_add_reach [OF Cons.prems(2)] by blast
  qed (use Cons.prems(2) in blast)
  then show ?case using Cons.IH [OF b(2)] by blast
qed auto

lemma collapse_names:
  assumes "collapseBuckets compress files definitions usage cap discard order = Inr (res, s)"
  shows "distinct (map ce_file (cres_chunks res)) \<and> set (map ce_file (cres_chunks res)) = dom (sk_files s) \<and>
    dom (sk_files s) \<subseteq> range chunk_name"
proof -
  obtain s1 tot where l: "bucket_loop compress files definitions discard order (newSink cap usage, empty_collapse) = Inr (s1, tot)"
    "sink_close compress (\<lambda>t. def_tag t definitions) s1 = Inr s" "cres_chunks res = sort_key ce_file (sk_entries s)"
    using assms by (auto simp: collapseBuckets_def split: sum.splits)
  obtain sealed log where "sink_reach compress (\<lambda>t. def_tag t definitions) cap usage s [] sealed log"
    using bucket_loop_reach [OF l(1) sink_reach.start] sink_close_reach [OF _ l(2)] by blast
  from sink_reach_ok [OF this] have ok: "sealed_ok compress (\<lambda>t. def_tag t definitions) s sealed" "batches_ok s sealed log" by simp_all
  have "map fst (map (\<lambda>e. (ce_file e, ce_records e)) (sk_entries s)) = map fst (map (\<lambda>(n, rs). (n, length rs)) sealed)"
    using ok(1) by (simp add: sealed_ok_def)
  then have names: "map ce_file (sk_entries s) = map fst sealed" by (simp add: o_def case_prod_unfold)
  have "distinct (map fst sealed)" "fst ` set sealed \<subseteq> range chunk_name" "dom (sk_files s) = fst ` set sealed"
    using ok by (auto simp: batches_ok_def sealed_ok_def)
  moreover have "mset (map ce_file (cres_chunks res)) = mset (map fst sealed)"
    unfolding l(3) names [symmetric] by simp
  ultimately show ?thesis
    using mset_eq_setD [of "map ce_file (cres_chunks res)" "map fst sealed"] mset_eq_imp_distinct_iff [of "map ce_file (cres_chunks res)" "map fst sealed"]
    by simp
qed

lemma chunk_name_other: "chunk_name k \<noteq> RELATIONS_FILENAME" "chunk_name k \<noteq> MANIFEST_FILENAME"
  by (simp_all add: chunk_name_def RELATIONS_FILENAME_def MANIFEST_FILENAME_def)

lemma staged_names:
  assumes "flatten_stages env opts = Inr (staging, manifest)"
  shows "distinct (published_names manifest) \<and> MANIFEST_FILENAME \<notin> set (published_names manifest) \<and> set (published_names manifest) = dom staging"
proof -
  obtain files definitions usage res sink rbytes where
    c: "collapseBuckets (fe_compress env) files definitions usage (fo_max_records_per_chunk opts) (fo_discard opts) (fe_order env) = Inr (res, sink)"
    and m: "staging = (sk_files sink)(RELATIONS_FILENAME \<mapsto> rbytes)" "mf_chunks manifest = cres_chunks res"
      "mf_relations_file manifest = RELATIONS_FILENAME"
    using assms by (auto simp: flatten_stages_def Let_def split: if_splits option.splits sum.splits)
  note n = collapse_names [OF c]
  have names: "published_names manifest = map ce_file (cres_chunks res) @ [RELATIONS_FILENAME]"
    using m by (simp add: published_names_def RELATIONS_FILENAME_def)
  have "RELATIONS_FILENAME \<notin> dom (sk_files sink)" "MANIFEST_FILENAME \<notin> dom (sk_files sink)"
    using n chunk_name_other by (metis (no_types, lifting) rangeE subsetD)+
  moreover have "MANIFEST_FILENAME \<noteq> RELATIONS_FILENAME" by (simp add: MANIFEST_FILENAME_def RELATIONS_FILENAME_def)
  ultimately show ?thesis using n m(1) names by auto
qed

text \<open>
  C34. A successful run adds exactly its staged files and then the manifest to the output directory,
  replacing files of the same name and touching nothing else; a run that ends for any other reason
  than a failed rename or a failed manifest leaves the output directory as it was.
\<close>

theorem flatten_output_effects:
  "case runFlatten env opts out of (outcome, out') \<Rightarrow>
     if fl_success outcome
     then \<exists>staging manifest bytes. flatten_stages env opts = Inr (staging, manifest) \<and> fl_manifest outcome = Some manifest \<and>
       set (published_names manifest) = dom staging \<and> MANIFEST_FILENAME \<notin> dom staging \<and>
       writeManifest (fe_json env) (fe_manifest_fate env) manifest (out ++ staging) = (True, out') \<and>
       out' = (out ++ staging)(MANIFEST_FILENAME \<mapsto> bytes)
     else fl_message outcome = RenameFailed \<or> fl_message outcome = ManifestFailed \<or> out' = out"
proof (cases "flatten_stages env opts")
  case (Inl msg)
  then show ?thesis by (simp add: runFlatten_def failed_def)
next
  case (Inr sm)
  obtain staging manifest where sm: "flatten_stages env opts = Inr (staging, manifest)" using Inr by (cases sm) simp
  note names = staged_names [OF sm]
  show ?thesis
  proof (cases "publishStagedOutput (fe_rename_ok env) staging out manifest")
    case (PublishFailed out1)
    then show ?thesis using sm by (simp add: runFlatten_def failed_def)
  next
    case (Published staging1 out1)
    then have "out1 = (\<lambda>n. if n \<in> dom staging then staging n else out n)"
      using move_files_published names unfolding publishStagedOutput_def by metis
    also have "\<dots> = out ++ staging" by (auto simp: map_add_def fun_eq_iff split: option.splits)
    finally show ?thesis using sm Published names
      by (auto simp: runFlatten_def failed_def writeManifest_def split: stream_fate.splits)
  qed
qed

text \<open>
  C35. A failed publication does not restore what it replaced: if the rename of one file fails after
  others were moved, the names moved so far are absent from the output directory afterwards, whatever
  files of a previous run they held; all other names are unchanged.
\<close>

theorem publish_failure_removes_previous:
  assumes "published_names manifest = pre @ n # post" and "distinct (published_names manifest)"
    and "set pre \<subseteq> dom staging" and "list_all rename_ok pre" and "staging n = None \<or> \<not> rename_ok n"
  shows "publishStagedOutput rename_ok staging out manifest = PublishFailed (\<lambda>m. if m \<in> set pre then None else out m)"
proof -
  have "move_files rename_ok moved (pre @ n # post) staging out = PublishFailed (\<lambda>m. if m \<in> set (moved @ pre) then None else out m)"
    if "distinct (pre @ n # post)" "set pre \<subseteq> dom staging" "list_all rename_ok pre" "staging n = None \<or> \<not> rename_ok n" for moved staging out
    using that
  proof (induction pre arbitrary: moved staging out)
    case Nil
    then show ?case by (auto simp: remove_fold split: option.splits)
  next
    case (Cons k pre)
    then obtain bytes where k: "staging k = Some bytes" by auto
    have "move_files rename_ok (moved @ [k]) (pre @ n # post) (staging(k := None)) (out(k \<mapsto> bytes))
      = PublishFailed (\<lambda>m. if m \<in> set ((moved @ [k]) @ pre) then None else (out(k \<mapsto> bytes)) m)"
      using Cons.prems by (intro Cons.IH) auto
    then show ?case using k Cons.prems(3) by (auto intro!: ext)
  qed
  from this [of staging "[]" out] show ?thesis using assms by (simp add: publishStagedOutput_def)
qed

lemma publish_failure_removes_previous_witness:
  "publishStagedOutput (\<lambda>n. n \<noteq> RELATIONS_FILENAME) [''chunk-000000.idhanptr'' \<mapsto> [1], RELATIONS_FILENAME \<mapsto> [2]]
     [''chunk-000000.idhanptr'' \<mapsto> [9], MANIFEST_FILENAME \<mapsto> [8]] demo_manifest = PublishFailed [MANIFEST_FILENAME \<mapsto> [8]]"
proof -
  have names: "published_names demo_manifest = [''chunk-000000.idhanptr''] @ RELATIONS_FILENAME # []" by code_simp
  have "publishStagedOutput (\<lambda>n. n \<noteq> RELATIONS_FILENAME) [''chunk-000000.idhanptr'' \<mapsto> [1], RELATIONS_FILENAME \<mapsto> [2]]
     [''chunk-000000.idhanptr'' \<mapsto> [9], MANIFEST_FILENAME \<mapsto> [8]] demo_manifest =
     PublishFailed (\<lambda>m. if m \<in> set [''chunk-000000.idhanptr''] then None
       else [''chunk-000000.idhanptr'' \<mapsto> [9], MANIFEST_FILENAME \<mapsto> [8]] m)"
    by (rule publish_failure_removes_previous [OF names]) (simp_all add: names RELATIONS_FILENAME_def)
  also have "\<dots> = PublishFailed [MANIFEST_FILENAME \<mapsto> [8]]" by (auto simp: MANIFEST_FILENAME_def fun_eq_iff)
  finally show ?thesis .
qed

section \<open>A run from the corpus to the chunks\<close>





subsection \<open>A small corpus\<close>








end
