(* ===== verification/Ptr_Parallel.thy ===== *)
theory Ptr_Parallel
  imports IDHAN_Prelude "HOL-Library.Multiset"
begin

text \<open>
  The worker pool of the PTR compactor (\<^verbatim>\<open>ptr-core/src/ParallelFor.cpp\<close>) under every interleaving
  of its lanes.  A lane reads the stop flag, claims an index and runs the body as separate
  steps; what a body answers is up to the environment.  \<open>started\<close> and \<open>ended\<close> record the bodies
  that began and their answers.
\<close>

datatype 'e outcome = Continue | Stop | Throw 'e

datatype lane_state = Checking | Claiming | Running nat | Exited

record 'e pool =
  next_index :: nat
  stopped :: bool
  first_error :: "'e option"
  lanes :: "lane_state list"
  started :: "nat list"
  ended :: "(nat \<times> 'e outcome) list"

definition worker_count :: "nat \<Rightarrow> nat \<Rightarrow> nat \<Rightarrow> nat" where
  "worker_count items threads hardware = min (if threads \<noteq> 0 then threads else max 1 hardware) items"

definition new_pool :: "nat \<Rightarrow> 'e pool" where
  "new_pool workers = \<lparr>next_index = 0, stopped = False, first_error = None, lanes = replicate workers Checking,
     started = [], ended = []\<rparr>"

text \<open>The loop head: leave when the flag is set, else go on to claim.\<close>

definition check_stop :: "nat \<Rightarrow> 'e pool \<Rightarrow> 'e pool" where
  "check_stop i p = p\<lparr>lanes := (lanes p)[i := if stopped p then Exited else Claiming]\<rparr>"

definition claim_index :: "nat \<Rightarrow> nat \<Rightarrow> 'e pool \<Rightarrow> 'e pool" where
  "claim_index items i p =
     (let index = next_index p; p1 = p\<lparr>next_index := index + 1\<rparr> in
      if index \<ge> items then p1\<lparr>lanes := (lanes p1)[i := Exited]\<rparr>
      else p1\<lparr>lanes := (lanes p1)[i := Running index], started := started p1 @ [index]\<rparr>)"

definition end_body :: "nat \<Rightarrow> nat \<Rightarrow> 'e outcome \<Rightarrow> 'e pool \<Rightarrow> 'e pool" where
  "end_body i k r p =
     (let p1 = p\<lparr>ended := ended p @ [(k, r)]\<rparr> in
      case r of
        Continue \<Rightarrow> p1\<lparr>lanes := (lanes p1)[i := Checking]\<rparr>
      | Stop \<Rightarrow> p1\<lparr>stopped := True, lanes := (lanes p1)[i := Checking]\<rparr>
      | Throw e \<Rightarrow> p1\<lparr>first_error := (case first_error p1 of None \<Rightarrow> Some e | Some e' \<Rightarrow> Some e'), stopped := True,
                    lanes := (lanes p1)[i := Exited]\<rparr>)"

inductive pool_step :: "nat \<Rightarrow> 'e pool \<Rightarrow> 'e pool \<Rightarrow> bool" for items where
  check: "i < length (lanes p) \<Longrightarrow> lanes p ! i = Checking \<Longrightarrow> pool_step items p (check_stop i p)"
| claim: "i < length (lanes p) \<Longrightarrow> lanes p ! i = Claiming \<Longrightarrow> pool_step items p (claim_index items i p)"
| body: "i < length (lanes p) \<Longrightarrow> lanes p ! i = Running k \<Longrightarrow> pool_step items p (end_body i k r p)"

definition all_joined :: "'e pool \<Rightarrow> bool" where
  "all_joined p \<longleftrightarrow> list_all (\<lambda>l. l = Exited) (lanes p)"

text \<open>What the call returns once the lanes are joined; an empty range returns at once.\<close>

definition pool_result :: "'e pool \<Rightarrow> ('e, bool) result" where
  "pool_result p = (case first_error p of Some e \<Rightarrow> Inl e | None \<Rightarrow> Inr (\<not> stopped p))"

section \<open>Every run ends\<close>

fun lane_weight :: "lane_state \<Rightarrow> nat" where
  "lane_weight Checking = 2"
| "lane_weight Claiming = 1"
| "lane_weight (Running k) = 3"
| "lane_weight Exited = 0"

definition pool_measure :: "nat \<Rightarrow> 'e pool \<Rightarrow> nat" where
  "pool_measure items p = 4 * (items - next_index p) + sum_list (map lane_weight (lanes p))"

lemma sum_list_replace:
  fixes f :: "'a \<Rightarrow> nat"
  assumes "i < length xs"
  shows "sum_list (map f (xs[i := x])) + f (xs ! i) = sum_list (map f xs) + f x"
  using assms
proof (induction xs arbitrary: i)
  case (Cons y ys)
  then show ?case by (cases i) auto
qed simp

lemma pool_step_decreases: "pool_step items p q \<Longrightarrow> pool_measure items q < pool_measure items p"
proof (induction rule: pool_step.cases)
  case (check i p)
  then show ?case using sum_list_replace [of i "lanes p" lane_weight "if stopped p then Exited else Claiming"]
    by (auto simp: pool_measure_def check_stop_def split: if_splits)
next
  case (claim i p)
  then show ?case
    using sum_list_replace [of i "lanes p" lane_weight Exited] sum_list_replace [of i "lanes p" lane_weight "Running (next_index p)"]
    by (auto simp: pool_measure_def claim_index_def Let_def)
next
  case (body i p k r)
  then show ?case
    using sum_list_replace [of i "lanes p" lane_weight Exited] sum_list_replace [of i "lanes p" lane_weight Checking]
    by (cases r) (auto simp: pool_measure_def end_body_def)
qed

lemma not_joined_steps: "\<not> all_joined p \<Longrightarrow> \<exists>q. pool_step items p q"
proof -
  assume "\<not> all_joined p"
  then obtain i where i: "i < length (lanes p)" "lanes p ! i \<noteq> Exited"
    by (auto simp: all_joined_def list_all_length)
  then show ?thesis by (cases "lanes p ! i") (auto intro: pool_step.intros)
qed

text \<open>
  C11. The pool always finishes: from any state, whatever the bodies answer and however the lanes
  interleave, at most four steps per unclaimed index and three per lane remain, and while some lane
  has not exited a step is possible, so every maximal run ends with all lanes joined.
\<close>

theorem pool_terminates:
  assumes "(pool_step items ^^ n) p q"
  shows "n \<le> 4 * (items - next_index p) + 3 * length (lanes p) \<and> (all_joined q \<or> (\<exists>q'. pool_step items q q'))"
proof -
  have steps: "n + pool_measure items q \<le> pool_measure items p"
    using assms
  proof (induction n arbitrary: q)
    case (Suc n)
    then obtain r where "(pool_step items ^^ n) p r" "pool_step items r q" by auto
    then show ?case using Suc.IH pool_step_decreases by fastforce
  qed simp
  have weights: "sum_list (map lane_weight ls) \<le> 3 * length ls" for ls
  proof (induction ls)
    case (Cons l ls)
    then show ?case by (cases l) auto
  qed simp
  have "n \<le> 4 * (items - next_index p) + 3 * length (lanes p)"
    using steps weights [of "lanes p"] unfolding pool_measure_def by linarith
  then show ?thesis using not_joined_steps by blast
qed

section \<open>Every index once\<close>

definition running_of :: "lane_state \<Rightarrow> nat option" where
  "running_of l = (case l of Running k \<Rightarrow> Some k | _ \<Rightarrow> None)"

text \<open>Claims are handed out in order, and a started body has ended or runs in a lane.\<close>

definition indices_ok :: "nat \<Rightarrow> 'e pool \<Rightarrow> bool" where
  "indices_ok items p \<longleftrightarrow> started p = [0..<min (next_index p) items]"

definition bodies_ok :: "'e pool \<Rightarrow> bool" where
  "bodies_ok p \<longleftrightarrow> mset (started p) = mset (map fst (ended p)) + mset (List.map_filter running_of (lanes p))"

text \<open>The flags reflect the answers, and a lane leaves only when stopped or out of work.\<close>

definition answers_ok :: "bool \<Rightarrow> 'e option \<Rightarrow> (nat \<times> 'e outcome) list \<Rightarrow> bool" where
  "answers_ok stop err answers \<longleftrightarrow>
     (stop \<longleftrightarrow> (\<exists>kr \<in> set answers. snd kr \<noteq> Continue)) \<and>
     (case err of
        None \<Rightarrow> \<forall>kr \<in> set answers. \<forall>e. snd kr \<noteq> Throw e
      | Some e \<Rightarrow> \<exists>k. (k, Throw e) \<in> set answers)"

definition flags_ok :: "nat \<Rightarrow> 'e pool \<Rightarrow> bool" where
  "flags_ok items p \<longleftrightarrow> answers_ok (stopped p) (first_error p) (ended p) \<and>
     (Exited \<in> set (lanes p) \<longrightarrow> stopped p \<or> items \<le> next_index p)"

lemma map_filter_replace:
  assumes "i < length xs"
  shows "mset (List.map_filter f (xs[i := x])) + (case f (xs ! i) of None \<Rightarrow> {#} | Some y \<Rightarrow> {#y#})
    = mset (List.map_filter f xs) + (case f x of None \<Rightarrow> {#} | Some y \<Rightarrow> {#y#})"
  using assms
proof (induction xs arbitrary: i)
  case (Cons y ys)
  then show ?case by (cases i) (auto simp: map_filter_simps split: option.splits)
qed simp

lemma set_update_exited: "Exited \<in> set (ls[i := l]) \<Longrightarrow> l = Exited \<or> Exited \<in> set ls"
  using set_update_subset_insert [of ls i l] by auto

lemma answers_snoc:
  assumes "answers_ok stop err answers"
  shows "answers_ok stop err (answers @ [(k, Continue)])" "answers_ok True err (answers @ [(k, Stop)])"
    "answers_ok True (case err of None \<Rightarrow> Some e | Some e' \<Rightarrow> Some e') (answers @ [(k, Throw e)])"
  using assms by (auto simp: answers_ok_def split: option.splits)

lemma check_inv:
  assumes "i < length (lanes p)" and "lanes p ! i = Checking"
  shows "indices_ok items p \<Longrightarrow> indices_ok items (check_stop i p)" and "bodies_ok p \<Longrightarrow> bodies_ok (check_stop i p)"
    and "flags_ok items p \<Longrightarrow> flags_ok items (check_stop i p)"
proof -
  have "mset (List.map_filter running_of (lanes (check_stop i p))) = mset (List.map_filter running_of (lanes p))"
    using map_filter_replace [OF assms(1), of running_of] assms(2) by (simp add: check_stop_def running_of_def)
  then show "bodies_ok p \<Longrightarrow> bodies_ok (check_stop i p)" by (simp add: bodies_ok_def) (simp add: check_stop_def)
  have "Exited \<in> set (lanes (check_stop i p)) \<Longrightarrow> stopped p \<or> Exited \<in> set (lanes p)"
    by (auto simp: check_stop_def dest: set_update_exited split: if_splits)
  then show "flags_ok items p \<Longrightarrow> flags_ok items (check_stop i p)" unfolding flags_ok_def by (auto simp: check_stop_def split: if_splits)
qed (simp add: indices_ok_def check_stop_def)

lemma claim_inv:
  assumes "i < length (lanes p)" and "lanes p ! i = Claiming"
  shows "indices_ok items p \<Longrightarrow> indices_ok items (claim_index items i p)" and "bodies_ok p \<Longrightarrow> bodies_ok (claim_index items i p)"
    and "flags_ok items p \<Longrightarrow> flags_ok items (claim_index items i p)"
proof -
  have "mset (List.map_filter running_of ((lanes p)[i := Exited])) = mset (List.map_filter running_of (lanes p))"
    "mset (List.map_filter running_of ((lanes p)[i := Running k])) = add_mset k (mset (List.map_filter running_of (lanes p)))" for k
    using map_filter_replace [OF assms(1), of running_of] assms(2) by (simp_all add: running_of_def)
  then show "bodies_ok p \<Longrightarrow> bodies_ok (claim_index items i p)" by (simp add: bodies_ok_def claim_index_def Let_def)
  have "Exited \<in> set (lanes (claim_index items i p)) \<Longrightarrow> items \<le> next_index p \<or> Exited \<in> set (lanes p)"
    by (auto simp: claim_index_def Let_def dest: set_update_exited split: if_splits)
  then show "flags_ok items p \<Longrightarrow> flags_ok items (claim_index items i p)"
    unfolding flags_ok_def by (auto simp: claim_index_def Let_def)
qed (simp add: indices_ok_def claim_index_def Let_def min_def)

lemma body_inv:
  assumes "i < length (lanes p)" and "lanes p ! i = Running k"
  shows "indices_ok items p \<Longrightarrow> indices_ok items (end_body i k r p)" and "bodies_ok p \<Longrightarrow> bodies_ok (end_body i k r p)"
    and "flags_ok items p \<Longrightarrow> flags_ok items (end_body i k r p)"
proof -
  have "mset (List.map_filter running_of (lanes p)) = add_mset k (mset (List.map_filter running_of ((lanes p)[i := l])))"
    if "running_of l = None" for l
    using map_filter_replace [OF assms(1), of running_of l] assms(2) that by (simp add: running_of_def)
  from this [of Checking] this [of Exited] show "bodies_ok p \<Longrightarrow> bodies_ok (end_body i k r p)"
    by (cases r) (simp_all add: bodies_ok_def end_body_def running_of_def)
  show "flags_ok items p \<Longrightarrow> flags_ok items (end_body i k r p)"
    using answers_snoc [of "stopped p" "first_error p" "ended p"]
    by (cases r) (auto simp: flags_ok_def end_body_def dest: set_update_exited)
qed (cases r; simp add: indices_ok_def end_body_def)

lemma pool_step_inv:
  "pool_step items p q \<Longrightarrow> indices_ok items p \<and> bodies_ok p \<and> flags_ok items p \<Longrightarrow> indices_ok items q \<and> bodies_ok q \<and> flags_ok items q"
  by (induction rule: pool_step.induct) (simp_all add: check_inv claim_inv body_inv)

lemma pool_reach_inv: "(pool_step items)\<^sup>*\<^sup>* (new_pool workers) p \<Longrightarrow> indices_ok items p \<and> bodies_ok p \<and> flags_ok items p"
proof (induction rule: rtranclp_induct)
  case base
  have "List.map_filter running_of (replicate workers Checking) = []" by (induction workers) (simp_all add: map_filter_simps running_of_def)
  then show ?case by (simp add: indices_ok_def bodies_ok_def flags_ok_def answers_ok_def new_pool_def)
next
  case (step q r)
  then show ?case using pool_step_inv by blast
qed

lemma joined_no_running: "all_joined p \<Longrightarrow> List.map_filter running_of (lanes p) = []"
  by (auto simp: all_joined_def list_all_iff map_filter_def filter_empty_conv running_of_def)

lemma pool_step_lanes: "pool_step items p q \<Longrightarrow> length (lanes q) = length (lanes p)"
  by (induction rule: pool_step.induct) (auto simp: check_stop_def claim_index_def end_body_def Let_def split: outcome.splits)

text \<open>
  C10. The pool runs every index at most once, and returns what the bodies answered: when all lanes
  have joined, every started body has ended; if the call returns true, each index of the range ran
  exactly once and every body asked to continue; if it returns false some body asked to stop and
  none threw; if it throws, some body threw that exception.
\<close>

theorem pool_runs_each_once:
  assumes "0 < workers" and "(pool_step items)\<^sup>*\<^sup>* (new_pool workers) p" and "all_joined p"
  shows "distinct (started p) \<and> mset (map fst (ended p)) = mset (started p) \<and>
    (case pool_result p of
       Inr True \<Rightarrow> started p = [0..<items] \<and> list_all (\<lambda>(k, r). r = Continue) (ended p)
     | Inr False \<Rightarrow> (\<exists>k. (k, Stop) \<in> set (ended p)) \<and> list_all (\<lambda>(k, r). r = Continue \<or> r = Stop) (ended p)
     | Inl e \<Rightarrow> (\<exists>k. (k, Throw e) \<in> set (ended p)))"
proof -
  note inv = pool_reach_inv [OF assms(2)]
  have "length (lanes p) = workers"
    using assms(2) by (induction rule: rtranclp_induct) (simp_all add: new_pool_def pool_step_lanes)
  then have "lanes p \<noteq> []" using assms(1) by auto
  then have "Exited \<in> set (lanes p)" using assms(3) hd_in_set by (fastforce simp: all_joined_def list_all_iff)
  then have done_: "stopped p \<or> items \<le> next_index p" and ans: "answers_ok (stopped p) (first_error p) (ended p)"
    using inv by (simp_all add: flags_ok_def)
  have "started p = [0..<min (next_index p) items]" using inv by (simp add: indices_ok_def)
  moreover have "mset (map fst (ended p)) = mset (started p)"
    using inv joined_no_running [OF assms(3)] by (simp add: bodies_ok_def)
  moreover have "distinct (started p)" using calculation(1) by simp
  ultimately have ended: "mset (map fst (ended p)) = mset (started p)" "distinct (started p)" "started p = [0..<min (next_index p) items]"
    by blast+
  show ?thesis
  proof (cases "first_error p")
    case None
    show ?thesis
    proof (cases "stopped p")
      case True
      obtain k r where kr: "(k, r) \<in> set (ended p)" "r \<noteq> Continue" using ans True by (auto simp: answers_ok_def)
      have nt: "r = Continue \<or> r = Stop" if "(k, r) \<in> set (ended p)" for k r
        using ans None that by (cases r) (auto simp: answers_ok_def)
      then show ?thesis using kr None True ended(1,2) by (fastforce simp: pool_result_def list_all_iff)
    next
      case False
      then have "started p = [0..<items]" using done_ ended(3) by (simp add: min_def)
      then show ?thesis using ans None False ended(1,2) by (auto simp: pool_result_def answers_ok_def list_all_iff)
    qed
  next
    case (Some e)
    then show ?thesis using ans ended(1,2) by (auto simp: pool_result_def answers_ok_def)
  qed
qed

section \<open>A run\<close>

definition demo_pools :: "nat pool list" where
  "demo_pools =
     (let p0 = new_pool 1; p1 = check_stop 0 p0; p2 = claim_index 1 0 p1; p3 = end_body 0 0 Continue p2; p4 = check_stop 0 p3 in
      [p0, p1, p2, p3, p4, claim_index 1 0 p4])"

lemma demo_steps:
  "pool_step 1 (demo_pools ! 0) (demo_pools ! 1)" "pool_step 1 (demo_pools ! 1) (demo_pools ! 2)"
  "pool_step 1 (demo_pools ! 2) (demo_pools ! 3)" "pool_step 1 (demo_pools ! 3) (demo_pools ! 4)"
  "pool_step 1 (demo_pools ! 4) (demo_pools ! 5)"
  using pool_step.check [of 0 "demo_pools ! 0" 1] pool_step.claim [of 0 "demo_pools ! 1" 1]
    pool_step.body [of 0 "demo_pools ! 2" 0 1 Continue] pool_step.check [of 0 "demo_pools ! 3" 1] pool_step.claim [of 0 "demo_pools ! 4" 1]
  by (simp_all add: demo_pools_def new_pool_def check_stop_def claim_index_def end_body_def Let_def)

lemma pool_terminates_witness:
  "(pool_step 1 ^^ 2) (demo_pools ! 0) (demo_pools ! 2) \<and> 2 \<le> 4 * (1 - next_index (demo_pools ! 0)) + 3 * length (lanes (demo_pools ! 0))"
proof -
  have "(pool_step 1 ^^ 2) (demo_pools ! 0) (demo_pools ! 2)"
    using demo_steps(1,2) by (auto simp: numeral_2_eq_2)
  from this pool_terminates [OF this] show ?thesis by blast
qed

lemma pool_runs_each_once_witness:
  "all_joined (demo_pools ! 5) \<and> distinct (started (demo_pools ! 5)) \<and> pool_result (demo_pools ! 5) = Inr True \<and>
   started (demo_pools ! 5) = [0..<1]"
proof -
  have "demo_pools ! 0 = new_pool 1" by (simp add: demo_pools_def Let_def)
  then have reach: "(pool_step 1)\<^sup>*\<^sup>* (new_pool 1) (demo_pools ! 5)"
    using demo_steps by (auto intro: converse_rtranclp_into_rtranclp)
  have j: "all_joined (demo_pools ! 5)" and r: "pool_result (demo_pools ! 5) = Inr True"
    by (simp_all add: demo_pools_def new_pool_def check_stop_def claim_index_def end_body_def all_joined_def pool_result_def Let_def)
  from pool_runs_each_once [OF _ reach j] r j show ?thesis by simp
qed

end
