(* ===== verification/Spec2Isabelle.thy ===== *)
theory Spec2Isabelle
  imports LRU_Cache Search_Sort Lane_Pool Ipc_Frame Ptr_Flatten Ptr_Parallel
begin

text \<open>
  \<^bold>\<open>IDHAN.\<close>  IDHAN stores media by hash, tags it, searches it and downloads it.  This library models
  four parts of it: the data structures of the server's search and caches, the HTTP engine of the
  downloader, the framing between the server and its module workers, and the compactor of the Public Tag Repository (PTR) that prepares a Hydrus tag
  repository for import.  Paths below are relative to \<^verbatim>\<open>src/\<close>.

  \<^bold>\<open>Shared vocabulary.\<close>
  \<^item> \<^verbatim>\<open>IDHAN_Prelude\<close>: machine words, the result type (\<open>Inl\<close> is the exception or the error of
    \<^verbatim>\<open>std::expected\<close>), facts on keyed lists.
  \<^item> \<^verbatim>\<open>Cpp_Text\<close>: character classes, trimming, splitting, \<^verbatim>\<open>from_chars\<close> and decimal output.
  \<^item> \<^verbatim>\<open>Byte_Codec\<close>: little-endian values in byte buffers, the reading combinators of the PTR files
    and the locale \<open>offset_codec\<close>, whose contract says that a reader takes back what a writer
    appended at any offset; it is interpreted for words, string entries, records and relations.
  \<^item> \<^verbatim>\<open>Json_Value\<close>: the operations of the JSON library as a parameter and their documented laws.

  \<^bold>\<open>Server.\<close>
  \<^item> \<^verbatim>\<open>LRU_Cache\<close> (\<^verbatim>\<open>IDHANServer/src/caching\<close>): the two cache templates with list nodes that have an
    identity, so that the index holds iterators as the code does, and the record caches built on
    them.  Every operation keeps list and index consistent and refines a bounded recency list.
  \<^item> \<^verbatim>\<open>Search_Set\<close>, \<^verbatim>\<open>Search_Sort\<close> (\<^verbatim>\<open>IDHANServer/src/core/search\<close>): result sets as sorted columns.  The
    operators are the boolean algebra of record sets, refuse mixed sort types, and paging, reversal
    and shuffling lose nothing; the sort key tables.

  \<^bold>\<open>Downloader\<close> (\<^verbatim>\<open>IDHANDownloader/src/http\<close>, \<^verbatim>\<open>cookies\<close>).  A request enters \<^verbatim>\<open>LanePool\<close>, which picks the
  lane of its host, applies cookies and queues it as a hop; the lane starts hops on its shards when
  its policy grants a slot; a shard runs the transfer over libcurl and answers; the pool files
  cookies, follows redirects, retries or answers the caller.
  \<^item> \<^verbatim>\<open>Http_Message\<close>, \<^verbatim>\<open>Http_Transfer\<close>: headers, bodies, Set-Cookie, requests and responses.
  \<^item> \<^verbatim>\<open>Cookie_Store\<close>: matching, the Cookie header, filing responses, domain isolation.
  \<^item> \<^verbatim>\<open>Lane_Policy\<close>: claims, backoff, pauses; the rate bound, the closed form of the backoff,
    Retry-After and the absence of overflow.
  \<^item> \<^verbatim>\<open>Lane\<close>: queue, pump and gate; transfers are conserved and the lane never stalls.
  \<^item> \<^verbatim>\<open>Lane_Shard\<close>: running transfers; each is answered once, bodies are bounded, sinks are settled.
  \<^item> \<^verbatim>\<open>Lane_Pool\<close>: the whole engine; answers are given once, redirects are bounded, credentials stay
    on their origin.
  A call made under a lock is one step of a history; the callbacks of libcurl, sink answers, clocks
  and cancellation flags are inputs of the steps.

  \<^bold>\<open>Module workers.\<close>  \<^verbatim>\<open>Ipc_Frame\<close> (\<^verbatim>\<open>IDHANModules/ipc/src/linux/FrameLinux.cpp\<close>): frames of JSON text and file
  descriptors over a stream socket.  The socket is a list of bytes with the descriptors they carry;
  how far each system call gets is an argument.  The history of a channel is an inductive relation,
  and the reader returns exactly the frames accepted by the writer, in order.

  \<^bold>\<open>PTR compactor\<close> (\<^verbatim>\<open>tools/HydrusImporter/ptr-core\<close>).  \<^verbatim>\<open>runFlatten\<close> parses update files, spills mapping
  events into bucket files and definitions into a store, collapses each bucket to the last operation
  per hash and tag, seals records into chunk files, writes the relations and publishes all of it
  with a manifest.
  \<^item> \<^verbatim>\<open>Ptr_Parser\<close> (\<^verbatim>\<open>PTRFileParser.cpp\<close>): inflation and the typed updates.
  \<^item> \<^verbatim>\<open>Ptr_Events\<close> (\<^verbatim>\<open>MappingEvent.hpp\<close>, \<^verbatim>\<open>CollapseChain.cpp\<close>, \<^verbatim>\<open>BucketSpill.cpp\<close>, \<^verbatim>\<open>TagUsageSet.cpp\<close>): events,
    buffered bucket files, the set of used tags.
  \<^item> \<^verbatim>\<open>Ptr_Definitions\<close> (\<^verbatim>\<open>DefinitionStore.cpp\<close>): hash and tag tables in sparse files; the locale
    \<open>id_table\<close> states the lookup contract.
  \<^item> \<^verbatim>\<open>Ptr_Chunk\<close> (\<^verbatim>\<open>ChunkFormat.cpp\<close>), \<^verbatim>\<open>Ptr_Relations\<close> (\<^verbatim>\<open>RelationsFile.cpp\<close>): the file formats and their
    round trips.
  \<^item> \<^verbatim>\<open>Ptr_Collapse\<close> (\<^verbatim>\<open>FlattenCollapse.cpp\<close>): the one-pass collapse equals a specification over the
    unordered events, and the chunk sink, an inductive step relation over claims and seals, loses
    and repeats no record under any interleaving.
  \<^item> \<^verbatim>\<open>Ptr_Parallel\<close> (\<^verbatim>\<open>ParallelFor.cpp\<close>): the worker lanes as interleaved atomic steps; the pool ends and
    runs every index once.
  \<^item> \<^verbatim>\<open>Ptr_Scan\<close> (\<^verbatim>\<open>FlattenScan.cpp\<close>), \<^verbatim>\<open>Ptr_Manifest\<close> (\<^verbatim>\<open>Manifest.cpp\<close>), \<^verbatim>\<open>Ptr_Flatten\<close> (\<^verbatim>\<open>RunFlatten.cpp\<close>): the
    stages and the whole run, whose chunks read back as the records the corpus specifies.
  The stages take the order in which workers finish as an argument, and the theorems hold for every
  order; \<^verbatim>\<open>Ptr_Parallel\<close> shows that a run that is not stopped is such an order.

  \<^bold>\<open>Bounds and fuel.\<close>  Loops are structural recursions or have termination proofs; none has fuel.  The
  inflate loop, which need not end for an arbitrary decompressor, is a partial function whose result
  is \<open>None\<close> if it does not, and it is proved to return under zlib's progress contract.  Counters the
  code keeps in 64 bits are natural numbers; where a 32-bit field of a file could wrap, the round
  trip assumes the body below \<open>2 ^ 32\<close> bytes.  Times are integers, with the range shown where they
  are computed.

  \<^bold>\<open>Parameters.\<close>  libcurl, ada, zlib, jsoncpp, the file system, clocks, random permutations and the host's
  callbacks are arguments; what is assumed of them is a hypothesis of the theorem that needs it.

  \<^bold>\<open>Not modelled.\<close>  The HTTP API, the database layer and the migrations (their behaviour is SQL run by
  PostgreSQL through drogon coroutines); modules, thumbnailers and mime detection (driven by FFmpeg,
  libvips and module processes; of these the framing of messages is modelled, their meaning is not); the JavaScript scripting of the downloader (QuickJS scripts that are
  data); the Qt importer and its workers outside \<^verbatim>\<open>ptr-core\<close>, the web interface and the client
  library (user interface and transport); thread, epoll and timer plumbing (system calls).  Logging
  and progress callbacks are left out where they have no other effect.
\<close>

end
